(* ===== verification/Prelude.thy ===== *)
theory Prelude
  imports Main "HOL-Library.Word"
begin

text \<open>
  Shared vocabulary of the development: the fixed-width integer types of the C sources, the
  faults a C function can run into, the outcomes of \<^verbatim>\<open>malloc\<close>, checked reads of byte
  buffers, and the generic facts on lists, ring indices and words that the components use.

  Conventions. A pointer that may be \<^verbatim>\<open>NULL\<close> is an \<open>option\<close>. A function that can run into
  undefined behaviour returns \<open>fault + 'a\<close>, with \<open>Inl\<close> for the fault. A function that may not
  return (it blocks on a semaphore for ever, or loops for ever) returns \<open>'a option\<close>, with
  \<open>None\<close> for not returning. The host is a little-endian LP64 machine, the platform the
  project's build targets.
\<close>

section \<open>Types\<close>

type_synonym u8 = "8 word"
type_synonym u16 = "16 word"
type_synonym u32 = "32 word"
type_synonym bytes = "8 word list"

text \<open>The undefined behaviours and traps that the modelled code can run into.\<close>

datatype fault =
    Null_Deref
  | Out_Of_Bounds
  | Uninit_Read
  | Div_By_Zero
  | Bad_Free
  | Bad_Access

section \<open>Collections of facts\<close>

named_theorems c_defs \<open>definitions of small C helpers, to be unfolded\<close>
named_theorems ring_arith \<open>arithmetic of ring indices\<close>
named_theorems bytes_simps \<open>splitting words into bytes and putting them together\<close>

section \<open>Faults\<close>

text \<open>Sequencing of computations that may fault.\<close>

definition bind_fault :: "fault + 'a \<Rightarrow> ('a \<Rightarrow> fault + 'b) \<Rightarrow> fault + 'b" where
  "bind_fault m k = (case m of Inl e \<Rightarrow> Inl e | Inr x \<Rightarrow> k x)"

lemma bind_fault_simps [simp]:
  "bind_fault (Inl e) k = Inl e"
  "bind_fault (Inr x) k = k x"
  by (simp_all add: bind_fault_def)

lemma bind_fault_eq_Inr:
  "bind_fault m k = Inr y \<longleftrightarrow> (\<exists>x. m = Inr x \<and> k x = Inr y)"
  by (simp add: bind_fault_def split: sum.splits)

lemma bind_fault_eq_Inl:
  "bind_fault m k = Inl e \<longleftrightarrow> m = Inl e \<or> (\<exists>x. m = Inr x \<and> k x = Inl e)"
  by (simp add: bind_fault_def split: sum.splits)

text \<open>Sequencing of computations that may also not return.\<close>

definition bind_run ::
  "(fault + 'a) option \<Rightarrow> ('a \<Rightarrow> (fault + 'b) option) \<Rightarrow> (fault + 'b) option" where
  "bind_run m k = (case m of None \<Rightarrow> None | Some (Inl e) \<Rightarrow> Some (Inl e) | Some (Inr x) \<Rightarrow> k x)"

lemma bind_run_simps [simp]:
  "bind_run None k = None"
  "bind_run (Some (Inl e)) k = Some (Inl e)"
  "bind_run (Some (Inr x)) k = k x"
  by (simp_all add: bind_run_def)

section \<open>Memory allocation\<close>

text \<open>
  The outcomes of the successive calls of \<^verbatim>\<open>malloc\<close>: each call consumes one outcome, and
  when the list is exhausted every further call succeeds. \<open>[]\<close> therefore is a run in which no
  allocation fails.
\<close>

type_synonym allocs = "bool list"

fun malloc :: "allocs \<Rightarrow> bool \<times> allocs" where
  "malloc [] = (True, [])"
| "malloc (b # bs) = (b, bs)"

text \<open>
  \<^verbatim>\<open>malloc(n)\<close> for a signed \<^verbatim>\<open>n\<close>: a negative value is converted to a \<^verbatim>\<open>size_t\<close> beyond
  \<^verbatim>\<open>PTRDIFF_MAX\<close>, which the allocator always refuses.
\<close>

definition malloc_signed :: "int \<Rightarrow> allocs \<Rightarrow> bool \<times> allocs" where
  "malloc_signed n as = (if n < 0 then (False, as) else malloc as)"

lemma malloc_signed_nonneg [simp]: "0 \<le> n \<Longrightarrow> malloc_signed n as = malloc as"
  by (simp add: malloc_signed_def)

lemma malloc_signed_neg [simp]: "n < 0 \<Longrightarrow> malloc_signed n as = (False, as)"
  by (simp add: malloc_signed_def)

section \<open>Checked access to byte buffers\<close>

definition read_byte :: "bytes \<Rightarrow> nat \<Rightarrow> fault + u8" where
  "read_byte buf i = (if i < length buf then Inr (buf ! i) else Inl Out_Of_Bounds)"

text \<open>The source range of a \<^verbatim>\<open>memcpy\<close> of \<open>n\<close> bytes from \<open>buf + off\<close>.\<close>

definition read_range :: "bytes \<Rightarrow> nat \<Rightarrow> nat \<Rightarrow> fault + bytes" where
  "read_range buf off n =
     (if off + n \<le> length buf then Inr (take n (drop off buf)) else Inl Out_Of_Bounds)"

lemma read_byte_in [simp]: "i < length buf \<Longrightarrow> read_byte buf i = Inr (buf ! i)"
  by (simp add: read_byte_def)

lemma read_range_in [simp]:
  "off + n \<le> length buf \<Longrightarrow> read_range buf off n = Inr (take n (drop off buf))"
  by (simp add: read_range_def)

lemma length_read_range: "read_range buf off n = Inr xs \<Longrightarrow> length xs = n"
  by (auto simp: read_range_def split: if_splits)

section \<open>Ring indices\<close>

text \<open>Number of used slots between \<open>tail\<close> and \<open>head\<close> of a ring of \<open>n\<close> slots.\<close>

definition ring_used :: "nat \<Rightarrow> nat \<Rightarrow> nat \<Rightarrow> nat" where
  "ring_used n h t = (if t \<le> h then h - t else n + h - t)"

lemma ring_used_less [ring_arith]:
  "h < n \<Longrightarrow> t < n \<Longrightarrow> ring_used n h t < n"
  by (auto simp: ring_used_def)

lemma ring_used_0_iff [ring_arith]:
  "h < n \<Longrightarrow> t < n \<Longrightarrow> ring_used n h t = 0 \<longleftrightarrow> t = h"
  by (auto simp: ring_used_def)

lemma Suc_mod_ring: "i < n \<Longrightarrow> Suc i mod n = (if Suc i = n then 0 else Suc i)"
  by auto

lemma ring_full_iff [ring_arith]:
  "h < n \<Longrightarrow> t < n \<Longrightarrow> Suc h mod n = t \<longleftrightarrow> Suc (ring_used n h t) = n"
  by (auto simp: ring_used_def Suc_mod_ring)

lemma ring_used_Suc_head [ring_arith]:
  "h < n \<Longrightarrow> t < n \<Longrightarrow> Suc (ring_used n h t) < n \<Longrightarrow>
    ring_used n (Suc h mod n) t = Suc (ring_used n h t)"
  by (auto simp: ring_used_def Suc_mod_ring)

lemma ring_used_Suc_tail [ring_arith]:
  "h < n \<Longrightarrow> t < n \<Longrightarrow> t \<noteq> h \<Longrightarrow>
    Suc (ring_used n h (Suc t mod n)) = ring_used n h t"
  by (auto simp: ring_used_def Suc_mod_ring)

lemma ring_head_slot [ring_arith]:
  "h < n \<Longrightarrow> t < n \<Longrightarrow> (t + ring_used n h t) mod n = h"
  by (auto simp: ring_used_def)

lemma ring_slot_inj [ring_arith]:
  fixes i j t n :: nat
  assumes "i < n" "j < n" "t < n" "(t + i) mod n = (t + j) mod n"
  shows "i = j"
proof -
  have step: "(t + k) mod n = (if t + k < n then t + k else t + k - n)" if "k < n" for k
    using that assms(3) by (simp add: mod_if)
  show ?thesis
    using assms step[of i] step[of j] by (auto split: if_splits)
qed

section \<open>Ranges of words\<close>

lemma u8_less: "unat (x :: u8) < 256"
  using unsigned_less[of x] by simp

lemma u16_less: "unat (x :: u16) < 65536"
  using unsigned_less[of x] by simp

lemma u32_less: "unat (x :: u32) < 4294967296"
  using unsigned_less[of x] by simp

lemma unat_ucast_small:
  "unat (x :: 'a::len word) < 2 ^ LENGTH('b) \<Longrightarrow> unat (ucast x :: 'b::len word) = unat x"
  by (simp add: unsigned_ucast_eq take_bit_nat_eq_self)

lemma unat_of_nat_small: "n < 2 ^ LENGTH('a) \<Longrightarrow> unat (of_nat n :: 'a::len word) = n"
  by (simp add: unat_of_nat)

text \<open>Sizes computed in \<^verbatim>\<open>int\<close> from unsigned values.\<close>

lemma malloc_signed_uint:
  "malloc_signed (uint a - uint b) as = (if unat a < unat b then (False, as) else malloc as)"
  unfolding uint_nat malloc_signed_def by (simp del: of_nat_unat)

lemma malloc_signed_uint_2:
  "malloc_signed (uint a - 2) as = (if unat a < 2 then (False, as) else malloc as)"
  unfolding uint_nat malloc_signed_def by (simp del: of_nat_unat)

lemma nat_uint_diff: "nat (uint a - uint b) = unat a - unat b"
  unfolding uint_nat by (simp del: of_nat_unat)

lemmas uint_size_simps = malloc_signed_uint malloc_signed_uint_2 nat_uint_diff

section \<open>Words in memory\<close>

unbundle bit_operations_syntax

text \<open>Byte \<open>k\<close> of a word, counted from the least significant one.\<close>

definition byte_of :: "nat \<Rightarrow> 'a::len word \<Rightarrow> u8" where
  "byte_of k x = ucast (drop_bit (8 * k) x)"

text \<open>The value of two or four consecutive bytes on a little-endian host.\<close>

definition le16 :: "u8 \<Rightarrow> u8 \<Rightarrow> u16" where
  "le16 b0 b1 = ucast b0 OR push_bit 8 (ucast b1)"

definition le32 :: "u8 \<Rightarrow> u8 \<Rightarrow> u8 \<Rightarrow> u8 \<Rightarrow> u32" where
  "le32 b0 b1 b2 b3 =
     ucast b0 OR push_bit 8 (ucast b1) OR push_bit 16 (ucast b2) OR push_bit 24 (ucast b3)"

text \<open>\<^verbatim>\<open>ntohs\<close> and \<^verbatim>\<open>ntohl\<close> of a little-endian host reverse the bytes.\<close>

definition ntohs :: "u16 \<Rightarrow> u16" where
  "ntohs x = le16 (byte_of 1 x) (byte_of 0 x)"

definition ntohl :: "u32 \<Rightarrow> u32" where
  "ntohl x = le32 (byte_of 3 x) (byte_of 2 x) (byte_of 1 x) (byte_of 0 x)"

lemma bit_le16:
  "n < 16 \<Longrightarrow> bit (le16 b0 b1) n = (if n < 8 then bit b0 n else bit b1 (n - 8))"
  by (auto simp: le16_def bit_simps not_less dest: bit_imp_le_length)

lemma bit_le32:
  "n < 32 \<Longrightarrow> bit (le32 b0 b1 b2 b3) n =
    (if n < 8 then bit b0 n else if n < 16 then bit b1 (n - 8)
     else if n < 24 then bit b2 (n - 16) else bit b3 (n - 24))"
  by (auto simp: le32_def bit_simps not_less dest: bit_imp_le_length)

lemma byte_of_le16 [bytes_simps]:
  "byte_of 0 (le16 b0 b1) = b0"
  "byte_of 1 (le16 b0 b1) = b1"
  "byte_of (Suc 0) (le16 b0 b1) = b1"
  by (rule bit_word_eqI, simp add: byte_of_def bit_simps bit_le16)+

lemma byte_of_le32 [bytes_simps]:
  "byte_of 0 (le32 b0 b1 b2 b3) = b0"
  "byte_of 1 (le32 b0 b1 b2 b3) = b1"
  "byte_of (Suc 0) (le32 b0 b1 b2 b3) = b1"
  "byte_of 2 (le32 b0 b1 b2 b3) = b2"
  "byte_of 3 (le32 b0 b1 b2 b3) = b3"
  by (rule bit_word_eqI, simp add: byte_of_def bit_simps bit_le32)+

lemma le16_byte_of [bytes_simps]:
  "le16 (byte_of 0 x) (byte_of 1 x) = x"
  "le16 (byte_of 0 x) (byte_of (Suc 0) x) = x"
  by (rule bit_word_eqI, auto simp: byte_of_def bit_le16 bit_simps)+

lemma le32_byte_of [bytes_simps]:
  "le32 (byte_of 0 x) (byte_of 1 x) (byte_of 2 x) (byte_of 3 x) = x"
  "le32 (byte_of 0 x) (byte_of (Suc 0) x) (byte_of 2 x) (byte_of 3 x) = x"
  by (rule bit_word_eqI, auto simp: byte_of_def bit_le32 bit_simps)+

lemma le16_byte_of_u32 [bytes_simps]:
  "le16 (byte_of 0 (x :: u32)) (byte_of 1 x) = ucast x"
  "le16 (byte_of 0 (x :: u32)) (byte_of (Suc 0) x) = ucast x"
  by (rule bit_word_eqI, auto simp: byte_of_def bit_le16 bit_simps)+

lemma ntohs_le16 [bytes_simps]: "ntohs (le16 b0 b1) = le16 b1 b0"
  by (simp add: ntohs_def bytes_simps)

lemma ntohl_le32 [bytes_simps]: "ntohl (le32 b0 b1 b2 b3) = le32 b3 b2 b1 b0"
  by (simp add: ntohl_def bytes_simps)

lemma and_1_odd: "(x AND 1 = 1) = odd (unat (x :: u8))"
proof -
  have "odd (unat x) = odd x"
    using bit_unsigned_iff[where w = x and n = 0 and 'a = nat] by (simp add: bit_0)
  then show ?thesis by (simp add: and_one_eq mod_2_eq_odd)
qed

section \<open>Buffers that start with known bytes\<close>

lemma drop_ConsD:
  assumes "drop k xs = y # ys"
  shows "k < length xs" "xs ! k = y" "drop (Suc k) xs = ys"
proof -
  show k: "k < length xs"
    using assms by (metis drop_all leI list.distinct(1))
  show "xs ! k = y" "drop (Suc k) xs = ys"
    using assms Cons_nth_drop_Suc[OF k] by simp_all
qed

lemma read_byte_drop: "drop k xs = y # ys \<Longrightarrow> read_byte xs k = Inr y"
  using drop_ConsD[of k xs y ys] by (simp add: read_byte_def)

lemma read_range_drop:
  assumes "drop k xs = ys @ zs" and "k \<le> length xs" and "n = length ys"
  shows "read_range xs k n = Inr ys"
proof -
  have "length xs - k = length ys + length zs"
    using assms(1) by (metis length_append length_drop)
  with assms show ?thesis by (simp add: read_range_def)
qed

lemma read_range_middle:
  "length xs = k \<Longrightarrow> length ys = n \<Longrightarrow> read_range (xs @ ys @ zs) k n = Inr ys"
  by (auto simp: read_range_def)

end
