(* ===== verification/Wire.thy ===== *)
theory Wire
  imports Prelude
begin

text \<open>
  The UDP-notif wire format of \<^verbatim>\<open>src/unyte_udp_utils.c\<close>: the data structures of its header,
  the parsers for current and legacy headers, and the helpers on options and headers.

  Bit-fields are words of their width, so that an assignment to one is a truncation. The
  linked lists of options, which start with an empty head cell, are lists of the cells after
  the head; a \<^verbatim>\<open>NULL\<close> head is \<open>None\<close>. The segmentation fields of a header are left
  uninitialised by the code unless there is a segmentation option: they are options, with
  \<open>None\<close> for the contents \<^verbatim>\<open>malloc\<close> left there.
\<close>

section \<open>Constants\<close>

abbreviation HEADER_BYTES :: nat where "HEADER_BYTES \<equiv> 12"
abbreviation UDP_SIZE :: nat where "UDP_SIZE \<equiv> 65535"
abbreviation UNYTE_TYPE_SEGMENTATION :: u8 where "UNYTE_TYPE_SEGMENTATION \<equiv> 1"
abbreviation UNYTE_SEGMENTATION_OPTION_LEN :: nat where "UNYTE_SEGMENTATION_OPTION_LEN \<equiv> 4"
abbreviation SPACE_MASK :: u8 where "SPACE_MASK \<equiv> 16"
abbreviation ET_MASK :: u8 where "ET_MASK \<equiv> 15"

abbreviation UNYTE_MEDIATYPE_RESERVED :: int where "UNYTE_MEDIATYPE_RESERVED \<equiv> 0"
abbreviation UNYTE_MEDIATYPE_YANG_JSON :: int where "UNYTE_MEDIATYPE_YANG_JSON \<equiv> 1"
abbreviation UNYTE_MEDIATYPE_YANG_XML :: int where "UNYTE_MEDIATYPE_YANG_XML \<equiv> 2"
abbreviation UNYTE_MEDIATYPE_YANG_CBOR :: int where "UNYTE_MEDIATYPE_YANG_CBOR \<equiv> 3"

definition LEGACY_ET_TO_IANA :: "int list" where
  "LEGACY_ET_TO_IANA =
     [UNYTE_MEDIATYPE_RESERVED, UNYTE_MEDIATYPE_YANG_CBOR, UNYTE_MEDIATYPE_YANG_JSON,
      UNYTE_MEDIATYPE_YANG_XML]"

definition SUPPORTED_ET_LEN :: nat where
  "SUPPORTED_ET_LEN = length LEGACY_ET_TO_IANA"

section \<open>Data\<close>

record unyte_option =
  opt_type :: u8
  opt_length :: u8
  opt_data :: bytes

record unyte_header =
  version :: "3 word"
  space :: "1 word"
  media_type :: "4 word"
  header_length :: u8
  message_length :: u16
  observation_domain_id :: u32
  message_id :: u32
  f_type :: "u8 option"
  f_len :: "u8 option"
  f_num :: "31 word option"
  f_last :: "1 word option"
  options :: "unyte_option list option"

text \<open>The part of \<^verbatim>\<open>struct sockaddr_storage\<close> the library touches.\<close>

record sockaddr_storage =
  ss_family :: u16
  ss_port :: u16
  ss_addr :: bytes

record unyte_metadata =
  src :: "sockaddr_storage option"
  dest :: "sockaddr_storage option"

record unyte_seg_met =
  metadata :: unyte_metadata
  header :: unyte_header
  payload :: bytes

record unyte_min =
  um_observation_domain_id :: u32
  um_message_id :: u32
  um_buffer :: bytes
  um_src :: "sockaddr_storage option"
  um_dest :: "sockaddr_storage option"

record unyte_send_option =
  so_type :: u8
  so_data_length :: u8
  so_data :: bytes

record unyte_message =
  used_mtu :: u32
  msg_buffer :: bytes
  buffer_len :: u32
  msg_version :: "3 word"
  msg_space :: "1 word"
  msg_media_type :: "4 word"
  msg_observation_domain_id :: u32
  msg_message_id :: u32
  msg_options :: "unyte_send_option list"
  options_len :: u32

section \<open>Reading words\<close>

definition deserialize_uint32 :: "bytes \<Rightarrow> nat \<Rightarrow> fault + u32" where
  "deserialize_uint32 c p =
     bind_fault (read_range c p 4) (\<lambda>bs. Inr (le32 (bs ! 0) (bs ! 1) (bs ! 2) (bs ! 3)))"

definition deserialize_uint16 :: "bytes \<Rightarrow> nat \<Rightarrow> fault + u16" where
  "deserialize_uint16 c p =
     bind_fault (read_range c p 2) (\<lambda>bs. Inr (le16 (bs ! 0) (bs ! 1)))"

definition build_message_empty_options :: "allocs \<Rightarrow> unyte_option list option \<times> allocs" where
  "build_message_empty_options as =
     (let (ok, as1) = malloc as in (if ok then Some [] else None, as1))"

section \<open>Dispatching information\<close>

definition minimal_parse ::
  "bytes \<Rightarrow> sockaddr_storage option \<Rightarrow> sockaddr_storage option \<Rightarrow> allocs \<Rightarrow>
    fault + (unyte_min option \<times> allocs)" where
  "minimal_parse segment source dest_addr as =
     (let (ok, as1) = malloc as in
      if \<not> ok then Inr (None, as1)
      else
        bind_fault (deserialize_uint32 segment 4) (\<lambda>odid.
        bind_fault (deserialize_uint32 segment 8) (\<lambda>mid.
        Inr (Some \<lparr>um_observation_domain_id = ntohl odid, um_message_id = ntohl mid,
                   um_buffer = segment, um_src = source, um_dest = dest_addr\<rparr>, as1))))"

section \<open>Parsing\<close>

text \<open>The twelve fixed bytes. \<^verbatim>\<open>space\<close> is one bit wide: the mask's bit 4 is cut off.\<close>

definition parse_fixed_header :: "bytes \<Rightarrow> fault + unyte_header" where
  "parse_fixed_header segment =
     bind_fault (read_byte segment 0) (\<lambda>b0.
     bind_fault (read_byte segment 1) (\<lambda>b1.
     bind_fault (deserialize_uint16 segment 2) (\<lambda>len.
     bind_fault (deserialize_uint32 segment 4) (\<lambda>odid.
     bind_fault (deserialize_uint32 segment 8) (\<lambda>mid.
     Inr \<lparr>version = ucast (drop_bit 5 b0), space = ucast (b0 AND SPACE_MASK),
          media_type = ucast (b0 AND ET_MASK), header_length = b1,
          message_length = ntohs len, observation_domain_id = ntohl odid,
          message_id = ntohl mid, f_type = None, f_len = None, f_num = None, f_last = None,
          options = Some []\<rparr>)))))"

text \<open>
  The state of the option loop: the header, the custom options found so far, the value of
  \<^verbatim>\<open>options_length\<close>, and the allocations to come.
\<close>

record parse_state =
  ps_header :: unyte_header
  ps_options :: "unyte_option list"
  ps_length :: nat
  ps_allocs :: allocs

text \<open>
  One round of the loop. \<open>Inr (Inl as)\<close> is the early \<^verbatim>\<open>return NULL\<close>. A custom option of
  declared length below 2 asks for a negative number of bytes, which \<^verbatim>\<open>malloc\<close> refuses.
\<close>

definition parse_option :: "bytes \<Rightarrow> parse_state \<Rightarrow> fault + (allocs + parse_state)" where
  "parse_option segment s =
     (let off = HEADER_BYTES + ps_length s in
      bind_fault (read_byte segment off) (\<lambda>type.
      bind_fault (read_byte segment (off + 1)) (\<lambda>length.
      if type = UNYTE_TYPE_SEGMENTATION then
        bind_fault (read_byte segment (off + 3)) (\<lambda>last.
        bind_fault (deserialize_uint16 segment (off + 2)) (\<lambda>num.
        Inr (Inr (s\<lparr>
          ps_header := (ps_header s)\<lparr>
            f_type := Some type, f_len := Some length,
            f_last := Some (if last AND 1 = 1 then 1 else 0),
            f_num := Some (ucast (drop_bit 1 (ntohs num)))\<rparr>,
          ps_length := ps_length s + unat length\<rparr>))))
      else
        (let (ok1, as1) = malloc (ps_allocs s);
             (ok2, as2) = malloc_signed (uint length - 2) as1 in
         if \<not> ok1 \<or> \<not> ok2 then Inr (Inl as2)
         else
           bind_fault (read_range segment (off + 2) (unat length - 2)) (\<lambda>data.
           Inr (Inr (s\<lparr>
             ps_options := ps_options s @ [\<lparr>opt_type = type, opt_length = length, opt_data = data\<rparr>],
             ps_length := ps_length s + unat length, ps_allocs := as2\<rparr>)))))))"

text \<open>The loop adds the declared length of each option; it does not end on a length of 0.\<close>

partial_function (option) parse_options ::
  "bytes \<Rightarrow> parse_state \<Rightarrow> (fault + (allocs + parse_state)) option"
where
  "parse_options segment s =
     (if ps_length s + HEADER_BYTES < unat (header_length (ps_header s)) then
        (case parse_option segment s of
           Inl e \<Rightarrow> Some (Inl e)
         | Inr r \<Rightarrow> (case r of Inl as \<Rightarrow> Some (Inr (Inl as)) | Inr s' \<Rightarrow> parse_options segment s'))
      else Some (Inr (Inr s)))"

declare parse_options.simps [code]

text \<open>
  The end of both parsers: copy the payload and build the segment. A message length below the
  header length makes the size negative.
\<close>

definition finish_segment ::
  "bytes \<Rightarrow> unyte_min \<Rightarrow> unyte_header \<Rightarrow> allocs \<Rightarrow> fault + (unyte_seg_met option \<times> allocs)" where
  "finish_segment segment um h as =
     (let pSize = uint (message_length h) - uint (header_length h);
          (ok1, as1) = malloc_signed pSize as in
      if \<not> ok1 then Inr (None, as1)
      else
        bind_fault (read_range segment (unat (header_length h)) (nat pSize)) (\<lambda>payload.
        let (ok2, as2) = malloc as1 in
        if \<not> ok2 then Inr (None, as2)
        else Inr (Some \<lparr>metadata = \<lparr>src = um_src um, dest = um_dest um\<rparr>, header = h,
                        payload = payload\<rparr>, as2)))"

text \<open>The three allocations both parsers start with.\<close>

definition malloc3 :: "allocs \<Rightarrow> bool \<times> allocs" where
  "malloc3 as =
     (let (ok1, as1) = malloc as; (ok2, as2) = malloc as1; (ok3, as3) = malloc as2 in
      (ok1 \<and> ok2 \<and> ok3, as3))"

definition parse_with_metadata ::
  "bytes \<Rightarrow> unyte_min \<Rightarrow> allocs \<Rightarrow> (fault + (unyte_seg_met option \<times> allocs)) option" where
  "parse_with_metadata segment um as =
     (let (ok, as1) = malloc3 as in
      if \<not> ok then Some (Inr (None, as1))
      else
        (case parse_fixed_header segment of
           Inl e \<Rightarrow> Some (Inl e)
         | Inr h \<Rightarrow>
             (case parse_options segment
                     \<lparr>ps_header = h, ps_options = [], ps_length = 0, ps_allocs = as1\<rparr> of
                None \<Rightarrow> None
              | Some (Inl e) \<Rightarrow> Some (Inl e)
              | Some (Inr (Inl as2)) \<Rightarrow> Some (Inr (None, as2))
              | Some (Inr (Inr s)) \<Rightarrow>
                  Some (finish_segment segment um
                    ((ps_header s)\<lparr>options := Some (ps_options s)\<rparr>) (ps_allocs s)))))"

text \<open>The guard lets the index \<^verbatim>\<open>SUPPORTED_ET_LEN\<close> through.\<close>

definition get_encoding_IANA_ET_from_legacy :: "u8 \<Rightarrow> fault + int" where
  "get_encoding_IANA_ET_from_legacy legacy_ET =
     (if unat legacy_ET > SUPPORTED_ET_LEN then Inr UNYTE_MEDIATYPE_RESERVED
      else if unat legacy_ET < length LEGACY_ET_TO_IANA
        then Inr (LEGACY_ET_TO_IANA ! unat legacy_ET)
      else Inl Out_Of_Bounds)"

definition parse_with_metadata_legacy ::
  "bytes \<Rightarrow> unyte_min \<Rightarrow> allocs \<Rightarrow> fault + (unyte_seg_met option \<times> allocs)" where
  "parse_with_metadata_legacy segment um as =
     (let (ok, as1) = malloc3 as in
      if \<not> ok then Inr (None, as1)
      else
        bind_fault (read_byte segment 0) (\<lambda>b0.
        bind_fault (read_byte segment 1) (\<lambda>b1.
        bind_fault (get_encoding_IANA_ET_from_legacy (b1 AND ET_MASK)) (\<lambda>et.
        bind_fault (deserialize_uint16 segment 2) (\<lambda>len.
        bind_fault (deserialize_uint32 segment 4) (\<lambda>odid.
        bind_fault (deserialize_uint32 segment 8) (\<lambda>mid.
        finish_segment segment um
          \<lparr>version = ucast (drop_bit 4 b0), space = 0, media_type = word_of_int et,
           header_length = of_nat HEADER_BYTES, message_length = ntohs len,
           observation_domain_id = ntohl odid, message_id = ntohl mid, f_type = None,
           f_len = None, f_num = None, f_last = None, options = Some []\<rparr> as1)))))))"

section \<open>Copying\<close>

definition copy_unyte_seg_met_headers :: "unyte_header \<Rightarrow> unyte_header \<Rightarrow> unyte_header" where
  "copy_unyte_seg_met_headers d s =
     d\<lparr>media_type := media_type s, observation_domain_id := observation_domain_id s,
       header_length := header_length s, message_id := message_id s,
       message_length := message_length s, space := space s, version := version s\<rparr>"

text \<open>Copies the addresses; a \<^verbatim>\<open>NULL\<close> source is dereferenced.\<close>

definition copy_unyte_seg_met_metadata ::
  "unyte_metadata \<Rightarrow> unyte_metadata \<Rightarrow> fault + unyte_metadata" where
  "copy_unyte_seg_met_metadata d s =
     (case (src d, src s) of
        (Some _, Some a) \<Rightarrow>
          (case dest s of
             None \<Rightarrow> Inr (d\<lparr>src := Some a\<rparr>)
           | Some b \<Rightarrow>
               (case dest d of
                  None \<Rightarrow> Inl Null_Deref
                | Some _ \<Rightarrow> Inr (d\<lparr>src := Some a, dest := Some b\<rparr>)))
      | _ \<Rightarrow> Inl Null_Deref)"

section \<open>Options\<close>

definition opts_bytes :: "unyte_option list \<Rightarrow> u32" where
  "opts_bytes os = sum_list (map (\<lambda>o'. ucast (opt_length o')) os)"

definition options_total_bytes :: "unyte_option list option \<Rightarrow> fault + u32" where
  "options_total_bytes opts = (case opts of None \<Rightarrow> Inl Null_Deref | Some os \<Rightarrow> Inr (opts_bytes os))"

text \<open>\<^verbatim>\<open>header_length > HEADER_BYTES + options_length\<close>, in unsigned arithmetic.\<close>

definition is_segmented :: "unyte_header \<Rightarrow> u32 \<Rightarrow> bool" where
  "is_segmented h options_length \<longleftrightarrow> ucast (header_length h) > of_nat HEADER_BYTES + options_length"

section \<open>Reasoning about the option loop\<close>

definition in_options :: "parse_state \<Rightarrow> bool" where
  "in_options s \<longleftrightarrow> ps_length s + HEADER_BYTES < unat (header_length (ps_header s))"

text \<open>A rule for whatever the loop returns: the invariant \<open>P\<close> is kept round by round.\<close>

lemma parse_options_rule:
  assumes ret: "parse_options segment s = Some r" and init: "P s"
    and step: "\<And>s s'. P s \<Longrightarrow> in_options s \<Longrightarrow> parse_option segment s = Inr (Inr s') \<Longrightarrow> P s'"
  shows "case r of
      Inl e \<Rightarrow> \<exists>t. P t \<and> in_options t \<and> parse_option segment t = Inl e
    | Inr (Inl as) \<Rightarrow> \<exists>t. P t \<and> in_options t \<and> parse_option segment t = Inr (Inl as)
    | Inr (Inr t) \<Rightarrow> P t \<and> \<not> in_options t"
proof -
  have "seg = segment \<longrightarrow> P s \<longrightarrow> (case r of
      Inl e \<Rightarrow> \<exists>t. P t \<and> in_options t \<and> parse_option segment t = Inl e
    | Inr (Inl as) \<Rightarrow> \<exists>t. P t \<and> in_options t \<and> parse_option segment t = Inr (Inl as)
    | Inr (Inr t) \<Rightarrow> P t \<and> \<not> in_options t)" if "parse_options seg s = Some r" for seg s
  proof (rule parse_options.raw_induct[OF _ that], intro impI)
    fix f seg s r
    assume IH: "\<And>seg s r. f seg s = Some r \<Longrightarrow> seg = segment \<longrightarrow> P s \<longrightarrow> (case r of
        Inl e \<Rightarrow> \<exists>t. P t \<and> in_options t \<and> parse_option segment t = Inl e
      | Inr (Inl as) \<Rightarrow> \<exists>t. P t \<and> in_options t \<and> parse_option segment t = Inr (Inl as)
      | Inr (Inr t) \<Rightarrow> P t \<and> \<not> in_options t)"
      and eq: "(if ps_length s + HEADER_BYTES < unat (header_length (ps_header s))
         then case parse_option seg s of Inl e \<Rightarrow> Some (Inl e)
              | Inr (Inl as) \<Rightarrow> Some (Inr (Inl as)) | Inr (Inr x) \<Rightarrow> f seg x
         else Some (Inr (Inr s))) = Some r"
      and seg: "seg = segment" and P: "P s"
    show "case r of
        Inl e \<Rightarrow> \<exists>t. P t \<and> in_options t \<and> parse_option segment t = Inl e
      | Inr (Inl as) \<Rightarrow> \<exists>t. P t \<and> in_options t \<and> parse_option segment t = Inr (Inl as)
      | Inr (Inr t) \<Rightarrow> P t \<and> \<not> in_options t"
    proof (cases "in_options s")
      case False
      with eq P show ?thesis by (auto simp: in_options_def)
    next
      case True
      then have eq': "(case parse_option seg s of Inl e \<Rightarrow> Some (Inl e)
          | Inr (Inl as) \<Rightarrow> Some (Inr (Inl as)) | Inr (Inr x) \<Rightarrow> f seg x) = Some r"
        using eq by (simp add: in_options_def)
      show ?thesis
        using eq' seg P True IH[of seg _ r] step[OF P True]
        by (auto split: sum.splits)
    qed
  qed
  with ret init show ?thesis by blast
qed

text \<open>A rule for returning: every round that goes on makes progress.\<close>

lemma parse_options_returns:
  assumes "P s"
    and step: "\<And>s s'. P s \<Longrightarrow> in_options s \<Longrightarrow> parse_option segment s = Inr (Inr s') \<Longrightarrow>
      P s' \<and> ps_length s < ps_length s' \<and>
      header_length (ps_header s') = header_length (ps_header s)"
  shows "\<exists>r. parse_options segment s = Some r"
  using assms(1)
proof (induction "unat (header_length (ps_header s)) - ps_length s" arbitrary: s
    rule: less_induct)
  case less
  show ?case
  proof (cases "in_options s")
    case False
    then show ?thesis by (simp add: parse_options.simps in_options_def)
  next
    case True
    show ?thesis
    proof (cases "\<exists>s'. parse_option segment s = Inr (Inr s')")
      case True
      then obtain s' where s': "parse_option segment s = Inr (Inr s')" by blast
      from step[OF less.prems \<open>in_options s\<close> s'] less.hyps[of s'] \<open>in_options s\<close>
      have "\<exists>r. parse_options segment s' = Some r"
        by (auto simp: in_options_def)
      with s' \<open>in_options s\<close> show ?thesis
        by (simp add: parse_options.simps[of segment s] in_options_def)
    next
      case False
      then show ?thesis
        by (auto simp: parse_options.simps[of segment s] split: sum.splits)
    qed
  qed
qed

section \<open>One round of the loop\<close>

text \<open>Where a round goes on, and what it does to the state.\<close>

lemma parse_option_next:
  assumes "parse_option segment s = Inr (Inr s')"
  obtains (segmentation) b n where
      "segment ! (HEADER_BYTES + ps_length s) = UNYTE_TYPE_SEGMENTATION"
      "ps_header s' = (ps_header s)\<lparr>f_type := Some UNYTE_TYPE_SEGMENTATION,
         f_len := Some (segment ! (HEADER_BYTES + ps_length s + 1)),
         f_last := Some b, f_num := Some n\<rparr>"
      "ps_options s' = ps_options s"
      "ps_length s' = ps_length s + unat (segment ! (HEADER_BYTES + ps_length s + 1))"
    | (custom) d where
      "segment ! (HEADER_BYTES + ps_length s) \<noteq> UNYTE_TYPE_SEGMENTATION"
      "2 \<le> unat (segment ! (HEADER_BYTES + ps_length s + 1))"
      "ps_header s' = ps_header s"
      "ps_options s' = ps_options s @ [\<lparr>opt_type = segment ! (HEADER_BYTES + ps_length s),
         opt_length = segment ! (HEADER_BYTES + ps_length s + 1), opt_data = d\<rparr>]"
      "ps_length s' = ps_length s + unat (segment ! (HEADER_BYTES + ps_length s + 1))"
      "length d = unat (segment ! (HEADER_BYTES + ps_length s + 1)) - 2"
proof (cases "segment ! (HEADER_BYTES + ps_length s) = UNYTE_TYPE_SEGMENTATION")
  case True
  from assms True obtain b n where "s' = s\<lparr>
      ps_header := (ps_header s)\<lparr>f_type := Some UNYTE_TYPE_SEGMENTATION,
        f_len := Some (segment ! (HEADER_BYTES + ps_length s + 1)),
        f_last := Some b, f_num := Some n\<rparr>,
      ps_length := ps_length s + unat (segment ! (HEADER_BYTES + ps_length s + 1))\<rparr>"
    by (auto simp: parse_option_def Let_def bind_fault_eq_Inr read_byte_def split: if_splits)
  with True show thesis
    by (intro segmentation[of n b]) simp_all
next
  case False
  let ?l = "segment ! (HEADER_BYTES + ps_length s + 1)"
  have "2 \<le> unat ?l"
  proof (rule ccontr)
    assume "\<not> 2 \<le> unat ?l"
    with assms False show False
      by (auto simp: parse_option_def Let_def bind_fault_eq_Inr read_byte_def uint_size_simps
          split: if_splits prod.splits)
  qed
  moreover from assms False obtain as d where "s' = s\<lparr>
      ps_options := ps_options s @ [\<lparr>opt_type = segment ! (HEADER_BYTES + ps_length s),
        opt_length = ?l, opt_data = d\<rparr>],
      ps_length := ps_length s + unat ?l, ps_allocs := as\<rparr>" "length d = unat ?l - 2"
    by (auto simp: parse_option_def Let_def bind_fault_eq_Inr read_byte_def dest: length_read_range
        split: if_splits prod.splits)
  ultimately show thesis
    using False by (intro custom[of d]) simp_all
qed

lemma parse_option_header_length:
  "parse_option segment s = Inr (Inr s') \<Longrightarrow>
    header_length (ps_header s') = header_length (ps_header s) \<and>
    message_length (ps_header s') = message_length (ps_header s)"
  by (erule parse_option_next) simp_all

text \<open>The reads of one round stay within 512 bytes, whatever the packet contains.\<close>

lemma parse_option_safe:
  assumes "in_options s" and "512 \<le> length segment"
  shows "parse_option segment s \<noteq> Inl e"
proof -
  have off: "HEADER_BYTES + ps_length s < 255"
    using assms(1) u8_less[of "header_length (ps_header s)"] by (simp add: in_options_def)
  have "HEADER_BYTES + ps_length s + 2 + (unat x - 2) \<le> length segment" for x :: u8
    using off assms(2) u8_less[of x] by linarith
  with off assms(2) show ?thesis
    by (auto simp: parse_option_def Let_def bind_fault_eq_Inl deserialize_uint16_def
        split: prod.splits if_splits)
qed

section \<open>The parsers on a receive buffer\<close>

lemma deserialize_in [simp]:
  "p + 2 \<le> length c \<Longrightarrow> deserialize_uint16 c p = Inr (le16 (c ! p) (c ! (p + 1)))"
  "p + 4 \<le> length c \<Longrightarrow>
    deserialize_uint32 c p = Inr (le32 (c ! p) (c ! (p + 1)) (c ! (p + 2)) (c ! (p + 3)))"
  by (simp_all add: deserialize_uint16_def deserialize_uint32_def)

text \<open>The fixed header, field by field.\<close>

lemma parse_fixed_header_in:
  assumes "HEADER_BYTES \<le> length segment"
  shows "parse_fixed_header segment =
    Inr \<lparr>version = ucast (drop_bit 5 (segment ! 0)), space = ucast (segment ! 0 AND SPACE_MASK),
         media_type = ucast (segment ! 0 AND ET_MASK), header_length = segment ! 1,
         message_length = le16 (segment ! 3) (segment ! 2),
         observation_domain_id = le32 (segment ! 7) (segment ! 6) (segment ! 5) (segment ! 4),
         message_id = le32 (segment ! 11) (segment ! 10) (segment ! 9) (segment ! 8),
         f_type = None, f_len = None, f_num = None, f_last = None, options = Some []\<rparr>"
proof -
  have "0 < length segment" "1 < length segment" "2 + 2 \<le> length segment"
    "4 + 4 \<le> length segment" "8 + 4 \<le> length segment"
    using assms by linarith+
  then show ?thesis
    unfolding parse_fixed_header_def by (simp add: bytes_simps numeral_eq_Suc)
qed

lemma finish_segment_safe:
  assumes "UDP_SIZE \<le> length segment"
  shows "finish_segment segment um h as \<noteq> Inl e"
proof -
  have "unat (header_length h) + (unat (message_length h) - unat (header_length h)) \<le> length segment"
    using u8_less[of "header_length h"] u16_less[of "message_length h"] assms by linarith
  then show ?thesis
    by (auto simp: finish_segment_def Let_def case_prod_beta uint_size_simps bind_fault_eq_Inl
        split: if_splits)
qed

lemma finish_segment_Some:
  assumes "finish_segment segment um h as = Inr (Some seg, as')"
  shows "header seg = h \<and> metadata seg = \<lparr>src = um_src um, dest = um_dest um\<rparr> \<and>
    unat (header_length h) \<le> unat (message_length h) \<and>
    payload seg = take (unat (message_length h) - unat (header_length h))
      (drop (unat (header_length h)) segment) \<and>
    length (payload seg) = unat (message_length h) - unat (header_length h)"
  using assms
  by (auto simp: finish_segment_def Let_def case_prod_beta uint_size_simps bind_fault_eq_Inr
      read_range_def split: if_splits)

text \<open>A parsed segment comes from a run of the option loop to its end.\<close>

lemma parse_with_metadata_Some:
  assumes "parse_with_metadata segment um as = Some (Inr (Some seg, as'))"
  obtains h s where "parse_fixed_header segment = Inr h"
    "parse_options segment \<lparr>ps_header = h, ps_options = [], ps_length = 0,
       ps_allocs = snd (malloc3 as)\<rparr> = Some (Inr (Inr s))"
    "finish_segment segment um ((ps_header s)\<lparr>options := Some (ps_options s)\<rparr>) (ps_allocs s)
      = Inr (Some seg, as')"
  using assms
  by (auto simp: parse_with_metadata_def split: prod.splits if_splits sum.splits option.splits)

lemma parse_with_metadata_no_fault:
  assumes "UDP_SIZE \<le> length segment"
  shows "parse_with_metadata segment um as \<noteq> Some (Inl e)"
proof
  assume bad: "parse_with_metadata segment um as = Some (Inl e)"
  have hdr: "parse_fixed_header segment \<noteq> Inl e" for e
    using assms by (simp add: parse_fixed_header_in)
  from bad hdr finish_segment_safe[OF assms]
  obtain s where "parse_options segment s = Some (Inl e)"
    by (auto simp: parse_with_metadata_def
        split: prod.splits if_splits sum.splits option.splits)
  from parse_options_rule[OF this, of "\<lambda>_. True"]
  show False using parse_option_safe[of _ segment e] assms by auto
qed

lemma parse_with_metadata_loop_returns:
  assumes "\<And>s. header_length (ps_header s) = segment ! 1 \<Longrightarrow> \<exists>r. parse_options segment s = Some r"
    and "HEADER_BYTES \<le> length segment"
  shows "\<exists>r. parse_with_metadata segment um as = Some r"
proof (cases "fst (malloc3 as)")
  case False
  then show ?thesis by (simp add: parse_with_metadata_def case_prod_beta Let_def)
next
  case True
  obtain h where h: "parse_fixed_header segment = Inr h" "header_length h = segment ! 1"
    using assms(2) by (simp add: parse_fixed_header_in)
  obtain r where "parse_options segment
      \<lparr>ps_header = h, ps_options = [], ps_length = 0, ps_allocs = snd (malloc3 as)\<rparr> = Some r"
    using assms(1)[of "\<lparr>ps_header = h, ps_options = [], ps_length = 0, ps_allocs = snd (malloc3 as)\<rparr>"]
      h(2) by auto
  with True h(1) show ?thesis
    by (simp add: parse_with_metadata_def case_prod_beta Let_def split: sum.splits)
qed

text \<open>
  C8. Memory safety of the parser: on a receive buffer of 65535 bytes no read of
  \<^verbatim>\<open>parse_with_metadata\<close> leaves the buffer, for every content of the buffer and every
  outcome of the allocations.
\<close>

theorem parse_with_metadata_in_bounds:
  assumes "length segment = UDP_SIZE"
  shows "parse_with_metadata segment um as \<noteq> Some (Inl e)"
  using parse_with_metadata_no_fault assms by simp

theorem parse_with_metadata_in_bounds_witness:
  "length (replicate 65535 (255 :: u8)) = UDP_SIZE \<and>
   parse_with_metadata (replicate 65535 255)
     \<lparr>um_observation_domain_id = 0, um_message_id = 0, um_buffer = [], um_src = None,
      um_dest = None\<rparr> [] \<noteq> Some (Inl Out_Of_Bounds)"
  using parse_with_metadata_in_bounds[of "replicate 65535 255"] by simp

text \<open>
  The offsets at which the loop looks for an option, for a run in which no allocation fails:
  the first one, and after an option of usable length the offset that length leads to.
\<close>

inductive option_at :: "bytes \<Rightarrow> nat \<Rightarrow> bool" for segment :: bytes where
  first: "HEADER_BYTES < unat (segment ! 1) \<Longrightarrow> option_at segment HEADER_BYTES"
| step: "option_at segment i \<Longrightarrow>
    segment ! i = UNYTE_TYPE_SEGMENTATION \<or> 2 \<le> unat (segment ! (i + 1)) \<Longrightarrow>
    i + unat (segment ! (i + 1)) < unat (segment ! 1) \<Longrightarrow>
    option_at segment (i + unat (segment ! (i + 1)))"

lemma option_at_range:
  "option_at segment i \<Longrightarrow> HEADER_BYTES \<le> i \<and> i < unat (segment ! 1) \<and> i < 255"
  by (induction rule: option_at.induct) (use u8_less[of "segment ! 1"] in auto)

definition at_offset :: "bytes \<Rightarrow> nat \<Rightarrow> parse_state \<Rightarrow> bool" where
  "at_offset segment i s \<longleftrightarrow>
     HEADER_BYTES + ps_length s = i \<and> header_length (ps_header s) = segment ! 1"

text \<open>Without allocation failures the loop reaches every offset of \<open>option_at\<close>.\<close>

lemma option_at_reached:
  assumes "option_at segment i" and "512 \<le> length segment"
    and "at_offset segment HEADER_BYTES s0" and "ps_allocs s0 = []"
  shows "\<exists>s. at_offset segment i s \<and> ps_allocs s = [] \<and>
    parse_options segment s0 = parse_options segment s"
  using assms(1)
proof (induction rule: option_at.induct)
  case first
  with assms(3,4) show ?case by blast
next
  case (step i)
  then obtain s where s: "at_offset segment i s" "ps_allocs s = []"
    "parse_options segment s0 = parse_options segment s" by blast
  have i: "HEADER_BYTES + ps_length s = i" and ins: "in_options s"
    using s(1) option_at_range[OF step(1)] by (auto simp: at_offset_def in_options_def)
  obtain s' where s': "parse_option segment s = Inr (Inr s')" "ps_allocs s' = []"
  proof (cases "parse_option segment s")
    case (Inl e)
    then show thesis using parse_option_safe[OF ins assms(2)] by blast
  next
    case (Inr r)
    have "i + 3 < length segment" "i + 2 + (unat (segment ! (i + 1)) - 2) \<le> length segment"
      using option_at_range[OF step(1)] u8_less[of "segment ! (i + 1)"] assms(2) by linarith+
    with Inr step(2) s(2) that show thesis
      unfolding parse_option_def Let_def i
      by (auto simp: uint_size_simps split: if_splits)
  qed
  have "at_offset segment (i + unat (segment ! (i + 1))) s'"
    using s'(1) s(1) by (cases rule: parse_option_next) (auto simp: at_offset_def i)
  moreover have "parse_options segment s = parse_options segment s'"
    using ins s'(1) by (simp add: parse_options.simps[of segment s] in_options_def)
  ultimately show ?case using s s'(2) by auto
qed

text \<open>At a segmentation option of length 0 the loop goes round for ever.\<close>

lemma parse_options_stuck:
  assumes s: "at_offset segment i s" and i: "i < unat (segment ! 1)" and len: "512 \<le> length segment"
    and zero: "segment ! i = UNYTE_TYPE_SEGMENTATION" "segment ! (i + 1) = 0"
  shows "parse_options segment s = None"
proof (rule ccontr)
  assume "parse_options segment s \<noteq> None"
  then obtain r where r: "parse_options segment s = Some r" by blast
  have ins: "in_options t" if "at_offset segment i t" for t
    using that i by (auto simp: at_offset_def in_options_def)
  have not_null: "parse_option segment t \<noteq> Inr (Inl as)" if "at_offset segment i t" for t as
    using that zero(1) by (auto simp: at_offset_def parse_option_def Let_def bind_fault_eq_Inr
        read_byte_def split: if_splits)
  have "at_offset segment i t'"
    if "at_offset segment i t" "parse_option segment t = Inr (Inr t')" for t t'
    using that(2,1) zero by (cases rule: parse_option_next) (auto simp: at_offset_def)
  with parse_options_rule[OF r, of "at_offset segment i"] s
  show False
    using ins not_null parse_option_safe[OF ins len] by (auto split: sum.splits)
qed

text \<open>Where no such option is met, every round makes progress and the loop ends.\<close>

lemma parse_options_no_zero_returns:
  assumes none: "\<And>i. option_at segment i \<Longrightarrow>
      \<not> (segment ! i = UNYTE_TYPE_SEGMENTATION \<and> segment ! (i + 1) = 0)"
    and init: "at_offset segment HEADER_BYTES s0"
  shows "\<exists>r. parse_options segment s0 = Some r"
proof (rule parse_options_returns)
  let ?P = "\<lambda>s. header_length (ps_header s) = segment ! 1 \<and>
    (in_options s \<longrightarrow> option_at segment (HEADER_BYTES + ps_length s))"
  show "?P s0" using init by (auto simp: at_offset_def in_options_def intro: option_at.first)
  fix s s' assume P: "?P s" and ins: "in_options s"
    and nxt: "parse_option segment s = Inr (Inr s')"
  let ?i = "HEADER_BYTES + ps_length s"
  have at: "option_at segment ?i" using P ins by blast
  have fields: "ps_length s' = ps_length s + unat (segment ! (?i + 1))"
    "segment ! ?i = UNYTE_TYPE_SEGMENTATION \<or> 2 \<le> unat (segment ! (?i + 1))"
    using nxt by (cases rule: parse_option_next; simp)+
  have "option_at segment (HEADER_BYTES + ps_length s')" if "in_options s'"
    using option_at.step[OF at fields(2)] that fields(1) P parse_option_header_length[OF nxt]
    by (simp add: in_options_def add.assoc)
  moreover have "ps_length s < ps_length s'"
    using none[OF at] fields by (auto simp: unat_gt_0)
  ultimately show "?P s' \<and> ps_length s < ps_length s' \<and>
      header_length (ps_header s') = header_length (ps_header s)"
    using P parse_option_header_length[OF nxt] by simp
qed

text \<open>
  C9. Exactly which packets make the parser loop for ever: those in which the walk over the
  options meets a segmentation option whose declared length is 0. On every other packet it
  returns, whatever the allocations do.
\<close>

theorem parse_with_metadata_hangs_iff:
  assumes "length segment = UDP_SIZE"
  shows "(\<exists>as. parse_with_metadata segment um as = None) \<longleftrightarrow>
    (\<exists>i. option_at segment i \<and> segment ! i = UNYTE_TYPE_SEGMENTATION \<and> segment ! (i + 1) = 0)"
proof
  assume "\<exists>i. option_at segment i \<and> segment ! i = UNYTE_TYPE_SEGMENTATION \<and> segment ! (i + 1) = 0"
  then obtain i where i: "option_at segment i" "segment ! i = UNYTE_TYPE_SEGMENTATION"
    "segment ! (i + 1) = 0" by blast
  obtain h where h: "parse_fixed_header segment = Inr h" "header_length h = segment ! 1"
    using assms by (simp add: parse_fixed_header_in)
  let ?s0 = "\<lparr>ps_header = h, ps_options = [], ps_length = 0, ps_allocs = []\<rparr>"
  have "512 \<le> length segment" "at_offset segment HEADER_BYTES ?s0" "ps_allocs ?s0 = []"
    using h(2) assms by (simp_all add: at_offset_def)
  from option_at_reached[OF i(1) this] obtain s where "at_offset segment i s"
    "parse_options segment ?s0 = parse_options segment s" by auto
  with parse_options_stuck[of segment i s] option_at_range[OF i(1)] i assms
  have "parse_options segment ?s0 = None" by simp
  with h(1) have "parse_with_metadata segment um [] = None"
    by (simp add: parse_with_metadata_def malloc3_def)
  then show "\<exists>as. parse_with_metadata segment um as = None" by blast
next
  assume "\<exists>as. parse_with_metadata segment um as = None"
  then obtain as where as: "parse_with_metadata segment um as = None" by blast
  obtain h where h: "parse_fixed_header segment = Inr h" "header_length h = segment ! 1"
    using assms by (simp add: parse_fixed_header_in)
  let ?s0 = "\<lparr>ps_header = h, ps_options = [], ps_length = 0, ps_allocs = snd (malloc3 as)\<rparr>"
  have "parse_options segment ?s0 = None"
    using as h(1)
    by (auto simp: parse_with_metadata_def split: prod.splits if_splits sum.splits option.splits)
  moreover have "at_offset segment HEADER_BYTES ?s0" using h(2) by (simp add: at_offset_def)
  ultimately show "\<exists>i. option_at segment i \<and> segment ! i = UNYTE_TYPE_SEGMENTATION \<and>
      segment ! (i + 1) = 0"
    using parse_options_no_zero_returns[of segment ?s0] by fastforce
qed

text \<open>The attack packet: a header of 16 bytes whose only option is a segmentation option of length 0.\<close>

definition hanging_packet :: bytes where
  "hanging_packet = [32, 16, 0, 20, 0, 0, 0, 7, 0, 0, 0, 9, 1, 0, 0, 1] @ replicate 65519 0"

theorem parse_with_metadata_hangs_iff_witness:
  "length hanging_packet = UDP_SIZE \<and>
   (\<exists>as. parse_with_metadata hanging_packet
      \<lparr>um_observation_domain_id = 7, um_message_id = 9, um_buffer = [], um_src = None,
       um_dest = None\<rparr> as = None)"
proof -
  have len: "length hanging_packet = UDP_SIZE" by (simp add: hanging_packet_def)
  have "option_at hanging_packet HEADER_BYTES"
    by (rule option_at.first) (simp add: hanging_packet_def)
  moreover have "hanging_packet ! HEADER_BYTES = UNYTE_TYPE_SEGMENTATION"
    "hanging_packet ! (HEADER_BYTES + 1) = 0"
    by (simp_all add: hanging_packet_def)
  ultimately show ?thesis
    using parse_with_metadata_hangs_iff[OF len] len by blast
qed

definition segmentation_set :: "unyte_header \<Rightarrow> bool" where
  "segmentation_set h \<longleftrightarrow> f_type h = Some UNYTE_TYPE_SEGMENTATION \<and> f_num h \<noteq> None \<and>
     f_last h \<noteq> None \<and> f_len h \<noteq> None"

text \<open>The declared lengths of a list of options, as a natural number.\<close>

definition opts_size :: "unyte_option list \<Rightarrow> nat" where
  "opts_size os = sum_list (map (\<lambda>o'. unat (opt_length o')) os)"

lemma opts_size_simps [simp]:
  "opts_size [] = 0" "opts_size (o' # os) = unat (opt_length o') + opts_size os"
  "opts_size (os @ ps) = opts_size os + opts_size ps"
  by (simp_all add: opts_size_def)

lemma opts_bytes_simps [simp]:
  "opts_bytes [] = 0" "opts_bytes (o' # os) = ucast (opt_length o') + opts_bytes os"
  by (simp_all add: opts_bytes_def)

lemma unat_u8_u32: "unat (ucast (x :: u8) :: u32) = unat x"
  using u8_less[of x] by (simp add: unat_ucast_small)

lemma unat_opts_bytes: "opts_size os < 4294967296 \<Longrightarrow> unat (opts_bytes os) = opts_size os"
  by (induction os) (auto simp: unat_word_ariths unat_u8_u32)

text \<open>
  An invariant of the loop: as long as there was no segmentation option, the custom
  options account for all the bytes passed.
\<close>

definition accounted :: "parse_state \<Rightarrow> bool" where
  "accounted s \<longleftrightarrow> ps_length s < 512 \<and>
     (segmentation_set (ps_header s) \<or> ps_length s = opts_size (ps_options s))"

lemma accounted_step:
  assumes "accounted s" "in_options s" "parse_option segment s = Inr (Inr s')"
  shows "accounted s'"
proof -
  have "ps_length s < 256"
    using assms(2) u8_less[of "header_length (ps_header s)"] by (simp add: in_options_def)
  with assms(1) u8_less[of "segment ! (HEADER_BYTES + ps_length s + 1)"] show ?thesis
    by (cases rule: parse_option_next[OF assms(3)]) (auto simp: accounted_def segmentation_set_def)
qed

lemma accounted_exit:
  assumes "accounted s" "\<not> in_options s" "is_segmented (ps_header s) (opts_bytes (ps_options s))"
  shows "segmentation_set (ps_header s)"
proof (rule ccontr)
  assume "\<not> segmentation_set (ps_header s)"
  with assms(1) have "opts_size (ps_options s) = ps_length s" "ps_length s < 512"
    by (auto simp: accounted_def)
  then have "unat (12 + opts_bytes (ps_options s) :: u32) = 12 + ps_length s"
    by (simp add: unat_word_ariths unat_opts_bytes)
  with assms(2,3) show False
    by (simp add: is_segmented_def in_options_def word_less_nat_alt unat_u8_u32)
qed

lemma segmented_fields_set:
  assumes "parse_with_metadata segment um as = Some (Inr (Some seg, as'))"
    and "options_total_bytes (options (header seg)) = Inr n" and "is_segmented (header seg) n"
  shows "f_type (header seg) = Some UNYTE_TYPE_SEGMENTATION \<and> f_num (header seg) \<noteq> None \<and>
    f_last (header seg) \<noteq> None \<and> f_len (header seg) \<noteq> None"
proof -
  obtain h s where hs: "parse_options segment \<lparr>ps_header = h, ps_options = [], ps_length = 0,
       ps_allocs = snd (malloc3 as)\<rparr> = Some (Inr (Inr s))"
    "finish_segment segment um ((ps_header s)\<lparr>options := Some (ps_options s)\<rparr>) (ps_allocs s)
      = Inr (Some seg, as')"
    using parse_with_metadata_Some[OF assms(1)] by metis
  have seg: "header seg = (ps_header s)\<lparr>options := Some (ps_options s)\<rparr>"
    using finish_segment_Some[OF hs(2)] by blast
  have "accounted s \<and> \<not> in_options s"
    using parse_options_rule[OF hs(1), of accounted, OF _ accounted_step]
    by (simp add: accounted_def)
  with assms(2,3) seg have "segmentation_set (ps_header s)"
    by (intro accounted_exit) (auto simp: options_total_bytes_def is_segmented_def)
  with seg show ?thesis by (simp add: segmentation_set_def)
qed

text \<open>An option as the parser makes it: its length counts its two leading bytes, and the data is there.\<close>

definition option_read :: "unyte_option \<Rightarrow> bool" where
  "option_read o' \<longleftrightarrow> 2 \<le> unat (opt_length o') \<and> length (opt_data o') = unat (opt_length o') - 2"

lemma parsed_options_read:
  assumes "parse_with_metadata segment um as = Some (Inr (Some seg, as'))"
  obtains os where "options (header seg) = Some os" "list_all option_read os"
proof -
  obtain h s where hs: "parse_options segment \<lparr>ps_header = h, ps_options = [], ps_length = 0,
       ps_allocs = snd (malloc3 as)\<rparr> = Some (Inr (Inr s))"
    "finish_segment segment um ((ps_header s)\<lparr>options := Some (ps_options s)\<rparr>) (ps_allocs s)
      = Inr (Some seg, as')"
    using parse_with_metadata_Some[OF assms(1)] by metis
  have step: "list_all option_read (ps_options s')"
    if "list_all option_read (ps_options s)" "parse_option segment s = Inr (Inr s')" for s s'
    using that(1) by (cases rule: parse_option_next[OF that(2)]) (simp_all add: option_read_def)
  have "list_all option_read (ps_options s)"
    using parse_options_rule[OF hs(1), of "\<lambda>s. list_all option_read (ps_options s)"] step by simp
  with finish_segment_Some[OF hs(2)] show thesis by (intro that) simp_all
qed

text \<open>A packet with a segmentation option (number 1, not last) and a custom option of type 3.\<close>

definition sample_packet :: bytes where
  "sample_packet = [49, 20, 0, 22, 0, 0, 0, 7, 0, 0, 0, 9, 1, 4, 0, 2, 3, 4, 65, 66, 104, 105]"

definition sample_min :: unyte_min where
  "sample_min = \<lparr>um_observation_domain_id = 7, um_message_id = 9, um_buffer = sample_packet,
     um_src = Some \<lparr>ss_family = 2, ss_port = 10001, ss_addr = [10, 0, 0, 1]\<rparr>, um_dest = None\<rparr>"

definition sample_segment :: unyte_seg_met where
  "sample_segment =
     \<lparr>metadata = \<lparr>src = um_src sample_min, dest = None\<rparr>,
      header = \<lparr>version = 1, space = 0, media_type = 1, header_length = 20, message_length = 22,
        observation_domain_id = 7, message_id = 9, f_type = Some 1, f_len = Some 4,
        f_num = Some 1, f_last = Some 0,
        options = Some [\<lparr>opt_type = 3, opt_length = 4, opt_data = [65, 66]\<rparr>]\<rparr>,
      payload = [104, 105]\<rparr>"

lemma parse_sample:
  "parse_with_metadata sample_packet sample_min [] = Some (Inr (Some sample_segment, []))"
  by code_simp

section \<open>What the parsed fields are\<close>

text \<open>The getters of the API that compute something; the others select a field.\<close>

definition unyte_udp_get_payload_length :: "unyte_seg_met \<Rightarrow> u16" where
  "unyte_udp_get_payload_length msg = message_length (header msg) - ucast (header_length (header msg))"

text \<open>The loop only touches the segmentation fields of the header.\<close>

definition same_fixed :: "unyte_header \<Rightarrow> unyte_header \<Rightarrow> bool" where
  "same_fixed h h' \<longleftrightarrow> version h' = version h \<and> space h' = space h \<and>
     media_type h' = media_type h \<and> header_length h' = header_length h \<and>
     message_length h' = message_length h \<and>
     observation_domain_id h' = observation_domain_id h \<and> message_id h' = message_id h"

lemma same_fixed_refl [simp]: "same_fixed h h"
  by (simp add: same_fixed_def)

lemma same_fixed_step:
  "same_fixed h (ps_header s) \<Longrightarrow> in_options s \<Longrightarrow> parse_option segment s = Inr (Inr s') \<Longrightarrow>
    same_fixed h (ps_header s')"
  by (erule parse_option_next) (auto simp: same_fixed_def)

lemma parsed_fixed_fields:
  assumes "parse_with_metadata segment um as = Some (Inr (Some seg, as'))"
  obtains h where "parse_fixed_header segment = Inr h" "same_fixed h (header seg)"
    "finish_segment segment um (header seg) [] = Inr (Some seg, [])"
proof -
  obtain h s where hs: "parse_fixed_header segment = Inr h"
    "parse_options segment \<lparr>ps_header = h, ps_options = [], ps_length = 0,
       ps_allocs = snd (malloc3 as)\<rparr> = Some (Inr (Inr s))"
    "finish_segment segment um ((ps_header s)\<lparr>options := Some (ps_options s)\<rparr>) (ps_allocs s)
      = Inr (Some seg, as')"
    by (rule parse_with_metadata_Some[OF assms])
  have seg: "header seg = (ps_header s)\<lparr>options := Some (ps_options s)\<rparr>"
    using finish_segment_Some[OF hs(3)] by blast
  have "same_fixed h (ps_header s)"
    using parse_options_rule[OF hs(2), of "\<lambda>s. same_fixed h (ps_header s)", OF _ same_fixed_step]
    by simp
  then have "same_fixed h (header seg)" by (simp add: seg same_fixed_def)
  moreover have "finish_segment segment um (header seg) [] = Inr (Some seg, [])"
    using hs(3) unfolding seg
    by (auto simp: finish_segment_def Let_def case_prod_beta uint_size_simps bind_fault_eq_Inr
        split: if_splits)
  ultimately show thesis using that hs(1) by blast
qed

lemma space_bit_lost: "ucast (b AND SPACE_MASK) = (0 :: 1 word)" for b :: u8
proof (rule bit_word_eqI)
  have "\<not> bit (16 :: u8) 0" by simp
  then show "bit (ucast (b AND SPACE_MASK) :: 1 word) n = bit (0 :: 1 word) n"
    if "n < LENGTH(1)" for n
    using that by (simp add: bit_simps)
qed



lemma minimal_parse_ids:
  assumes "minimal_parse segment source dest_addr as0 = Inr (Some um, as1)"
    and "parse_with_metadata (um_buffer um) um as = Some (Inr (Some seg, as'))"
  shows "observation_domain_id (header seg) = um_observation_domain_id um \<and>
    message_id (header seg) = um_message_id um \<and>
    src (metadata seg) = source \<and> dest (metadata seg) = dest_addr"
proof -
  obtain o' m where um: "um_buffer um = segment" "um_src um = source" "um_dest um = dest_addr"
    and ids: "deserialize_uint32 segment 4 = Inr o'" "deserialize_uint32 segment 8 = Inr m"
      "um_observation_domain_id um = ntohl o'" "um_message_id um = ntohl m"
    using assms(1)
    by (auto simp: minimal_parse_def case_prod_beta Let_def bind_fault_eq_Inr split: if_splits)
  obtain h where h: "parse_fixed_header segment = Inr h" "same_fixed h (header seg)"
    "finish_segment segment um (header seg) [] = Inr (Some seg, [])"
    by (rule parsed_fixed_fields[OF assms(2)[unfolded um]])
  with finish_segment_Some[OF h(3)] ids um show ?thesis
    by (auto simp: parse_fixed_header_def bind_fault_eq_Inr same_fixed_def)
qed

text \<open>
  The dispatcher and the parser agree: the identifiers that \<^verbatim>\<open>minimal_parse\<close> reads for
  dispatching are those of the segment the worker parses.
\<close>

theorem minimal_parse_agrees:
  assumes "minimal_parse segment source dest_addr as0 = Inr (Some um, as1)"
    and "parse_with_metadata (um_buffer um) um as = Some (Inr (Some seg, as'))"
  shows "observation_domain_id (header seg) = um_observation_domain_id um \<and>
    message_id (header seg) = um_message_id um \<and>
    src (metadata seg) = source \<and> dest (metadata seg) = dest_addr"
  using assms by (rule minimal_parse_ids)

theorem minimal_parse_agrees_witness:
  "observation_domain_id (header sample_segment) = 7 \<and> message_id (header sample_segment) = 9"
proof -
  have "minimal_parse sample_packet (um_src sample_min) None [] = Inr (Some sample_min, [])"
    by code_simp
  moreover have "parse_with_metadata (um_buffer sample_min) sample_min [] =
      Some (Inr (Some sample_segment, []))"
    using parse_sample by (simp add: sample_min_def)
  ultimately show ?thesis
    using minimal_parse_agrees by (simp add: sample_min_def)
qed

section \<open>Legacy headers\<close>

lemma legacy_et_fault_iff:
  "get_encoding_IANA_ET_from_legacy et = Inl e \<longleftrightarrow> e = Out_Of_Bounds \<and> et = 4"
proof -
  have "unat et = 4 \<longleftrightarrow> et = 4"
    using word_unat_eq_iff[of et 4] by simp
  then show ?thesis
    by (auto simp: get_encoding_IANA_ET_from_legacy_def SUPPORTED_ET_LEN_def
        LEGACY_ET_TO_IANA_def)
qed

text \<open>
  C21. The legacy parser on a receive buffer. It reads outside the conversion table exactly on
  the encoding type 4, one past the last entry of the table; on every other packet it stays in
  bounds. A segment that it returns has a header of 12 bytes, no options and a payload of the
  declared length.
\<close>

theorem legacy_parse_outcomes:
  assumes "length segment = UDP_SIZE"
  shows "(parse_with_metadata_legacy segment um as = Inl e \<longleftrightarrow>
      e = Out_Of_Bounds \<and> fst (malloc3 as) \<and> segment ! 1 AND ET_MASK = 4) \<and>
    (parse_with_metadata_legacy segment um as = Inr (Some seg, as') \<longrightarrow>
      unat (header_length (header seg)) = HEADER_BYTES \<and> options (header seg) = Some [] \<and>
      \<not> is_segmented (header seg) 0 \<and>
      length (payload seg) + HEADER_BYTES = unat (message_length (header seg)))"
proof (intro conjI impI)
  have rd: "0 < length segment" "Suc 0 < length segment" "2 + 2 \<le> length segment"
    "4 + 4 \<le> length segment" "8 + 4 \<le> length segment"
    using assms by simp_all
  have "finish_segment segment um h as \<noteq> Inl e" for h as
    using assms by (intro finish_segment_safe) simp
  with rd show "parse_with_metadata_legacy segment um as = Inl e \<longleftrightarrow>
      e = Out_Of_Bounds \<and> fst (malloc3 as) \<and> segment ! 1 AND ET_MASK = 4"
    unfolding parse_with_metadata_legacy_def
    by (auto simp: case_prod_beta Let_def bind_fault_eq_Inl legacy_et_fault_iff)
  assume "parse_with_metadata_legacy segment um as = Inr (Some seg, as')"
  then obtain h as1 where fin: "finish_segment segment um h as1 = Inr (Some seg, as')"
    and h: "header_length h = 12" "options h = Some []"
    using rd
    by (auto simp: parse_with_metadata_legacy_def case_prod_beta Let_def bind_fault_eq_Inr
        split: if_splits)
  from finish_segment_Some[OF fin]
  have seg: "header seg = h" "unat (header_length h) \<le> unat (message_length h)"
    "length (payload seg) = unat (message_length h) - unat (header_length h)"
    by blast+
  show "unat (header_length (header seg)) = HEADER_BYTES" "options (header seg) = Some []"
    "\<not> is_segmented (header seg) 0"
    "length (payload seg) + HEADER_BYTES = unat (message_length (header seg))"
    using seg h by (simp_all add: is_segmented_def)
qed

theorem legacy_parse_outcomes_witness:
  "length (replicate 65535 (4 :: u8)) = UDP_SIZE \<and>
   parse_with_metadata_legacy (replicate 65535 4) sample_min [] = Inl Out_Of_Bounds"
  using legacy_parse_outcomes[of "replicate 65535 4" sample_min "[]" Out_Of_Bounds]
  by (simp add: malloc3_def)

end
