(* ===== verification/Segbuf.thy ===== *)
theory Segbuf
  imports Wire
begin

text \<open>
  The segmentation buffer of \<^verbatim>\<open>src/segmentation_buffer.c\<close>: a hash table of 10000 buckets, each
  a chain of messages in reassembly, each message an ordered list of its segments.

  Lists with a header cell are lists of the cells after it, next to a record of the fields that
  the code keeps in the header cell. \<^verbatim>\<open>options_tail\<close> always is the last cell of the options and
  is not kept. A bucket is \<open>dangling\<close> when the last cell of its chain was left with an
  uninitialised \<^verbatim>\<open>next\<close> pointer and no segment list, which is what a failed allocation does.
\<close>

section \<open>Data\<close>

abbreviation SIZE_BUF :: nat where "SIZE_BUF \<equiv> 10000"
abbreviation CLEAN_UP_PASS_SIZE :: nat where "CLEAN_UP_PASS_SIZE \<equiv> 500"
abbreviation CLEAN_COUNT_MAX :: nat where "CLEAN_COUNT_MAX \<equiv> 50"
abbreviation EXPIRE_MSG :: int where "EXPIRE_MSG \<equiv> 3"

record segment_cell =
  seqnum :: u32
  content :: bytes
  content_size :: u32

record message_segment_list =
  total_size :: u32
  current_size :: u32
  total_payload_byte_size :: u32
  msl_odid :: u32
  msl_mid :: u32
  options_head :: "unyte_option list option"
  options_length :: u32
  segments :: "segment_cell list"
  to_clean_up :: int
  timestamp :: int

record collision_list_cell =
  cl_odid :: u32
  cl_mid :: u32
  cl_head :: "message_segment_list option"

record bucket =
  chain :: "collision_list_cell list"
  dangling :: bool

record segment_buffer =
  sb_count :: u32
  hash_array :: "nat \<Rightarrow> bucket option"
  cleanup :: u8
  cleanup_start_index :: u8

section \<open>One message\<close>

definition create_segment_buffer :: "allocs \<Rightarrow> segment_buffer option \<times> allocs" where
  "create_segment_buffer as =
     (let (ok, as1) = malloc as in
      (if ok then Some \<lparr>sb_count = 0, hash_array = (\<lambda>_. None), cleanup = 0,
                        cleanup_start_index = 0\<rparr>
       else None, as1))"

fun copy_segments :: "segment_cell list \<Rightarrow> fault + bytes" where
  "copy_segments [] = Inr []"
| "copy_segments (c # cs) =
     bind_fault (read_range (content c) 0 (unat (content_size c))) (\<lambda>b.
     bind_fault (copy_segments cs) (\<lambda>bs. Inr (b @ bs)))"

text \<open>
  The contents are copied one after the other into a buffer of \<^verbatim>\<open>total_payload_byte_size\<close>
  bytes. The result is the bytes written; writing more than the buffer holds is a fault.
\<close>

definition reassemble_payload ::
  "message_segment_list \<Rightarrow> allocs \<Rightarrow> fault + (bytes option \<times> allocs)" where
  "reassemble_payload msg_seg_list as =
     (let (ok, as1) = malloc as in
      if \<not> ok then Inr (None, as1)
      else
        bind_fault (copy_segments (segments msg_seg_list)) (\<lambda>bs.
        if length bs \<le> unat (total_payload_byte_size msg_seg_list) then Inr (Some bs, as1)
        else Inl Out_Of_Bounds))"

definition hashKey :: "u32 \<Rightarrow> u32 \<Rightarrow> u32" where
  "hashKey odid mid = (odid XOR mid) mod of_nat SIZE_BUF"

definition append_options ::
  "message_segment_list \<Rightarrow> unyte_option list option \<Rightarrow> allocs \<Rightarrow>
    int \<times> message_segment_list \<times> allocs" where
  "append_options head opts as =
     (case opts of
        None \<Rightarrow> (-2, head, as)
      | Some os \<Rightarrow>
          (let (oh, as1) =
             (case options_head head of
                None \<Rightarrow> build_message_empty_options as
              | Some old \<Rightarrow> (Some old, as)) in
           case oh of
             None \<Rightarrow> (-3, head, as1)
           | Some old \<Rightarrow>
               (0, head\<lparr>options_head := Some (old @ os),
                        options_length := options_length head + opts_bytes os\<rparr>, as1)))"

definition msl_complete :: "message_segment_list \<Rightarrow> bool" where
  "msl_complete head \<longleftrightarrow> total_size head > 0 \<and> current_size head = total_size head"

text \<open>The new cell is in place: count it and take over the options.\<close>

definition count_segment ::
  "message_segment_list \<Rightarrow> u32 \<Rightarrow> unyte_option list option \<Rightarrow> allocs \<Rightarrow>
    int \<times> message_segment_list \<times> allocs" where
  "count_segment head payload_size opts as =
     (let (r, head', as1) = append_options
        (head\<lparr>current_size := current_size head + 1,
              total_payload_byte_size := total_payload_byte_size head + payload_size\<rparr>) opts as in
      (if r < 0 then -4 else if msl_complete head' then 1 else 0, head', as1))"

text \<open>
  \<^verbatim>\<open>insert_into_msl\<close>. When the allocation of a cell in the middle of the list fails, the
  pointer to the rest has already been overwritten with \<^verbatim>\<open>NULL\<close>.
\<close>

definition insert_into_msl ::
  "message_segment_list \<Rightarrow> u32 \<Rightarrow> int \<Rightarrow> u32 \<Rightarrow> bytes \<Rightarrow> unyte_option list option \<Rightarrow> allocs \<Rightarrow>
    int \<times> message_segment_list \<times> allocs" where
  "insert_into_msl head num is_last payload_size cont opts as =
     (let head1 = (if is_last = 1 then head\<lparr>total_size := num + 1\<rparr> else head);
          before = takeWhile (\<lambda>c. seqnum c < num) (segments head1);
          rest = dropWhile (\<lambda>c. seqnum c < num) (segments head1);
          cell = \<lparr>seqnum = num, content = cont, content_size = payload_size\<rparr>;
          (ok, as1) = malloc as in
      case rest of
        [] \<Rightarrow>
          if \<not> ok then (-3, head1, as1)
          else count_segment (head1\<lparr>segments := before @ [cell]\<rparr>) payload_size opts as1
      | c # temp \<Rightarrow>
          if seqnum c = num then (if msl_complete head1 then -2 else -1, head1, as)
          else if \<not> ok then (-3, head1\<lparr>segments := before\<rparr>, as1)
          else count_segment (head1\<lparr>segments := before @ cell # c # temp\<rparr>) payload_size opts as1)"

definition create_message_segment_list ::
  "u32 \<Rightarrow> u32 \<Rightarrow> allocs \<Rightarrow> message_segment_list option \<times> allocs" where
  "create_message_segment_list odid mid as =
     (let (ok, as1) = malloc as in
      (if ok then Some \<lparr>total_size = 0, current_size = 0, total_payload_byte_size = 0,
          msl_odid = odid, msl_mid = mid, options_head = None, options_length = 0,
          segments = [], to_clean_up = 0, timestamp = 0\<rparr>
       else None, as1))"

section \<open>The hash table\<close>

definition is_message :: "u32 \<Rightarrow> u32 \<Rightarrow> collision_list_cell \<Rightarrow> bool" where
  "is_message odid mid c \<longleftrightarrow> \<not> (cl_odid c \<noteq> odid \<or> cl_mid c \<noteq> mid)"

text \<open>
  The three walks over a chain stop at the first cell with the identifiers: the cells before
  it, and the cells from it on.
\<close>

definition cells_before :: "u32 \<Rightarrow> u32 \<Rightarrow> collision_list_cell list \<Rightarrow> collision_list_cell list" where
  "cells_before odid mid cs = takeWhile (\<lambda>c. \<not> is_message odid mid c) cs"

definition cells_from :: "u32 \<Rightarrow> u32 \<Rightarrow> collision_list_cell list \<Rightarrow> collision_list_cell list" where
  "cells_from odid mid cs = dropWhile (\<lambda>c. \<not> is_message odid mid c) cs"

definition set_bucket :: "nat \<Rightarrow> bucket \<Rightarrow> segment_buffer \<Rightarrow> segment_buffer" where
  "set_bucket hk b buf = buf\<lparr>hash_array := (hash_array buf)(hk := Some b)\<rparr>"

definition empty_bucket :: bucket where
  "empty_bucket = \<lparr>chain = [], dangling = False\<rparr>"

text \<open>The first lines of \<^verbatim>\<open>insert_segment\<close>: make sure that the bucket has its header cell.\<close>

definition ensure_bucket ::
  "segment_buffer \<Rightarrow> nat \<Rightarrow> allocs \<Rightarrow> bucket option \<times> segment_buffer \<times> allocs" where
  "ensure_bucket buf hk as =
     (case hash_array buf hk of
        Some b \<Rightarrow> (Some b, buf, as)
      | None \<Rightarrow>
          (let (ok, as1) = malloc as in
           if ok then (Some empty_bucket, set_bucket hk empty_bucket buf, as1)
           else (None, buf, as1)))"

definition insert_segment ::
  "segment_buffer \<Rightarrow> u32 \<Rightarrow> u32 \<Rightarrow> u32 \<Rightarrow> int \<Rightarrow> u32 \<Rightarrow> bytes \<Rightarrow> unyte_option list option \<Rightarrow> allocs \<Rightarrow>
    fault + (int \<times> segment_buffer \<times> allocs)" where
  "insert_segment buf odid mid num is_last payload_size cont opts as =
     (let hk = unat (hashKey odid mid);
          (b', buf1, as1) = ensure_bucket buf hk as in
      case b' of
        None \<Rightarrow> Inr (-3, buf1, as1)
      | Some b \<Rightarrow>
          (let before = cells_before odid mid (chain b);
               rest = cells_from odid mid (chain b) in
           case rest of
             [] \<Rightarrow>
               if dangling b then Inl Uninit_Read
               else
                 (let (ok, as2) = malloc as1 in
                  if \<not> ok then Inr (-3, buf1, as2)
                  else
                    (case create_message_segment_list odid mid as2 of
                       (None, as3) \<Rightarrow>
                         Inr (-3, set_bucket hk
                           \<lparr>chain = before @ [\<lparr>cl_odid = odid, cl_mid = mid, cl_head = None\<rparr>],
                            dangling = True\<rparr> buf1, as3)
                     | (Some m, as3) \<Rightarrow>
                         (let (r, m', as4) = insert_into_msl m num is_last payload_size cont opts as3 in
                          Inr (r, set_bucket hk
                            (b\<lparr>chain := before @ [\<lparr>cl_odid = odid, cl_mid = mid, cl_head = Some m'\<rparr>]\<rparr>)
                            (buf1\<lparr>sb_count := sb_count buf1 + 1\<rparr>), as4))))
           | c # cs \<Rightarrow>
               (case cl_head c of
                  None \<Rightarrow> Inl Null_Deref
                | Some m \<Rightarrow>
                    (let (r, m', as2) = insert_into_msl m num is_last payload_size cont opts as1 in
                     Inr (r, set_bucket hk (b\<lparr>chain := before @ c\<lparr>cl_head := Some m'\<rparr> # cs\<rparr>) buf1,
                       as2)))))"

definition get_segment_list ::
  "segment_buffer \<Rightarrow> u32 \<Rightarrow> u32 \<Rightarrow> fault + message_segment_list option" where
  "get_segment_list buf odid mid =
     (case hash_array buf (unat (hashKey odid mid)) of
        None \<Rightarrow> Inr None
      | Some b \<Rightarrow>
          (case cells_from odid mid (chain b) of
             [] \<Rightarrow> if dangling b then Inl Uninit_Read else Inr None
           | c # cs \<Rightarrow> Inr (cl_head c)))"

text \<open>\<^verbatim>\<open>clear_msl\<close> of the list that is taken out frees it; a missing list is dereferenced.\<close>

definition clear_segment_list ::
  "segment_buffer \<Rightarrow> u32 \<Rightarrow> u32 \<Rightarrow> fault + (int \<times> segment_buffer)" where
  "clear_segment_list buf odid mid =
     (let hk = unat (hashKey odid mid) in
      case hash_array buf hk of
        None \<Rightarrow> Inr (-1, buf)
      | Some b \<Rightarrow>
          (let before = cells_before odid mid (chain b) in
           case cells_from odid mid (chain b) of
             [] \<Rightarrow> if dangling b then Inl Uninit_Read else Inr (-1, buf)
           | c # cs \<Rightarrow>
               (case cl_head c of
                  None \<Rightarrow> Inl Null_Deref
                | Some m \<Rightarrow> Inr (0, set_bucket hk (b\<lparr>chain := before @ cs\<rparr>) buf))))"

fun clear_cells :: "segment_buffer \<Rightarrow> collision_list_cell list \<Rightarrow> fault + (int \<times> segment_buffer)" where
  "clear_cells buf [] = Inr (0, buf)"
| "clear_cells buf (c # cs) =
     (case cl_head c of
        None \<Rightarrow> Inl Null_Deref
      | Some m \<Rightarrow>
          bind_fault (clear_segment_list buf (msl_odid m) (msl_mid m)) (\<lambda>(_, buf1).
          bind_fault (clear_cells buf1 cs) (\<lambda>(n, buf2). Inr (n + 1, buf2))))"

definition clear_collision_list ::
  "segment_buffer \<Rightarrow> bucket \<Rightarrow> fault + (int \<times> segment_buffer)" where
  "clear_collision_list buf b =
     bind_fault (clear_cells buf (chain b)) (\<lambda>r. if dangling b then Inl Uninit_Read else Inr r)"

text \<open>The buckets from \<open>i\<close> on, \<open>n\<close> of them; the buffer returned is the one that is freed.\<close>

fun clear_buckets :: "nat \<Rightarrow> nat \<Rightarrow> segment_buffer \<Rightarrow> fault + (int \<times> segment_buffer)" where
  "clear_buckets i 0 buf = Inr (0, buf)"
| "clear_buckets i (Suc n) buf =
     (case hash_array buf i of
        None \<Rightarrow> clear_buckets (Suc i) n buf
      | Some b \<Rightarrow>
          bind_fault (clear_collision_list buf b) (\<lambda>(r, buf1).
          bind_fault (clear_buckets (Suc i) n buf1) (\<lambda>(res, buf2). Inr (r + res, buf2))))"

definition clear_buffer :: "segment_buffer \<Rightarrow> fault + (int \<times> segment_buffer)" where
  "clear_buffer buf = clear_buckets 0 SIZE_BUF buf"

section \<open>Clean-up\<close>

definition chain_at :: "segment_buffer \<Rightarrow> nat \<Rightarrow> collision_list_cell list" where
  "chain_at buf i = (case hash_array buf i of None \<Rightarrow> [] | Some b \<Rightarrow> chain b)"

definition dangling_at :: "segment_buffer \<Rightarrow> nat \<Rightarrow> bool" where
  "dangling_at buf i = (case hash_array buf i of None \<Rightarrow> False | Some b \<Rightarrow> dangling b)"

definition update_cell ::
  "segment_buffer \<Rightarrow> nat \<Rightarrow> nat \<Rightarrow> message_segment_list \<Rightarrow> segment_buffer" where
  "update_cell buf i p m =
     (case hash_array buf i of
        None \<Rightarrow> buf
      | Some b \<Rightarrow> set_bucket i (b\<lparr>chain := (chain b)[p := (chain b ! p)\<lparr>cl_head := Some m\<rparr>]\<rparr>) buf)"

text \<open>
  The walk over bucket \<open>i\<close>, at position \<open>p\<close> of its chain. Once a message has been removed, the
  walk goes on with the cell that followed it: it is at the same position when the chain got
  shorter.
\<close>

function cleanup_walk ::
  "int \<Rightarrow> nat \<Rightarrow> nat \<Rightarrow> segment_buffer \<Rightarrow> fault + segment_buffer"
where
  "cleanup_walk now i p buf =
     (if p < length (chain_at buf i) then
        (let c = chain_at buf i ! p in
         case cl_head c of
           None \<Rightarrow> Inl Null_Deref
         | Some m \<Rightarrow>
             if to_clean_up m = 0 then
               cleanup_walk now i (Suc p) (update_cell buf i p (m\<lparr>to_clean_up := 1\<rparr>))
             else
               (let m1 = (if timestamp m = 0 then m\<lparr>timestamp := now\<rparr> else m);
                    buf1 = update_cell buf i p m1 in
                if now - timestamp m1 > EXPIRE_MSG then
                  (case clear_segment_list buf1 (cl_odid c) (cl_mid c) of
                     Inl e \<Rightarrow> Inl e
                   | Inr (r, buf2) \<Rightarrow>
                       let buf3 = buf2\<lparr>sb_count := sb_count buf2 - 1\<rparr> in
                       cleanup_walk now i
                         (if length (chain_at buf3 i) < length (chain_at buf i) then p else Suc p)
                         buf3)
                else cleanup_walk now i (Suc p) buf1))
      else if dangling_at buf i then Inl Uninit_Read
      else Inr buf)"
  by pat_completeness auto


lemma chain_at_set_bucket:
  "chain_at (set_bucket hk b buf) i = (if i = hk then chain b else chain_at buf i)"
  by (simp add: chain_at_def set_bucket_def)

lemma length_chain_at_update [simp]: "length (chain_at (update_cell buf i p m) j) = length (chain_at buf j)"
  by (auto simp: update_cell_def chain_at_def set_bucket_def split: option.splits)

lemma chain_at_count [simp]: "chain_at (buf\<lparr>sb_count := n\<rparr>) i = chain_at buf i"
  by (simp add: chain_at_def)

lemma chain_cases:
  obtains (absent) "cells_from odid mid cs = []" "cells_before odid mid cs = cs"
      "\<forall>c\<in>set cs. \<not> is_message odid mid c"
    | (found) us c vs where "cs = us @ c # vs" "\<forall>u\<in>set us. \<not> is_message odid mid u"
      "is_message odid mid c" "cells_from odid mid cs = c # vs" "cells_before odid mid cs = us"
proof (cases "cells_from odid mid cs")
  case Nil
  then have "\<forall>c\<in>set cs. \<not> is_message odid mid c" by (simp add: cells_from_def)
  then show thesis using absent by (simp add: cells_from_def cells_before_def)
next
  case (Cons c vs)
  have "cs = cells_before odid mid cs @ c # vs"
    using Cons takeWhile_dropWhile_id[of "\<lambda>c. \<not> is_message odid mid c" cs]
    by (simp add: cells_from_def cells_before_def)
  moreover have "is_message odid mid c"
    using Cons by (simp add: cells_from_def dropWhile_eq_Cons_conv)
  moreover have "\<forall>u\<in>set (cells_before odid mid cs). \<not> is_message odid mid u"
    by (auto simp: cells_before_def dest: set_takeWhileD)
  ultimately show thesis using Cons found by blast
qed

lemma clear_segment_list_shorter:
  assumes "clear_segment_list buf odid mid = Inr (r, buf')"
  shows "length (chain_at buf' i) \<le> length (chain_at buf i)"
proof (cases "hash_array buf (unat (hashKey odid mid))")
  case None
  then show ?thesis using assms by (simp add: clear_segment_list_def)
next
  case (Some b)
  then have "chain_at buf (unat (hashKey odid mid)) = chain b" by (simp add: chain_at_def)
  with Some show ?thesis
    using assms
    by (cases rule: chain_cases[of odid mid "chain b"])
      (auto simp: clear_segment_list_def Let_def chain_at_set_bucket split: if_splits option.splits)
qed

termination cleanup_walk
proof (relation "measure (\<lambda>(now, i, p, buf). length (chain_at buf i) - p)", goal_cases)
  case (3 now i p buf x x2 xa xb y a b xd)
  then have "length (chain_at b i) \<le> length (chain_at buf i)"
    using clear_segment_list_shorter[of xb "cl_odid x" "cl_mid x" a b i] by simp
  with 3 show ?case by (auto simp: not_less)
qed auto

declare cleanup_walk.simps [simp del]

text \<open>The buckets of a pass, and the pass. The start index is kept in one byte.\<close>

fun cleanup_pass :: "int \<Rightarrow> nat \<Rightarrow> nat \<Rightarrow> nat \<Rightarrow> segment_buffer \<Rightarrow> fault + segment_buffer" where
  "cleanup_pass now start count 0 buf = Inr buf"
| "cleanup_pass now start count (Suc n) buf =
     bind_fault (cleanup_walk now ((start + count) mod SIZE_BUF) 0 buf) (\<lambda>buf1.
     cleanup_pass now start (Suc count) n buf1)"

definition cleanup_seg_buff :: "int \<Rightarrow> segment_buffer \<Rightarrow> nat \<Rightarrow> fault + segment_buffer" where
  "cleanup_seg_buff now buf cleanup_pass_size =
     bind_fault (cleanup_pass now (unat (cleanup_start_index buf)) 0 cleanup_pass_size buf) (\<lambda>buf1.
     Inr (buf1\<lparr>cleanup := 0, cleanup_start_index :=
       of_nat ((unat (cleanup_start_index buf1) + CLEAN_UP_PASS_SIZE) mod SIZE_BUF)\<rparr>))"

section \<open>Segments of one message\<close>

text \<open>
  The header cell agrees with the list: strictly ordered segments, their number, the sum of
  their sizes and of the sizes of the options.
\<close>

definition msl_ok :: "message_segment_list \<Rightarrow> bool" where
  "msl_ok m \<longleftrightarrow>
     sorted_wrt (<) (map seqnum (segments m)) \<and>
     current_size m = of_nat (length (segments m)) \<and>
     total_payload_byte_size m = sum_list (map content_size (segments m)) \<and>
     list_all (\<lambda>c. unat (content_size c) = length (content c)) (segments m) \<and>
     options_length m = (case options_head m of None \<Rightarrow> 0 | Some os \<Rightarrow> opts_bytes os)"

definition with_last :: "message_segment_list \<Rightarrow> u32 \<Rightarrow> int \<Rightarrow> message_segment_list" where
  "with_last m num is_last = (if is_last = 1 then m\<lparr>total_size := num + 1\<rparr> else m)"

definition insert_cell :: "segment_cell \<Rightarrow> segment_cell list \<Rightarrow> segment_cell list" where
  "insert_cell cell cs =
     takeWhile (\<lambda>c. seqnum c < seqnum cell) cs @ cell # dropWhile (\<lambda>c. seqnum c < seqnum cell) cs"

definition with_segment ::
  "message_segment_list \<Rightarrow> segment_cell \<Rightarrow> message_segment_list" where
  "with_segment m cell =
     m\<lparr>segments := insert_cell cell (segments m), current_size := current_size m + 1,
       total_payload_byte_size := total_payload_byte_size m + content_size cell\<rparr>"

lemma with_last_simps [simp]:
  "segments (with_last m num l) = segments m" "current_size (with_last m num l) = current_size m"
  "options_head (with_last m num l) = options_head m" "msl_ok (with_last m num l) = msl_ok m"
  "msl_odid (with_last m num l) = msl_odid m" "msl_mid (with_last m num l) = msl_mid m"
  by (simp_all add: with_last_def msl_ok_def)

lemma set_insert_cell: "set (insert_cell cell cs) = insert cell (set cs)"
proof -
  have "set cs = set (takeWhile (\<lambda>c. seqnum c < seqnum cell) cs @
      dropWhile (\<lambda>c. seqnum c < seqnum cell) cs)" by simp
  then show ?thesis by (auto simp only: insert_cell_def set_append list.set)
qed

lemma length_insert_cell [simp]: "length (insert_cell cell cs) = Suc (length cs)"
proof -
  have "length cs = length (takeWhile (\<lambda>c. seqnum c < seqnum cell) cs @
      dropWhile (\<lambda>c. seqnum c < seqnum cell) cs)" by simp
  then show ?thesis by (simp only: insert_cell_def length_append list.size)
qed

lemma sum_insert_cell: "sum_list (map f (insert_cell cell cs)) = f cell + sum_list (map f cs)"
  for f :: "segment_cell \<Rightarrow> 'a::comm_monoid_add"
proof -
  have "sum_list (map f cs) = sum_list (map f (takeWhile (\<lambda>c. seqnum c < seqnum cell) cs @
      dropWhile (\<lambda>c. seqnum c < seqnum cell) cs))" by simp
  then show ?thesis by (simp only: insert_cell_def map_append sum_list.append list.map sum_list.Cons)
    (simp add: algebra_simps)
qed

lemma sorted_insert_cell:
  assumes "sorted_wrt (<) (map seqnum cs)" "seqnum cell \<notin> seqnum ` set cs"
  shows "sorted_wrt (<) (map seqnum (insert_cell cell cs))"
  using assms
proof (induction cs)
  case Nil
  then show ?case by (simp add: insert_cell_def)
next
  case (Cons c cs)
  show ?case
  proof (cases "seqnum c < seqnum cell")
    case True
    then have "insert_cell cell (c # cs) = c # insert_cell cell cs" by (simp add: insert_cell_def)
    then show ?thesis using Cons True by (auto simp: set_insert_cell)
  next
    case False
    then have "insert_cell cell (c # cs) = cell # c # cs" by (simp add: insert_cell_def)
    then show ?thesis using Cons.prems False by force
  qed
qed

lemma sorted_rest_head:
  assumes "sorted_wrt (<) (map seqnum cs)" "dropWhile (\<lambda>c. seqnum c < num) cs = c # rest"
  shows "seqnum c = num \<longleftrightarrow> num \<in> seqnum ` set cs"
proof -
  have c: "c \<in> set cs" "\<not> seqnum c < num"
    using assms(2) by (metis list.set_intros(1) set_dropWhileD, metis (mono_tags) dropWhile_eq_Cons_conv)
  have "sorted_wrt (<) (map seqnum (takeWhile (\<lambda>c. seqnum c < num) cs @ c # rest))"
    using assms takeWhile_dropWhile_id[of "\<lambda>c. seqnum c < num" cs] by simp
  then have "\<forall>d\<in>set rest. seqnum c < seqnum d" by (simp add: sorted_wrt_append)
  moreover have "\<forall>d\<in>set (takeWhile (\<lambda>c. seqnum c < num) cs). seqnum d < num"
    by (auto dest: set_takeWhileD)
  moreover have "set cs = set (takeWhile (\<lambda>c. seqnum c < num) cs) \<union> insert c (set rest)"
    using assms(2) takeWhile_dropWhile_id[of "\<lambda>c. seqnum c < num" cs]
    by (metis list.simps(15) set_append)
  ultimately show ?thesis using c by force
qed

lemma rest_nil:
  "dropWhile (\<lambda>c. seqnum c < num) cs = [] \<Longrightarrow> num \<notin> seqnum ` set cs"
  by auto

lemma msl_rest_head:
  "msl_ok m \<Longrightarrow> dropWhile (\<lambda>c. seqnum c < num) (segments m) = c # rest \<Longrightarrow>
    seqnum c = num \<longleftrightarrow> num \<in> seqnum ` set (segments m)"
  by (rule sorted_rest_head) (simp_all add: msl_ok_def)

text \<open>The three outcomes of an insertion.\<close>

lemma insert_into_msl_duplicate:
  assumes "msl_ok m" "num \<in> seqnum ` set (segments m)"
  shows "insert_into_msl m num is_last sz cont opts as =
    (if msl_complete (with_last m num is_last) then -2 else -1, with_last m num is_last, as)"
proof (cases "dropWhile (\<lambda>c. seqnum c < num) (segments m)")
  case Nil
  then show ?thesis using assms(2) rest_nil by blast
next
  case (Cons c rest)
  then have "seqnum c = num" using msl_rest_head[OF assms(1) Cons] assms(2) by simp
  with Cons show ?thesis
    unfolding insert_into_msl_def Let_def with_last_def[symmetric] by (simp add: case_prod_beta)
qed

lemma insert_into_msl_new:
  assumes "msl_ok m" "num \<notin> seqnum ` set (segments m)" "fst (malloc as)"
    and cell_def: "cell = \<lparr>seqnum = num, content = cont, content_size = sz\<rparr>"
  shows "insert_into_msl m num is_last sz cont opts as =
    (case append_options (with_segment (with_last m num is_last) cell) opts (snd (malloc as)) of
       (r, m', as') \<Rightarrow> (if r < 0 then -4 else if msl_complete m' then 1 else 0, m', as'))"
proof -
  have w: "(if is_last = 1 then m\<lparr>total_size := num + 1\<rparr> else m) = with_last m num is_last"
    by (simp add: with_last_def)
  show ?thesis
  proof (cases "dropWhile (\<lambda>c. seqnum c < num) (segments m)")
    case Nil
    then show ?thesis
      unfolding insert_into_msl_def Let_def w
      using assms(3)
      by (simp add: case_prod_beta cell_def count_segment_def with_segment_def insert_cell_def
          del: dropWhile_eq_Nil_conv)
  next
    case (Cons c rest)
    then have "seqnum c \<noteq> num" using msl_rest_head[OF assms(1) Cons] assms(2) by simp
    with Cons show ?thesis
      unfolding insert_into_msl_def Let_def w
      using assms(3)
      by (simp add: case_prod_beta cell_def count_segment_def with_segment_def insert_cell_def)
  qed
qed

lemma insert_into_msl_failed:
  assumes "msl_ok m" "num \<notin> seqnum ` set (segments m)" "\<not> fst (malloc as)"
  shows "insert_into_msl m num is_last sz cont opts as =
    (-3, (with_last m num is_last)\<lparr>segments := takeWhile (\<lambda>c. seqnum c < num) (segments m)\<rparr>,
     snd (malloc as))"
proof -
  have w: "(if is_last = 1 then m\<lparr>total_size := num + 1\<rparr> else m) = with_last m num is_last"
    by (simp add: with_last_def)
  show ?thesis
  proof (cases "dropWhile (\<lambda>c. seqnum c < num) (segments m)")
    case Nil
    moreover from Nil have "takeWhile (\<lambda>c. seqnum c < num) (segments m) = segments m"
      by (metis append_Nil2 takeWhile_dropWhile_id)
    ultimately show ?thesis
      unfolding insert_into_msl_def Let_def w
      using assms(3) by (cases m) (simp add: case_prod_beta with_last_def
        del: dropWhile_eq_Nil_conv takeWhile_eq_all_conv)
  next
    case (Cons c rest)
    then have "seqnum c \<noteq> num" using msl_rest_head[OF assms(1) Cons] assms(2) by simp
    with Cons show ?thesis
      unfolding insert_into_msl_def Let_def w
      using assms(3) by (simp add: case_prod_beta)
  qed
qed

lemma append_options_ok:
  assumes "append_options m opts as = (r, m', as')" "msl_ok m"
  shows "msl_ok m'" "segments m' = segments m" "total_size m' = total_size m"
    "current_size m' = current_size m" "msl_odid m' = msl_odid m" "msl_mid m' = msl_mid m"
  using assms
  by (auto simp: append_options_def msl_ok_def case_prod_beta Let_def build_message_empty_options_def
      opts_bytes_def split: option.splits if_splits)

lemma with_segment_ok:
  assumes "msl_ok m" "seqnum cell \<notin> seqnum ` set (segments m)"
    and "unat (content_size cell) = length (content cell)"
  shows "msl_ok (with_segment m cell)"
  using assms
  by (simp add: msl_ok_def with_segment_def sorted_insert_cell sum_insert_cell list_all_iff
      set_insert_cell add.commute)

text \<open>
  C18. Inserting a segment keeps the header cell of a message in agreement with its list: the
  segments stay strictly ordered by number, and the segment count, the payload size and the
  options length stay those of the list. The one exception is a failed allocation (return
  value -3).
\<close>

theorem insert_into_msl_keeps_order:
  assumes "msl_ok m" and "unat payload_size = length cont"
    and "insert_into_msl m num is_last payload_size cont opts as = (r, m', as')" and "r \<noteq> -3"
  shows "msl_ok m' \<and> seqnum ` set (segments m') = insert num (seqnum ` set (segments m))"
proof (cases "num \<in> seqnum ` set (segments m)")
  case True
  then show ?thesis
    using assms insert_into_msl_duplicate[OF assms(1) True] by auto
next
  case False
  have ok: "fst (malloc as)"
    using assms(3,4) insert_into_msl_failed[OF assms(1) False] by fastforce
  let ?cell = "\<lparr>seqnum = num, content = cont, content_size = payload_size\<rparr>"
  let ?m = "with_segment (with_last m num is_last) ?cell"
  obtain r0 where ap: "append_options ?m opts (snd (malloc as)) = (r0, m', as')"
    using assms(3) unfolding insert_into_msl_new[OF assms(1) False ok refl]
    by (auto split: prod.splits)
  have wok: "msl_ok ?m" using assms(1,2) False by (intro with_segment_ok) simp_all
  show ?thesis
    using append_options_ok[OF ap wok] by (simp add: with_segment_def set_insert_cell)
qed

section \<open>Complete messages\<close>

text \<open>A strictly ordered list of \<open>n\<close> numbers below \<open>n\<close> is \<open>0, 1, \<dots>, n - 1\<close>.\<close>

lemma strict_upt:
  assumes "sorted_wrt (<) (xs :: nat list)" "\<forall>x\<in>set xs. x < n" "length xs = n"
  shows "xs = [0..<n]"
proof -
  have d: "sorted xs" "distinct xs" using assms(1) by (simp_all add: strict_sorted_iff)
  then have "card (set xs) = n" using assms(3) by (simp add: distinct_card)
  moreover have "set xs \<subseteq> {..<n}" using assms(2) by auto
  ultimately have "set xs = {..<n}" by (simp add: card_subset_eq)
  then show ?thesis using d by (intro sorted_distinct_set_unique) (simp_all add: lessThan_atLeast0)
qed

lemma strict_length:
  assumes "sorted_wrt (<) (xs :: nat list)" "\<forall>x\<in>set xs. x < n"
  shows "length xs \<le> n"
proof -
  have "length xs = card (set xs)" using assms(1) by (simp add: strict_sorted_iff distinct_card)
  also have "\<dots> \<le> card {..<n}" using assms(2) by (intro card_mono) auto
  finally show ?thesis by simp
qed

lemma sorted_unat: "sorted_wrt (<) (map unat xs) = sorted_wrt (<) xs" for xs :: "u32 list"
  by (induction xs) (auto simp: word_less_nat_alt)

lemma copy_segments_ok:
  "list_all (\<lambda>c. unat (content_size c) = length (content c)) cs \<Longrightarrow>
    copy_segments cs = Inr (concat (map content cs))"
  by (induction cs) auto

lemma sum_sizes:
  assumes "list_all (\<lambda>c. unat (content_size c) = length (content c)) cs"
    and "length (concat (map content cs)) < 4294967296"
  shows "unat (sum_list (map content_size cs)) = length (concat (map content cs))"
  using assms by (induction cs) (auto simp: unat_word_ariths)

text \<open>
  When the segments of a message carry numbers below its total size, the completeness test
  of the code (as many segments as the total) holds exactly when every number from 0 to the last
  is there once, in order, and then the reassembled payload is the concatenation of the
  contents in that order, and fills the buffer allocated for it.
\<close>

lemma complete_message_reassembles:
  assumes "msl_ok m" and "\<forall>c\<in>set (segments m). seqnum c < total_size m"
    and "length (concat (map content (segments m))) < 4294967296"
  shows "(msl_complete m \<longleftrightarrow>
      0 < total_size m \<and> map (unat \<circ> seqnum) (segments m) = [0..<unat (total_size m)]) \<and>
    reassemble_payload m [] = Inr (Some (concat (map content (segments m))), []) \<and>
    length (concat (map content (segments m))) = unat (total_payload_byte_size m)"
proof -
  let ?ns = "map (unat \<circ> seqnum) (segments m)" and ?t = "unat (total_size m)"
  have ok: "sorted_wrt (<) (map seqnum (segments m))" "current_size m = of_nat (length (segments m))"
    "total_payload_byte_size m = sum_list (map content_size (segments m))"
    "list_all (\<lambda>c. unat (content_size c) = length (content c)) (segments m)"
    using assms(1) by (simp_all add: msl_ok_def)
  have srt: "sorted_wrt (<) ?ns" using ok(1) sorted_unat[of "map seqnum (segments m)"] by simp
  have bnd: "\<forall>x\<in>set ?ns. x < ?t" using assms(2) by (auto simp: word_less_nat_alt)
  have "length (segments m) \<le> ?t" using strict_length[OF srt bnd] by simp
  then have "unat (current_size m) = length (segments m)"
    using ok(2) u32_less[of "total_size m"] by (simp add: unat_of_nat_small)
  then have c: "current_size m = total_size m \<longleftrightarrow> length (segments m) = ?t"
    by (metis word_unat_eq_iff)
  have "length (segments m) = ?t \<longleftrightarrow> ?ns = [0..<?t]"
  proof
    assume "length (segments m) = ?t"
    then show "?ns = [0..<?t]" using strict_upt[OF srt bnd] by simp
  next
    assume "?ns = [0..<?t]"
    then have "length ?ns = length [0..<?t]" by (rule arg_cong)
    then show "length (segments m) = ?t" by simp
  qed
  moreover have "unat (total_payload_byte_size m) = length (concat (map content (segments m)))"
    unfolding ok(3) by (rule sum_sizes[OF ok(4) assms(3)])
  ultimately show ?thesis
    unfolding msl_complete_def c using ok(4)
    by (simp add: reassemble_payload_def copy_segments_ok del: length_concat)
qed

definition new_msl :: "u32 \<Rightarrow> u32 \<Rightarrow> message_segment_list" where
  "new_msl odid mid = \<lparr>total_size = 0, current_size = 0, total_payload_byte_size = 0,
     msl_odid = odid, msl_mid = mid, options_head = None, options_length = 0,
     segments = [], to_clean_up = 0, timestamp = 0\<rparr>"

lemma create_new_msl:
  "create_message_segment_list odid mid as =
    (if fst (malloc as) then Some (new_msl odid mid) else None, snd (malloc as))"
  by (simp add: create_message_segment_list_def new_msl_def case_prod_beta)

lemma new_msl_ok [simp]: "msl_ok (new_msl odid mid)"
  by (simp add: msl_ok_def new_msl_def)

text \<open>A message with segments 0 and 1, the last one being 1.\<close>

definition sample_msl :: message_segment_list where
  "sample_msl = \<lparr>total_size = 2, current_size = 2, total_payload_byte_size = 3,
     msl_odid = 7, msl_mid = 9, options_head = Some [], options_length = 0,
     segments = [\<lparr>seqnum = 0, content = [104], content_size = 1\<rparr>,
       \<lparr>seqnum = 1, content = [105, 33], content_size = 2\<rparr>],
     to_clean_up = 0, timestamp = 0\<rparr>"

lemma sample_msl_ok: "msl_ok sample_msl"
  by (simp add: msl_ok_def sample_msl_def opts_bytes_def)

theorem insert_into_msl_keeps_order_witness:
  "\<exists>m'. insert_into_msl sample_msl 5 0 1 [1] (Some []) [] = (0, m', []) \<and> msl_ok m' \<and>
    seqnum ` set (segments m') = {0, 1, 5}"
proof -
  obtain m' where m: "insert_into_msl sample_msl 5 0 1 [1] (Some []) [] = (0, m', [])"
    by (simp add: insert_into_msl_def count_segment_def append_options_def msl_complete_def
        sample_msl_def)
  have "unat (1 :: u32) = length [1 :: u8]" by simp
  from insert_into_msl_keeps_order[OF sample_msl_ok this m] m show ?thesis
    by (auto simp: sample_msl_def)
qed

text \<open>
  The completeness test counts segments and does not look at their numbers. When the last
  segment of a message of \<open>n + 1\<close> segments has arrived together with \<open>n - 1\<close> others, a segment with
  any new number, even one beyond the end, makes the message complete.
\<close>

theorem completeness_only_counts:
  assumes "msl_ok m" and "num \<notin> seqnum ` set (segments m)"
    and "unat (total_size m) = Suc (length (segments m))"
  shows "fst (insert_into_msl m num 0 payload_size cont (Some os) []) = 1"
proof -
  let ?cell = "\<lparr>seqnum = num, content = cont, content_size = payload_size\<rparr>"
  let ?m = "with_segment (with_last m num 0) ?cell"
  have "current_size m + 1 = of_nat (Suc (length (segments m)))"
    using assms(1) by (simp add: msl_ok_def)
  also have "\<dots> = total_size m"
    unfolding assms(3)[symmetric] by simp
  finally have c: "current_size m + 1 = total_size m" "total_size m > 0"
    using assms(3) by (auto simp: word_gt_0 simp flip: unat_eq_0)
  show ?thesis
    unfolding insert_into_msl_new[OF assms(1,2) _ refl, of "[]", simplified]
    using c by (auto simp: append_options_def build_message_empty_options_def with_segment_def
        with_last_def msl_complete_def split: option.splits)
qed

definition partial_msl :: message_segment_list where
  "partial_msl = sample_msl\<lparr>current_size := 1, total_payload_byte_size := 2,
     segments := [\<lparr>seqnum = 1, content = [105, 33], content_size = 2\<rparr>]\<rparr>"

theorem completeness_only_counts_witness:
  "unat (total_size partial_msl) = 2 \<and>
   fst (insert_into_msl partial_msl 5 0 1 [63] (Some []) []) = 1"
proof -
  have "msl_ok partial_msl" "5 \<notin> seqnum ` set (segments partial_msl)"
    "unat (total_size partial_msl) = Suc (length (segments partial_msl))"
    by (simp_all add: msl_ok_def partial_msl_def sample_msl_def opts_bytes_def)
  from completeness_only_counts[OF this] show ?thesis
    by (simp add: partial_msl_def sample_msl_def)
qed

lemma set_takeWhile_seqnum:
  "sorted_wrt (<) (map seqnum cs) \<Longrightarrow>
    set (takeWhile (\<lambda>c. seqnum c < num) cs) = {c \<in> set cs. seqnum c < num}"
  by (induction cs) (auto dest: order_less_trans)

text \<open>
  A failed allocation for a segment that belongs in the middle of the list loses every
  segment after it, while the segment count keeps counting them: the message can then be
  taken for complete while segments are missing.
\<close>

lemma failed_insertion_truncates:
  assumes "msl_ok m" and "num \<notin> seqnum ` set (segments m)" and "\<exists>c\<in>set (segments m). num < seqnum c"
    and "length (segments m) < 4294967296"
    and "insert_into_msl m num is_last payload_size cont opts (False # as) = (r, m', as')"
  shows "r = -3 \<and> set (segments m') = {c \<in> set (segments m). seqnum c < num} \<and>
    length (segments m') < unat (current_size m')"
proof -
  let ?before = "takeWhile (\<lambda>c. seqnum c < num) (segments m)"
  have m': "r = -3" "m' = (with_last m num is_last)\<lparr>segments := ?before\<rparr>"
    using insert_into_msl_failed[OF assms(1,2), of "False # as"] assms(5) by simp_all
  have set: "set ?before = {c \<in> set (segments m). seqnum c < num}"
    using assms(1) by (intro set_takeWhile_seqnum) (simp add: msl_ok_def)
  have "?before \<noteq> segments m"
    using set assms(3) by (metis (no_types, lifting) mem_Collect_eq order_less_asym)
  then have "length ?before < length (segments m)"
    by (metis append_Nil2 append_eq_conv_conj length_takeWhile_le nat_less_le takeWhile_eq_take take_all)
  moreover have "unat (current_size m') = length (segments m)"
    using assms(1,4) m' by (simp add: msl_ok_def unat_of_nat_small)
  ultimately show ?thesis using m' set by simp
qed

lemma failed_insertion_truncates_witness:
  "\<exists>m' as'. insert_into_msl partial_msl 0 0 1 [104] (Some []) [False] = (-3, m', as') \<and>
    segments m' = [] \<and> current_size m' = 1"
proof -
  obtain r m' as' where i: "insert_into_msl partial_msl 0 0 1 [104] (Some []) [False] = (r, m', as')"
    by (metis prod_cases3)
  have "msl_ok partial_msl" "0 \<notin> seqnum ` set (segments partial_msl)"
    "\<exists>c\<in>set (segments partial_msl). 0 < seqnum c" "length (segments partial_msl) < 4294967296"
    by (simp_all add: msl_ok_def partial_msl_def sample_msl_def opts_bytes_def)
  from failed_insertion_truncates[OF this i] i show ?thesis
    by (auto simp: partial_msl_def sample_msl_def insert_into_msl_def)
qed

section \<open>Messages of a conforming sender\<close>

text \<open>
  A sender cuts a message into the payloads \<open>ps\<close>; segment \<open>i\<close> carries number \<open>i\<close>, the payload
  \<open>ps ! i\<close>, is marked last when \<open>i\<close> is the last index, and segment 0 carries the options \<open>os\<close>.
  \<open>collected ps os S m\<close>: the list \<open>m\<close> holds the segments with the indices \<open>S\<close>.
\<close>

definition collected ::
  "bytes list \<Rightarrow> unyte_option list \<Rightarrow> nat set \<Rightarrow> message_segment_list \<Rightarrow> bool" where
  "collected ps os S m \<longleftrightarrow>
     msl_ok m \<and> S \<subseteq> {..<length ps} \<and>
     set (segments m) = (\<lambda>i. \<lparr>seqnum = of_nat i, content = ps ! i,
       content_size = of_nat (length (ps ! i))\<rparr>) ` S \<and>
     total_size m = (if length ps - 1 \<in> S then of_nat (length ps) else 0) \<and>
     options_head m = (if S = {} then None else Some (if 0 \<in> S then os else []))"

definition insert_nth ::
  "message_segment_list \<Rightarrow> bytes list \<Rightarrow> unyte_option list \<Rightarrow> nat \<Rightarrow>
    int \<times> message_segment_list \<times> allocs" where
  "insert_nth m ps os i =
     insert_into_msl m (of_nat i) (if Suc i = length ps then 1 else 0) (of_nat (length (ps ! i)))
       (ps ! i) (Some (if i = 0 then os else [])) []"

definition sendable :: "bytes list \<Rightarrow> bool" where
  "sendable ps \<longleftrightarrow> 0 < length ps \<and> length ps < 4294967296 \<and> length (concat ps) < 4294967296"

lemma sendable_nth:
  assumes "sendable ps" "i < length ps"
  shows "length (ps ! i) < 4294967296"
proof -
  have "length (ps ! i) \<le> length (concat ps)"
    using assms(2) by (simp add: length_concat member_le_sum_list)
  then show ?thesis using assms(1) by (simp add: sendable_def)
qed

lemma collected_new: "collected ps os {} (new_msl odid mid)"
  by (simp add: collected_def new_msl_ok) (simp add: new_msl_def)

lemma of_nat_u32_inj: "i < 4294967296 \<Longrightarrow> j < 4294967296 \<Longrightarrow> (of_nat i :: u32) = of_nat j \<longleftrightarrow> i = j"
  by (metis unat_of_nat_small[where 'a = 32, simplified])

lemma collected_seqnums:
  assumes "collected ps os S m" "sendable ps" "i < length ps"
  shows "of_nat i \<in> seqnum ` set (segments m) \<longleftrightarrow> i \<in> S"
proof -
  have "seqnum ` set (segments m) = of_nat ` S"
    using assms(1) by (auto simp: collected_def image_image)
  moreover have "j < 4294967296" if "j \<in> S" for j
    using that assms by (auto simp: collected_def sendable_def)
  moreover have "i < 4294967296" using assms by (simp add: sendable_def)
  ultimately show ?thesis by (auto simp: of_nat_u32_inj)
qed

lemma collected_inj:
  assumes "collected ps os S m" "sendable ps"
  shows "inj_on (of_nat :: nat \<Rightarrow> u32) S"
proof (rule inj_onI)
  fix x y assume xy: "x \<in> S" "y \<in> S" "(of_nat x :: u32) = of_nat y"
  have "x < length ps" "y < length ps" using assms(1) xy(1,2) by (auto simp: collected_def)
  with assms(2) xy(3) show "x = y" using of_nat_u32_inj[of x y] by (simp add: sendable_def)
qed

lemma collected_complete:
  assumes "collected ps os S m" "sendable ps"
  shows "msl_complete m \<longleftrightarrow> S = {..<length ps}"
proof -
  let ?n = "length ps"
  have n: "unat (of_nat ?n :: u32) = ?n" "0 < ?n"
    using assms(2) by (simp_all add: sendable_def unat_of_nat_small)
  have S: "S \<subseteq> {..<?n}" and srt: "sorted_wrt (<) (map seqnum (segments m))"
    and cur: "current_size m = of_nat (length (segments m))"
    using assms(1) by (simp_all add: collected_def msl_ok_def)
  have "length (segments m) = card (seqnum ` set (segments m))"
    using srt by (metis distinct_card length_map list.set_map strict_sorted_iff)
  also have "seqnum ` set (segments m) = of_nat ` S"
    using assms(1) by (auto simp: collected_def image_image)
  also have "card (of_nat ` S :: u32 set) = card S"
    by (intro card_image collected_inj[OF assms])
  finally have len: "length (segments m) = card S" .
  have le: "card S \<le> ?n" using S card_mono[of "{..<?n}" S] by simp
  have eq: "current_size m = of_nat ?n \<longleftrightarrow> card S = ?n"
    unfolding cur len using le assms(2) by (intro of_nat_u32_inj) (simp_all add: sendable_def)
  show ?thesis
  proof (cases "?n - 1 \<in> S")
    case True
    then have "total_size m = of_nat ?n" using assms(1) by (simp add: collected_def)
    moreover have "0 < (of_nat ?n :: u32)" using n by (simp add: word_less_nat_alt)
    ultimately have "msl_complete m \<longleftrightarrow> card S = ?n" using eq by (simp add: msl_complete_def)
    also have "\<dots> \<longleftrightarrow> S = {..<?n}" using S card_subset_eq[of "{..<?n}" S] by auto
    finally show ?thesis .
  next
    case False
    then have "\<not> msl_complete m" using assms(1) by (simp add: collected_def msl_complete_def)
    then show ?thesis using False n by auto
  qed
qed

lemma collected_duplicate:
  assumes c: "collected ps os S m" and "sendable ps" "i \<in> S" "Suc i = length ps \<longrightarrow> l = 1"
    "Suc i \<noteq> length ps \<longrightarrow> l = 0"
  shows "with_last m (of_nat i) l = m"
proof (cases "Suc i = length ps")
  case True
  then have "i = length ps - 1" by simp
  with assms(3) c True have "total_size m = of_nat (Suc i)" by (simp add: collected_def)
  then have "m\<lparr>total_size := of_nat i + 1\<rparr> = m" by (simp add: add.commute)
  then show ?thesis using True assms(4) by (simp add: with_last_def)
qed (use assms in \<open>simp add: with_last_def\<close>)

lemma collected_step:
  assumes c: "collected ps os S m" and ps: "sendable ps" and i: "i < length ps"
    and ins: "insert_nth m ps os i = (r, m', as')"
  shows "collected ps os (insert i S) m' \<and>
    r = (if i \<in> S then (if S = {..<length ps} then -2 else -1)
         else if insert i S = {..<length ps} then 1 else 0)"
proof -
  let ?l = "if Suc i = length ps then 1 else 0 :: int"
  let ?os = "if i = 0 then os else []"
  have ok: "msl_ok m" using c by (simp add: collected_def)
  note ins' = ins[unfolded insert_nth_def]
  show ?thesis
  proof (cases "i \<in> S")
    case True
    then have "of_nat i \<in> seqnum ` set (segments m)" using collected_seqnums[OF c ps i] by simp
    from insert_into_msl_duplicate[OF ok this, of ?l] ins'
    have "m' = with_last m (of_nat i) ?l" "r = (if msl_complete m' then -2 else -1)"
      by (auto split: if_splits)
    moreover have "with_last m (of_nat i) ?l = m"
      using collected_duplicate[OF c ps True] by simp
    ultimately show ?thesis
      using True c collected_complete[OF c ps] by (simp add: insert_absorb)
  next
    case False
    then have new: "of_nat i \<notin> seqnum ` set (segments m)" using collected_seqnums[OF c ps i] by simp
    let ?cell = "\<lparr>seqnum = of_nat i, content = ps ! i, content_size = of_nat (length (ps ! i))\<rparr>"
    let ?m = "with_segment (with_last m (of_nat i) ?l) ?cell"
    have w: "msl_ok ?m"
      using ok new sendable_nth[OF ps i] by (intro with_segment_ok) (simp_all add: unat_of_nat_small)
    obtain r0 where ap: "append_options ?m (Some ?os) [] = (r0, m', as')"
      and r: "r = (if r0 < 0 then -4 else if msl_complete m' then 1 else 0)"
      using ins' insert_into_msl_new[OF ok new _ refl, of "[]"] by (auto split: prod.splits)
    note ap' = append_options_ok[OF ap w]
    have hd: "r0 = 0" "options_head m' = Some ((case options_head m of None \<Rightarrow> [] | Some o' \<Rightarrow> o') @ ?os)"
      using ap by (auto simp: append_options_def build_message_empty_options_def with_segment_def
          split: option.splits)
    have "total_size m' = (if Suc i = length ps then of_nat i + 1 else total_size m)"
      using ap'(3) by (simp add: with_segment_def with_last_def)
    also have "\<dots> = (if length ps - 1 \<in> insert i S then of_nat (length ps) else 0)"
    proof (cases "Suc i = length ps")
      case True
      then have "length ps - 1 = i" "of_nat (length ps) = (of_nat i + 1 :: u32)"
        by (simp_all flip: True)
      then show ?thesis using True by simp
    next
      case False
      then have "length ps - 1 \<noteq> i" using i by simp
      then show ?thesis using False c by (simp add: collected_def)
    qed
    finally have total: "total_size m' = (if length ps - 1 \<in> insert i S then of_nat (length ps) else 0)" .
    have "set (segments m') = insert ?cell (set (segments m))"
      using ap'(2) by (simp add: with_segment_def set_insert_cell)
    moreover have "options_head m' = Some (if 0 \<in> insert i S then os else [])"
      using hd(2) c False by (auto simp: collected_def)
    ultimately have "collected ps os (insert i S) m'"
      using c i ap'(1) total by (simp add: collected_def)
    then show ?thesis
      using False r hd(1) collected_complete[OF _ ps] by auto
  qed
qed

lemma collected_full:
  assumes c: "collected ps os {..<length ps} m" and ps: "sendable ps"
  shows "reassemble_payload m [] = Inr (Some (concat ps), [])"
    "options_head m = Some os" "options_length m = opts_bytes os"
    "unat (total_payload_byte_size m) = length (concat ps)"
proof -
  let ?n = "length ps"
  have ok: "sorted_wrt (<) (map seqnum (segments m))" "current_size m = of_nat (length (segments m))"
    "total_payload_byte_size m = sum_list (map content_size (segments m))"
    "list_all (\<lambda>c. unat (content_size c) = length (content c)) (segments m)"
    using c by (simp_all add: collected_def msl_ok_def)
  have cells: "seqnum x = of_nat (unat (seqnum x)) \<and> unat (seqnum x) < ?n \<and>
      content x = ps ! unat (seqnum x)" if "x \<in> set (segments m)" for x
    using that c ps by (auto simp: collected_def sendable_def unat_of_nat_small)
  have srt: "sorted_wrt (<) (map (unat \<circ> seqnum) (segments m))"
    using ok(1) sorted_unat[of "map seqnum (segments m)"] by simp
  have "set (map (unat \<circ> seqnum) (segments m)) = {..<?n}"
    using c ps by (auto simp: collected_def sendable_def unat_of_nat_small image_image)
  moreover from srt have "sorted (map (unat \<circ> seqnum) (segments m))"
    "distinct (map (unat \<circ> seqnum) (segments m))"
    by (simp_all only: strict_sorted_iff)
  ultimately have ns: "map (unat \<circ> seqnum) (segments m) = [0..<?n]"
    by (intro sorted_distinct_set_unique) (simp_all add: lessThan_atLeast0)
  have "map content (segments m) = map ((!) ps) (map (unat \<circ> seqnum) (segments m))"
    using cells by simp
  then have "map content (segments m) = ps" unfolding ns by (simp add: map_nth)
  with ok(4) ps sum_sizes[OF ok(4)]
  show "reassemble_payload m [] = Inr (Some (concat ps), [])"
    "unat (total_payload_byte_size m) = length (concat ps)"
    by (simp_all add: reassemble_payload_def copy_segments_ok ok(3) sendable_def del: length_concat)
  show "options_head m = Some os" "options_length m = opts_bytes os"
    using c ps by (auto simp: collected_def sendable_def msl_ok_def)
qed

text \<open>Segments of one message arriving one after the other.\<close>

fun insert_nths ::
  "message_segment_list \<Rightarrow> bytes list \<Rightarrow> unyte_option list \<Rightarrow> nat list \<Rightarrow> int list \<times> message_segment_list"
where
  "insert_nths m ps os [] = ([], m)"
| "insert_nths m ps os (i # js) =
     (let (r, m1, _) = insert_nth m ps os i; (rs, m2) = insert_nths m1 ps os js in (r # rs, m2))"

lemma collected_steps:
  assumes "collected ps os S m" "sendable ps" "set js \<subseteq> {..<length ps}"
  shows "collected ps os (S \<union> set js) (snd (insert_nths m ps os js))"
  using assms(1,3)
proof (induction "js" arbitrary: S m)
  case Nil
  then show ?case by simp
next
  case (Cons i js)
  obtain r m1 as where i: "insert_nth m ps os i = (r, m1, as)" by (metis prod_cases3)
  have "collected ps os (insert i S) m1"
    using collected_step[OF Cons.prems(1) assms(2) _ i] Cons.prems(2) by simp
  from Cons.IH[OF this] Cons.prems(2) i show ?case by (simp add: case_prod_beta)
qed

text \<open>
  C7. The segments of a message may arrive in any order and more than once. An insertion
  reports a duplicate when the segment is already there, a complete message when it is the last
  one missing, and an incomplete message otherwise; once all are there the payload put together
  is the message, with the options of its first segment.
\<close>

theorem any_order_reassembles:
  assumes "sendable ps" and "set js \<subseteq> {..<length ps}" and "i < length ps"
    and "insert_nths (new_msl odid mid) ps os js = (rs, m)" and "insert_nth m ps os i = (r, m', as)"
  shows "r = (if i \<in> set js then (if set js = {..<length ps} then -2 else -1)
         else if insert i (set js) = {..<length ps} then 1 else 0) \<and>
    (insert i (set js) = {..<length ps} \<longrightarrow>
      reassemble_payload m' [] = Inr (Some (concat ps), []) \<and> options_head m' = Some os \<and>
      options_length m' = opts_bytes os)"
proof -
  have "collected ps os ({} \<union> set js) m"
    using collected_steps[OF collected_new assms(1,2)] assms(4) by (metis snd_conv)
  then have "collected ps os (insert i (set js)) m' \<and>
      r = (if i \<in> set js then (if set js = {..<length ps} then -2 else -1)
         else if insert i (set js) = {..<length ps} then 1 else 0)"
    using collected_step[OF _ assms(1,3,5)] by simp
  then show ?thesis using collected_full[OF _ assms(1)] by auto
qed

theorem any_order_reassembles_witness:
  "\<exists>rs m m' as. insert_nths (new_msl 7 9) [[1, 2], [3], [4, 5]] [] [2, 0, 2] = (rs, m) \<and>
     insert_nth m [[1, 2], [3], [4, 5]] [] 1 = (1, m', as) \<and>
     reassemble_payload m' [] = Inr (Some [1, 2, 3, 4, 5], [])"
proof -
  let ?ps = "[[1, 2], [3], [4, 5]] :: bytes list"
  obtain rs m where m: "insert_nths (new_msl 7 9) ?ps [] [2, 0, 2] = (rs, m)" by (metis prod.exhaust)
  obtain r m' as where m': "insert_nth m ?ps [] 1 = (r, m', as)" by (metis prod_cases3)
  have "sendable ?ps" by (simp add: sendable_def)
  moreover have "set [2, 0, 2 :: nat] \<subseteq> {..<length ?ps}" "1 < length ?ps" by auto
  moreover have "insert 1 (set [2, 0, 2 :: nat]) = {..<length ?ps}" by auto
  ultimately show ?thesis using any_order_reassembles[OF _ _ _ m m'] m m' by auto
qed

section \<open>The table as a map\<close>

definition ids :: "collision_list_cell \<Rightarrow> u32 \<times> u32" where
  "ids c = (cl_odid c, cl_mid c)"

definition message_in :: "u32 \<Rightarrow> u32 \<Rightarrow> collision_list_cell list \<Rightarrow> message_segment_list option" where
  "message_in odid mid cs = (case cells_from odid mid cs of [] \<Rightarrow> None | c # _ \<Rightarrow> cl_head c)"

definition message_at :: "segment_buffer \<Rightarrow> u32 \<Rightarrow> u32 \<Rightarrow> message_segment_list option" where
  "message_at buf odid mid = message_in odid mid (chain_at buf (unat (hashKey odid mid)))"

definition stored :: "segment_buffer \<Rightarrow> nat" where
  "stored buf = (\<Sum>i<SIZE_BUF. length (chain_at buf i))"

text \<open>
  Every message is in the bucket of its hash, once, with a segment list of its own
  identifiers, and every chain ends.
\<close>

definition cell_ok :: "nat \<Rightarrow> collision_list_cell \<Rightarrow> bool" where
  "cell_ok i c \<longleftrightarrow> unat (hashKey (cl_odid c) (cl_mid c)) = i \<and>
     (case cl_head c of None \<Rightarrow> False | Some m \<Rightarrow> msl_odid m = cl_odid c \<and> msl_mid m = cl_mid c)"

definition bucket_ok :: "nat \<Rightarrow> bucket \<Rightarrow> bool" where
  "bucket_ok i b \<longleftrightarrow> \<not> dangling b \<and> distinct (map ids (chain b)) \<and> list_all (cell_ok i) (chain b)"

definition buckets_ok :: "segment_buffer \<Rightarrow> bool" where
  "buckets_ok buf \<longleftrightarrow> (\<forall>i b. hash_array buf i = Some b \<longrightarrow> bucket_ok i b)"

lemma is_message_ids: "is_message odid mid c \<longleftrightarrow> ids c = (odid, mid)"
  by (auto simp: is_message_def ids_def)

lemma hashKey_less: "unat (hashKey odid mid) < SIZE_BUF"
  unfolding hashKey_def by (simp add: unat_mod_distrib)

lemma cells_from_Nil [simp]: "cells_from odid mid [] = []"
  by (simp add: cells_from_def)

lemma message_in_Nil [simp]: "message_in odid mid [] = None"
  by (simp add: message_in_def)

lemma message_in_Cons [simp]:
  "message_in odid mid (c # cs) = (if ids c = (odid, mid) then cl_head c else message_in odid mid cs)"
  by (simp add: message_in_def cells_from_def is_message_ids)

lemma message_in_absent: "(odid, mid) \<notin> ids ` set cs \<Longrightarrow> message_in odid mid cs = None"
  by (induction cs) auto

lemma message_in_append:
  "message_in odid mid (xs @ ys) =
    (if (odid, mid) \<in> ids ` set xs then message_in odid mid xs else message_in odid mid ys)"
  by (induction xs) auto

lemma message_at_count [simp]: "message_at (buf\<lparr>sb_count := n\<rparr>) odid mid = message_at buf odid mid"
  by (simp add: message_at_def)

lemma stored_count [simp]: "stored (buf\<lparr>sb_count := n\<rparr>) = stored buf"
  by (simp add: stored_def)

lemma buckets_ok_count [simp]: "buckets_ok (buf\<lparr>sb_count := n\<rparr>) = buckets_ok buf"
  by (simp add: buckets_ok_def)

lemma buckets_ok_set: "buckets_ok buf \<Longrightarrow> bucket_ok hk b \<Longrightarrow> buckets_ok (set_bucket hk b buf)"
  by (simp add: buckets_ok_def set_bucket_def)

lemma stored_set_bucket:
  assumes "hk < SIZE_BUF"
  shows "stored (set_bucket hk b buf) + length (chain_at buf hk) = stored buf + length (chain b)"
proof -
  have fin: "finite {..<SIZE_BUF}" and mem: "hk \<in> {..<SIZE_BUF}" using assms by simp_all
  have "(\<Sum>i\<in>{..<SIZE_BUF} - {hk}. length (chain_at (set_bucket hk b buf) i)) =
      (\<Sum>i\<in>{..<SIZE_BUF} - {hk}. length (chain_at buf i))"
    by (rule sum.cong) (auto simp: chain_at_set_bucket)
  then show ?thesis
    unfolding stored_def sum.remove[OF fin mem] by (simp add: chain_at_set_bucket)
qed

lemma bucket_ok_chain:
  assumes "buckets_ok buf"
  shows "distinct (map ids (chain_at buf i))" "list_all (cell_ok i) (chain_at buf i)"
    "\<not> dangling_at buf i"
  using assms
  by (auto simp: buckets_ok_def bucket_ok_def chain_at_def dangling_at_def split: option.splits)

section \<open>Operations on the map\<close>

lemma get_segment_list_ok:
  assumes "buckets_ok buf"
  shows "get_segment_list buf odid mid = Inr (message_at buf odid mid)"
  using bucket_ok_chain(3)[OF assms, of "unat (hashKey odid mid)"]
  by (auto simp: get_segment_list_def message_at_def message_in_def chain_at_def dangling_at_def
      split: option.splits list.splits)

lemma insert_into_msl_ids:
  assumes "insert_into_msl m num l sz cont opts as = (r, m', as')"
  shows "msl_odid m' = msl_odid m" "msl_mid m' = msl_mid m"
  using assms
  by (auto simp: insert_into_msl_def count_segment_def append_options_def case_prod_beta Let_def
      split: list.splits if_splits option.splits)

lemma chain_split:
  assumes "buckets_ok buf" "message_at buf odid mid = Some m"
  obtains b us c vs where "hash_array buf (unat (hashKey odid mid)) = Some b"
    "chain b = us @ c # vs" "ids c = (odid, mid)" "cl_head c = Some m"
    "cells_from odid mid (chain b) = c # vs" "cells_before odid mid (chain b) = us"
    "(odid, mid) \<notin> ids ` set us" "(odid, mid) \<notin> ids ` set vs"
proof -
  let ?hk = "unat (hashKey odid mid)"
  obtain b where b: "hash_array buf ?hk = Some b"
    using assms(2) by (auto simp: message_at_def chain_at_def split: option.splits)
  then have ok: "bucket_ok ?hk b" using assms(1) by (simp add: buckets_ok_def)
  have at: "message_in odid mid (chain b) = Some m"
    using assms(2) b by (simp add: message_at_def chain_at_def)
  show thesis
  proof (cases rule: chain_cases[of odid mid "chain b"])
    case absent
    then show ?thesis using at by (simp add: message_in_def)
  next
    case (found us c vs)
    have "ids c = (odid, mid)" using found(3) by (simp add: is_message_ids)
    moreover have "cl_head c = Some m" using at found(4) by (simp add: message_in_def)
    moreover have "(odid, mid) \<notin> ids ` set us" using found(2) by (auto simp: is_message_ids)
    moreover have "(odid, mid) \<notin> ids ` set vs"
      using ok found(1) calculation(1) by (auto simp: bucket_ok_def)
    ultimately show ?thesis using that[OF b found(1)] found by blast
  qed
qed


lemma absent_chain:
  assumes "buckets_ok buf" "message_at buf odid mid = None"
  shows "(odid, mid) \<notin> ids ` set (chain_at buf (unat (hashKey odid mid)))"
proof
  let ?cs = "chain_at buf (unat (hashKey odid mid))"
  assume "(odid, mid) \<in> ids ` set ?cs"
  then obtain c where c: "c \<in> set ?cs" "is_message odid mid c"
    by (auto simp: is_message_ids)
  then show False
  proof (cases rule: chain_cases[of odid mid ?cs])
    case (found us d vs)
    then have "cl_head d = None" using assms(2) by (simp add: message_at_def message_in_def)
    moreover have "cell_ok (unat (hashKey odid mid)) d"
      using bucket_ok_chain(2)[OF assms(1)] found(1) by (metis in_set_conv_decomp list_all_iff)
    ultimately show False by (simp add: cell_ok_def)
  qed auto
qed

text \<open>Replacing or adding one cell.\<close>

lemma bucket_ok_replace:
  assumes "bucket_ok i b" "chain b = us @ c # vs" "cl_head c = Some m"
    and "msl_odid m' = msl_odid m" "msl_mid m' = msl_mid m"
  shows "bucket_ok i (b\<lparr>chain := us @ c\<lparr>cl_head := Some m'\<rparr> # vs\<rparr>)"
  using assms by (simp add: bucket_ok_def cell_ok_def ids_def)

lemma ids_update [simp]: "ids (c\<lparr>cl_head := h\<rparr>) = ids c"
  by (simp add: ids_def)

text \<open>Inserting a segment when no allocation fails: the table is updated at the message only.\<close>

lemma insert_segment_present:
  assumes ok: "buckets_ok buf" and at: "message_at buf odid mid = Some m"
    and ins: "insert_into_msl m num l sz cont opts as = (r, m', as')"
  shows "\<exists>buf'. insert_segment buf odid mid num l sz cont opts as = Inr (r, buf', as') \<and>
    buckets_ok buf' \<and> stored buf' = stored buf \<and> sb_count buf' = sb_count buf \<and>
    (\<forall>o' m''. message_at buf' o' m'' = (if (o', m'') = (odid, mid) then Some m' else message_at buf o' m''))"
proof -
  let ?hk = "unat (hashKey odid mid)"
  obtain b us c vs where b: "hash_array buf ?hk = Some b" "chain b = us @ c # vs"
    "ids c = (odid, mid)" "cl_head c = Some m" "cells_from odid mid (chain b) = c # vs"
    "cells_before odid mid (chain b) = us" "(odid, mid) \<notin> ids ` set us" "(odid, mid) \<notin> ids ` set vs"
    by (rule chain_split[OF ok at])
  let ?b = "b\<lparr>chain := us @ c\<lparr>cl_head := Some m'\<rparr> # vs\<rparr>"
  have run: "insert_segment buf odid mid num l sz cont opts as = Inr (r, set_bucket ?hk ?b buf, as')"
    unfolding insert_segment_def ensure_bucket_def Let_def
    using b ins by simp
  have at_b: "chain_at buf ?hk = us @ c # vs" using b(1,2) by (simp add: chain_at_def)
  have "bucket_ok ?hk ?b"
    using ok b(1,2,4) insert_into_msl_ids[OF ins] by (intro bucket_ok_replace) (simp_all add: buckets_ok_def)
  moreover have "stored (set_bucket ?hk ?b buf) = stored buf"
    using stored_set_bucket[OF hashKey_less[of odid mid], of ?b buf] at_b by simp
  moreover have "message_at (set_bucket ?hk ?b buf) o' m'' =
      (if (o', m'') = (odid, mid) then Some m' else message_at buf o' m'')" for o' m''
    using b(3,7) at_b by (auto simp: message_at_def chain_at_set_bucket message_in_append)
  ultimately show ?thesis
    using run ok by (auto simp: buckets_ok_set) (simp add: set_bucket_def)
qed

lemma insert_segment_absent:
  assumes ok: "buckets_ok buf" and at: "message_at buf odid mid = None"
    and ins: "insert_into_msl (new_msl odid mid) num l sz cont opts [] = (r, m', as')"
  shows "\<exists>buf'. insert_segment buf odid mid num l sz cont opts [] = Inr (r, buf', as') \<and>
    buckets_ok buf' \<and> stored buf' = Suc (stored buf) \<and> sb_count buf' = sb_count buf + 1 \<and>
    (\<forall>o' m''. message_at buf' o' m'' = (if (o', m'') = (odid, mid) then Some m' else message_at buf o' m''))"
proof -
  let ?hk = "unat (hashKey odid mid)" and ?cs = "chain_at buf (unat (hashKey odid mid))"
  let ?c = "\<lparr>cl_odid = odid, cl_mid = mid, cl_head = Some m'\<rparr>"
  let ?b = "\<lparr>chain = ?cs @ [?c], dangling = False\<rparr>"
  have abs: "(odid, mid) \<notin> ids ` set ?cs" by (rule absent_chain[OF ok at])
  then have cells: "cells_from odid mid ?cs = []" "cells_before odid mid ?cs = ?cs"
    by (cases rule: chain_cases[of odid mid ?cs], auto simp: is_message_ids)+
  have run: "insert_segment buf odid mid num l sz cont opts [] =
      Inr (r, set_bucket ?hk ?b (buf\<lparr>sb_count := sb_count buf + 1\<rparr>), as')"
  proof (cases "hash_array buf ?hk")
    case None
    then have "?cs = []" by (simp add: chain_at_def)
    with None cells ins show ?thesis
      unfolding insert_segment_def ensure_bucket_def Let_def
      by (simp add: create_new_msl empty_bucket_def set_bucket_def)
  next
    case (Some b)
    then have "?cs = chain b" "\<not> dangling b"
      using ok by (simp_all add: chain_at_def buckets_ok_def bucket_ok_def)
    with Some cells ins show ?thesis
      unfolding insert_segment_def ensure_bucket_def Let_def
      by (cases b) (simp add: create_new_msl)
  qed
  have "bucket_ok ?hk ?b"
    using bucket_ok_chain[OF ok, of ?hk] abs insert_into_msl_ids[OF ins]
    by (simp add: bucket_ok_def cell_ok_def ids_def new_msl_def)
  moreover have "stored (set_bucket ?hk ?b (buf\<lparr>sb_count := sb_count buf + 1\<rparr>)) = Suc (stored buf)"
    using stored_set_bucket[OF hashKey_less[of odid mid], of ?b "buf\<lparr>sb_count := sb_count buf + 1\<rparr>"]
    by simp
  moreover have "message_at (set_bucket ?hk ?b (buf\<lparr>sb_count := sb_count buf + 1\<rparr>)) o' m'' =
      (if (o', m'') = (odid, mid) then Some m' else message_at buf o' m'')" for o' m''
    using abs
    by (auto simp: message_at_def chain_at_set_bucket message_in_append ids_def message_in_absent)
  ultimately show ?thesis
    using run ok by (auto simp: buckets_ok_set) (simp add: set_bucket_def)
qed

lemma clear_segment_list_present:
  assumes ok: "buckets_ok buf" and at: "message_at buf odid mid = Some m"
  shows "\<exists>buf'. clear_segment_list buf odid mid = Inr (0, buf') \<and> buckets_ok buf' \<and>
    Suc (stored buf') = stored buf \<and> sb_count buf' = sb_count buf \<and>
    (\<forall>o' m''. message_at buf' o' m'' = (if (o', m'') = (odid, mid) then None else message_at buf o' m''))"
proof -
  let ?hk = "unat (hashKey odid mid)"
  obtain b us c vs where b: "hash_array buf ?hk = Some b" "chain b = us @ c # vs"
    "ids c = (odid, mid)" "cl_head c = Some m" "cells_from odid mid (chain b) = c # vs"
    "cells_before odid mid (chain b) = us" "(odid, mid) \<notin> ids ` set us" "(odid, mid) \<notin> ids ` set vs"
    by (rule chain_split[OF ok at])
  let ?b = "b\<lparr>chain := us @ vs\<rparr>"
  have run: "clear_segment_list buf odid mid = Inr (0, set_bucket ?hk ?b buf)"
    unfolding clear_segment_list_def Let_def using b by simp
  have at_b: "chain_at buf ?hk = us @ c # vs" using b(1,2) by (simp add: chain_at_def)
  have "bucket_ok ?hk b" using ok b(1) by (simp add: buckets_ok_def)
  then have "bucket_ok ?hk ?b" using b(2) by (auto simp: bucket_ok_def)
  moreover have "Suc (stored (set_bucket ?hk ?b buf)) = stored buf"
    using stored_set_bucket[OF hashKey_less[of odid mid], of ?b buf] at_b by simp
  moreover have "message_at (set_bucket ?hk ?b buf) o' m'' =
      (if (o', m'') = (odid, mid) then None else message_at buf o' m'')" for o' m''
    using b(3,7,8) at_b
    by (auto simp: message_at_def chain_at_set_bucket message_in_append message_in_absent)
  ultimately show ?thesis
    using run ok by (auto simp: buckets_ok_set) (simp add: set_bucket_def)
qed

lemma clear_segment_list_absent:
  assumes ok: "buckets_ok buf" and at: "message_at buf odid mid = None"
  shows "clear_segment_list buf odid mid = Inr (-1, buf)"
proof -
  let ?cs = "chain_at buf (unat (hashKey odid mid))"
  have "cells_from odid mid ?cs = []"
    using absent_chain[OF ok at] by (cases rule: chain_cases[of odid mid ?cs]) (auto simp: is_message_ids)
  then show ?thesis
    using ok by (auto simp: clear_segment_list_def chain_at_def buckets_ok_def bucket_ok_def Let_def
        split: option.splits list.splits)
qed

section \<open>The contract of a message store\<close>

text \<open>
  What the parser relies on: inserting a segment changes one message, the way the segment list
  of that message changes, and removing a message leaves the others.
\<close>

definition known_or_new :: "message_segment_list option \<Rightarrow> u32 \<Rightarrow> u32 \<Rightarrow> message_segment_list" where
  "known_or_new m odid mid = (case m of None \<Rightarrow> new_msl odid mid | Some x \<Rightarrow> x)"

type_synonym 'b segment_insertion =
  "'b \<Rightarrow> u32 \<Rightarrow> u32 \<Rightarrow> u32 \<Rightarrow> int \<Rightarrow> u32 \<Rightarrow> bytes \<Rightarrow> unyte_option list option \<Rightarrow> allocs \<Rightarrow>
    fault + (int \<times> 'b \<times> allocs)"

text \<open>
  Segments of several messages arriving in some order: \<open>sent odid mid\<close> are the payloads and the
  options of a message, and an arrival names a message and the index of the segment.
\<close>

type_synonym arrival = "u32 \<times> u32 \<times> nat"

fun deliver_all ::
  "'b segment_insertion \<Rightarrow> (u32 \<Rightarrow> u32 \<Rightarrow> bytes list \<times> unyte_option list) \<Rightarrow> 'b \<Rightarrow> arrival list \<Rightarrow>
    fault + (int list \<times> 'b)"
where
  "deliver_all ins sent b [] = Inr ([], b)"
| "deliver_all ins sent b ((odid, mid, i) # arr) =
     (let (ps, os) = sent odid mid in
      bind_fault (ins b odid mid (of_nat i) (if Suc i = length ps then 1 else 0)
        (of_nat (length (ps ! i))) (ps ! i) (Some (if i = 0 then os else [])) []) (\<lambda>(r, b1, _).
      bind_fault (deliver_all ins sent b1 arr) (\<lambda>(rs, b2). Inr (r # rs, b2))))"

definition seen :: "arrival list \<Rightarrow> u32 \<Rightarrow> u32 \<Rightarrow> nat set" where
  "seen arr odid mid = {i. (odid, mid, i) \<in> set arr}"

text \<open>Of each message exactly the segments with the indices \<open>H odid mid\<close> are held.\<close>

definition holding ::
  "(u32 \<Rightarrow> u32 \<Rightarrow> bytes list \<times> unyte_option list) \<Rightarrow> (u32 \<Rightarrow> u32 \<Rightarrow> message_segment_list option) \<Rightarrow>
    (u32 \<Rightarrow> u32 \<Rightarrow> nat set) \<Rightarrow> bool" where
  "holding sent look H \<longleftrightarrow>
     (\<forall>odid mid. case look odid mid of
        None \<Rightarrow> H odid mid = {}
      | Some m \<Rightarrow> collected (fst (sent odid mid)) (snd (sent odid mid)) (H odid mid) m)"

definition arrivals_ok ::
  "(u32 \<Rightarrow> u32 \<Rightarrow> bytes list \<times> unyte_option list) \<Rightarrow> arrival list \<Rightarrow> bool" where
  "arrivals_ok sent arr \<longleftrightarrow>
     list_all (\<lambda>(odid, mid, i). sendable (fst (sent odid mid)) \<and> i < length (fst (sent odid mid))) arr"

lemma holding_at:
  assumes "holding sent look H"
  shows "look odid mid = None \<Longrightarrow> H odid mid = {}"
    "look odid mid = Some m \<Longrightarrow> collected (fst (sent odid mid)) (snd (sent odid mid)) (H odid mid) m"
  using assms[unfolded holding_def, rule_format, of odid mid] by simp_all

lemma holding_collected:
  "holding sent look H \<Longrightarrow>
    collected (fst (sent odid mid)) (snd (sent odid mid)) (H odid mid)
      (known_or_new (look odid mid) odid mid)"
  by (auto simp: known_or_new_def collected_new dest: holding_at split: option.splits)

locale message_store =
  fixes inv :: "'b \<Rightarrow> bool"
    and look :: "'b \<Rightarrow> u32 \<Rightarrow> u32 \<Rightarrow> message_segment_list option"
    and ins :: "'b segment_insertion"
    and remove :: "'b \<Rightarrow> u32 \<Rightarrow> u32 \<Rightarrow> fault + (int \<times> 'b)"
  assumes ins_law: "inv b \<Longrightarrow>
      insert_into_msl (known_or_new (look b odid mid) odid mid) num l sz cont opts [] = (r, m, as) \<Longrightarrow>
      \<exists>b'. ins b odid mid num l sz cont opts [] = Inr (r, b', as) \<and> inv b' \<and>
        (\<forall>o' m'. look b' o' m' = (if (o', m') = (odid, mid) then Some m else look b o' m'))"
    and remove_law: "inv b \<Longrightarrow>
      \<exists>b'. remove b odid mid = Inr (if look b odid mid = None then -1 else 0, b') \<and> inv b' \<and>
        (\<forall>o' m'. look b' o' m' = (if (o', m') = (odid, mid) then None else look b o' m'))"
begin

lemma deliver_one:
  assumes "inv b" "holding sent (look b) H" "sendable (fst (sent odid mid))"
    and "i < length (fst (sent odid mid))"
  shows "\<exists>r b' as. ins b odid mid (of_nat i) (if Suc i = length (fst (sent odid mid)) then 1 else 0)
      (of_nat (length (fst (sent odid mid) ! i))) (fst (sent odid mid) ! i)
      (Some (if i = 0 then snd (sent odid mid) else [])) [] = Inr (r, b', as) \<and>
    inv b' \<and> holding sent (look b') (\<lambda>o' m'. H o' m' \<union> seen [(odid, mid, i)] o' m')"
proof -
  let ?m = "known_or_new (look b odid mid) odid mid"
  let ?ps = "fst (sent odid mid)" and ?os = "snd (sent odid mid)"
  obtain r m as where n: "insert_nth ?m ?ps ?os i = (r, m, as)" by (metis prod_cases3)
  have c: "collected ?ps ?os (insert i (H odid mid)) m"
    using collected_step[OF holding_collected[OF assms(2)] assms(3,4) n] by simp
  obtain b' where b': "ins b odid mid (of_nat i) (if Suc i = length ?ps then 1 else 0)
      (of_nat (length (?ps ! i))) (?ps ! i) (Some (if i = 0 then ?os else [])) [] = Inr (r, b', as)"
    "inv b'" "\<forall>o' m'. look b' o' m' = (if (o', m') = (odid, mid) then Some m else look b o' m')"
    using ins_law[OF assms(1) n[unfolded insert_nth_def]] by blast
  have "holding sent (look b') (\<lambda>o' m'. H o' m' \<union> seen [(odid, mid, i)] o' m')"
    unfolding holding_def
  proof (intro allI)
    fix o' m'
    show "case look b' o' m' of None \<Rightarrow> H o' m' \<union> seen [(odid, mid, i)] o' m' = {}
      | Some x \<Rightarrow> collected (fst (sent o' m')) (snd (sent o' m')) (H o' m' \<union> seen [(odid, mid, i)] o' m') x"
    proof (cases "(o', m') = (odid, mid)")
      case True
      then show ?thesis using b'(3) c by (simp add: seen_def)
    next
      case False
      then have "seen [(odid, mid, i)] o' m' = {}" "look b' o' m' = look b o' m'"
        using b'(3) by (auto simp: seen_def)
      then show ?thesis using holding_at[OF assms(2)] by (simp split: option.split)
    qed
  qed
  with b' show ?thesis by blast
qed

lemma deliver_all_run:
  assumes "inv b" "holding sent (look b) H" "arrivals_ok sent arr"
  shows "\<exists>rs b'. deliver_all ins sent b arr = Inr (rs, b') \<and> inv b' \<and>
    holding sent (look b') (\<lambda>o' m'. H o' m' \<union> seen arr o' m')"
  using assms
proof (induction arr arbitrary: b H)
  case Nil
  then show ?case by (simp add: seen_def)
next
  case (Cons a arr)
  obtain odid mid i where a: "a = (odid, mid, i)" by (cases a) auto
  obtain ps os where s: "sent odid mid = (ps, os)" by (cases "sent odid mid")
  have arr: "sendable (fst (sent odid mid))" "i < length (fst (sent odid mid))" "arrivals_ok sent arr"
    using Cons.prems(3) a by (simp_all add: arrivals_ok_def)
  obtain r b1 as where b1: "ins b odid mid (of_nat i) (if Suc i = length ps then 1 else 0)
      (of_nat (length (ps ! i))) (ps ! i) (Some (if i = 0 then os else [])) [] = Inr (r, b1, as)"
    "inv b1" "holding sent (look b1) (\<lambda>o' m'. H o' m' \<union> seen [(odid, mid, i)] o' m')"
    using deliver_one[OF Cons.prems(1,2) arr(1,2), unfolded s fst_conv snd_conv] by blast
  have un: "H o' m' \<union> seen [(odid, mid, i)] o' m' \<union> seen arr o' m' = H o' m' \<union> seen (a # arr) o' m'"
    for o' m' by (auto simp: seen_def a)
  from Cons.IH[OF b1(2,3) arr(3)] show ?case
    unfolding un using b1(1) s by (auto simp: a)
qed

lemma message_ready:
  assumes "holding sent (look b) H" "sendable (fst (sent odid mid))"
    and "H odid mid = {..<length (fst (sent odid mid))}"
  shows "\<exists>m. look b odid mid = Some m \<and>
    reassemble_payload m [] = Inr (Some (concat (fst (sent odid mid))), []) \<and>
    options_head m = Some (snd (sent odid mid))"
proof (cases "look b odid mid")
  case None
  then have "H odid mid = {}" using holding_at(1)[OF assms(1)] by simp
  then have "0 \<notin> {..<length (fst (sent odid mid))}" using assms(3) by simp
  then show ?thesis using assms(2) by (simp add: sendable_def)
next
  case (Some m)
  then have "collected (fst (sent odid mid)) (snd (sent odid mid)) (H odid mid) m"
    using holding_at(2)[OF assms(1)] by simp
  then show ?thesis using Some collected_full[OF _ assms(2)] assms(3) by simp
qed

end

lemma insert_segment_store:
  assumes "buckets_ok b"
    and "insert_into_msl (known_or_new (message_at b odid mid) odid mid) num l sz cont opts [] = (r, m, as)"
  shows "\<exists>b'. insert_segment b odid mid num l sz cont opts [] = Inr (r, b', as) \<and> buckets_ok b' \<and>
    (\<forall>o' m'. message_at b' o' m' = (if (o', m') = (odid, mid) then Some m else message_at b o' m'))"
proof (cases "message_at b odid mid")
  case None
  then show ?thesis
    using insert_segment_absent[OF assms(1) None assms(2)[unfolded None known_or_new_def option.case]]
    by blast
next
  case (Some x)
  then show ?thesis
    using insert_segment_present[OF assms(1) Some assms(2)[unfolded Some known_or_new_def option.case]]
    by blast
qed

lemma clear_segment_list_store:
  assumes "buckets_ok b"
  shows "\<exists>b'. clear_segment_list b odid mid =
      Inr (if message_at b odid mid = None then -1 else 0, b') \<and> buckets_ok b' \<and>
    (\<forall>o' m'. message_at b' o' m' = (if (o', m') = (odid, mid) then None else message_at b o' m'))"
proof (cases "message_at b odid mid")
  case None
  then show ?thesis using clear_segment_list_absent[OF assms None] assms by auto
next
  case (Some x)
  then show ?thesis using clear_segment_list_present[OF assms Some] by auto
qed

interpretation table: message_store buckets_ok message_at insert_segment clear_segment_list
  by unfold_locales (fact insert_segment_store, fact clear_segment_list_store)


section \<open>The table keeps its messages apart\<close>

definition empty_buffer :: segment_buffer where
  "empty_buffer = \<lparr>sb_count = 0, hash_array = (\<lambda>_. None), cleanup = 0, cleanup_start_index = 0\<rparr>"

lemma create_empty_buffer: "create_segment_buffer [] = (Some empty_buffer, [])"
  by (simp add: create_segment_buffer_def empty_buffer_def)

lemma empty_buffer_simps [simp]:
  "buckets_ok empty_buffer" "message_at empty_buffer odid mid = None" "stored empty_buffer = 0"
  "sb_count empty_buffer = 0"
  by (simp_all add: buckets_ok_def message_at_def stored_def chain_at_def empty_buffer_def)

lemma insert_segment_map:
  assumes "buckets_ok buf" and "sb_count buf = of_nat (stored buf)"
    and "insert_into_msl (known_or_new (message_at buf odid mid) odid mid) num l sz cont opts []
      = (r, m, as)"
  shows "\<exists>buf'. insert_segment buf odid mid num l sz cont opts [] = Inr (r, buf', as) \<and>
    buckets_ok buf' \<and> sb_count buf' = of_nat (stored buf') \<and>
    stored buf' = stored buf + (if message_at buf odid mid = None then 1 else 0) \<and>
    message_at buf' odid mid = Some m \<and>
    (\<forall>o' m'. (o', m') \<noteq> (odid, mid) \<longrightarrow> message_at buf' o' m' = message_at buf o' m')"
proof (cases "message_at buf odid mid")
  case None
  with insert_segment_absent[OF assms(1) None assms(3)[unfolded None known_or_new_def option.case]]
    assms(2) show ?thesis by (auto simp: add.commute)
next
  case (Some x)
  with insert_segment_present[OF assms(1) Some assms(3)[unfolded Some known_or_new_def option.case]]
    assms(2) show ?thesis by auto
qed

text \<open>
  C6. Inserting a segment into the hash table, when no allocation fails, never runs into a fault
  and is an update of the map from messages to segment lists at that message: its list, or a new
  one, with the segment inserted. Every other message is untouched, the buckets stay well
  formed, and the message counter stays the number of messages.
\<close>

theorem insert_segment_refines_map:
  assumes "buckets_ok buf" and "sb_count buf = of_nat (stored buf)"
    and "insert_into_msl (known_or_new (message_at buf odid mid) odid mid) num l sz cont opts []
      = (r, m, as)"
  shows "\<exists>buf'. insert_segment buf odid mid num l sz cont opts [] = Inr (r, buf', as) \<and>
    buckets_ok buf' \<and> sb_count buf' = of_nat (stored buf') \<and>
    stored buf' = stored buf + (if message_at buf odid mid = None then 1 else 0) \<and>
    message_at buf' odid mid = Some m \<and>
    (\<forall>o' m'. (o', m') \<noteq> (odid, mid) \<longrightarrow> message_at buf' o' m' = message_at buf o' m')"
  using assms by (rule insert_segment_map)

theorem insert_segment_refines_map_witness:
  "\<exists>r buf' as m. insert_segment empty_buffer 7 9 0 0 1 [104] (Some []) [] = Inr (r, buf', as) \<and>
    sb_count buf' = of_nat (stored buf') \<and> stored buf' = 1 \<and> message_at buf' 7 9 = Some m \<and>
    message_at buf' 7 10 = None"
proof -
  obtain r m as where i: "insert_into_msl (known_or_new (message_at empty_buffer 7 9) 7 9) 0 0 1 [104]
      (Some []) [] = (r, m, as)" by (metis prod_cases3)
  from insert_segment_refines_map[OF _ _ i] show ?thesis by auto
qed

lemma clear_segment_list_map:
  assumes "buckets_ok buf"
  shows "\<exists>buf'. clear_segment_list buf odid mid =
      Inr (if message_at buf odid mid = None then -1 else 0, buf') \<and>
    buckets_ok buf' \<and> sb_count buf' = sb_count buf \<and>
    stored buf = stored buf' + (if message_at buf odid mid = None then 0 else 1) \<and>
    get_segment_list buf' odid mid = Inr None \<and>
    (\<forall>o' m'. (o', m') \<noteq> (odid, mid) \<longrightarrow> message_at buf' o' m' = message_at buf o' m')"
proof (cases "message_at buf odid mid")
  case None
  then show ?thesis
    using clear_segment_list_absent[OF assms None] assms by (simp add: get_segment_list_ok)
next
  case (Some m)
  obtain buf' where b: "clear_segment_list buf odid mid = Inr (0, buf')" "buckets_ok buf'"
    "Suc (stored buf') = stored buf" "sb_count buf' = sb_count buf"
    "\<forall>o' m''. message_at buf' o' m'' = (if (o', m'') = (odid, mid) then None else message_at buf o' m'')"
    using clear_segment_list_present[OF assms Some] by blast
  then have "get_segment_list buf' odid mid = Inr None" by (simp add: get_segment_list_ok)
  with b Some show ?thesis by auto
qed

text \<open>
  C3. Reassembly under interleaving. Segments of any number of messages, in any order and with
  repetitions, are inserted into an empty table, in which messages may share buckets: for every
  message of which all segments arrived, the table holds a list that reassembles to exactly the
  payload and the options that were sent, whatever the other messages are and however far they
  got.
\<close>

theorem interleaved_messages_reassemble:
  assumes "arrivals_ok sent arr"
  shows "\<exists>rs buf. deliver_all insert_segment sent empty_buffer arr = Inr (rs, buf) \<and>
    (\<forall>odid mid. seen arr odid mid = {..<length (fst (sent odid mid))} \<longrightarrow>
      fst (sent odid mid) \<noteq> [] \<longrightarrow>
      (\<exists>m. get_segment_list buf odid mid = Inr (Some m) \<and>
        reassemble_payload m [] = Inr (Some (concat (fst (sent odid mid))), []) \<and>
        options_head m = Some (snd (sent odid mid))))"
proof -
  have "holding sent (message_at empty_buffer) (\<lambda>_ _. {})" by (simp add: holding_def)
  from table.deliver_all_run[OF _ this assms] obtain rs buf where
    run: "deliver_all insert_segment sent empty_buffer arr = Inr (rs, buf)" "buckets_ok buf"
    "holding sent (message_at buf) (seen arr)" by auto
  have "\<exists>m. get_segment_list buf odid mid = Inr (Some m) \<and>
      reassemble_payload m [] = Inr (Some (concat (fst (sent odid mid))), []) \<and>
      options_head m = Some (snd (sent odid mid))"
    if all: "seen arr odid mid = {..<length (fst (sent odid mid))}" and ne: "fst (sent odid mid) \<noteq> []"
    for odid mid
  proof -
    have "0 \<in> seen arr odid mid" using all ne by simp
    then have "sendable (fst (sent odid mid))"
      using assms by (auto simp: seen_def arrivals_ok_def list_all_iff)
    from table.message_ready[where b = buf, OF run(3) this all] run(2) show ?thesis
      by (simp add: get_segment_list_ok)
  qed
  with run(1) show ?thesis by blast
qed

definition sample_sent_messages :: "u32 \<Rightarrow> u32 \<Rightarrow> bytes list \<times> unyte_option list" where
  "sample_sent_messages odid mid = (if odid = 7 then [[1], [2]] else [[3], [4]], [])"

theorem interleaved_messages_reassemble_witness:
  "\<exists>rs buf m. deliver_all insert_segment sample_sent_messages empty_buffer
      [(7, 9, 1), (9, 7, 0), (7, 9, 0)] = Inr (rs, buf) \<and>
    get_segment_list buf 7 9 = Inr (Some m) \<and> reassemble_payload m [] = Inr (Some [1, 2], [])"
proof -
  let ?arr = "[(7, 9, 1), (9, 7, 0), (7, 9, 0)] :: arrival list"
  have "arrivals_ok sample_sent_messages ?arr"
    by (simp add: arrivals_ok_def sample_sent_messages_def sendable_def)
  from interleaved_messages_reassemble[OF this] obtain rs buf where
    run: "deliver_all insert_segment sample_sent_messages empty_buffer ?arr = Inr (rs, buf)"
    and all: "\<And>odid mid. seen ?arr odid mid = {..<length (fst (sample_sent_messages odid mid))} \<Longrightarrow>
      fst (sample_sent_messages odid mid) \<noteq> [] \<Longrightarrow>
      \<exists>m. get_segment_list buf odid mid = Inr (Some m) \<and>
        reassemble_payload m [] = Inr (Some (concat (fst (sample_sent_messages odid mid))), [])"
    by blast
  have "seen ?arr 7 9 = {..<length (fst (sample_sent_messages 7 9))}"
    by (auto simp: seen_def sample_sent_messages_def)
  from all[OF this] run show ?thesis by (auto simp: sample_sent_messages_def)
qed

end
