(* ===== verification/Memory.thy ===== *)
theory Memory
  imports Segbuf "HOL-Library.Multiset"
begin

text \<open>
  The memory of the process at the level of allocated blocks, for the code that links blocks by
  pointers, shares them between structures and frees them. The other theories describe what the
  structures hold; here every structure is a set of blocks with addresses, and an access or a
  \<^verbatim>\<open>free\<close> through a pointer to a block that is not allocated is a fault.

  A structure is given by its values annotated with the addresses of its blocks, and by the
  multiset of the blocks that belong to it. \<open>owns m M\<close> says that the allocated blocks are exactly
  those of \<open>M\<close>, all at different addresses. The sum of multisets therefore keeps structures
  apart, an arbitrary summand is everything else in memory, and a block that no summand contains
  cannot exist: a theorem about \<open>owns\<close> excludes invalid accesses, double frees and leaks at once.
\<close>

section \<open>Blocks\<close>

text \<open>Address 0 is \<^verbatim>\<open>NULL\<close>.\<close>

type_synonym addr = nat

record option_node =
  on_type :: u8
  on_length :: u8
  on_data :: addr
  on_next :: addr

text \<open>
  A \<^verbatim>\<open>struct message_segment_list_cell\<close> is either the header cell of a list or a cell with a
  segment. Each sets only its own fields: the others are never initialised.
\<close>

record msl_head_fields =
  mh_total_size :: u32
  mh_current_size :: u32
  mh_total_payload_byte_size :: u32
  mh_odid :: u32
  mh_mid :: u32
  mh_options_head :: addr
  mh_options_tail :: addr
  mh_options_length :: u32
  mh_next :: addr
  mh_to_clean_up :: int
  mh_timestamp :: int

record msl_cell_fields =
  mc_seqnum :: u32
  mc_content :: addr
  mc_content_size :: u32
  mc_next :: addr

text \<open>The header cell of a collision list has only its \<^verbatim>\<open>next\<close>; \<open>None\<close> is a pointer not yet set.\<close>

record coll_cell_fields =
  cc_odid :: u32
  cc_mid :: u32
  cc_head :: addr
  cc_next :: "addr option"

record buffer_fields =
  bf_count :: u32
  bf_hash_array :: "nat \<Rightarrow> addr"
  bf_cleanup :: u8
  bf_cleanup_start_index :: u8

record metadata_fields =
  md_src :: addr
  md_dest :: addr

text \<open>The header with its own \<open>options\<close> not used: the pointer is next to it.\<close>

record seg_met_fields =
  sm_metadata :: addr
  sm_header :: addr
  sm_payload :: addr

datatype block =
    Raw bytes
  | Sockaddr sockaddr_storage
  | Option_Node option_node
  | Msl_Head msl_head_fields
  | Msl_Cell msl_cell_fields
  | Coll_Head "addr option"
  | Coll_Cell coll_cell_fields
  | Buffer buffer_fields
  | Header unyte_header addr
  | Metadata metadata_fields
  | Seg_Met seg_met_fields

record memory =
  blocks :: "addr \<Rightarrow> block option"
  brk :: addr
  outcomes :: allocs

section \<open>Access\<close>

text \<open>
  A new block gets an address that was never used, so that a freed address stays invalid for
  ever. It is returned with the contents the code gives it right after the allocation.
\<close>

definition new_block :: "memory \<Rightarrow> block \<Rightarrow> addr \<times> memory" where
  "new_block m b =
     (let (ok, as) = malloc (outcomes m) in
      if ok then (brk m, m\<lparr>blocks := (blocks m)(brk m := Some b), brk := brk m + 1, outcomes := as\<rparr>)
      else (0, m\<lparr>outcomes := as\<rparr>))"

definition load :: "memory \<Rightarrow> addr \<Rightarrow> fault + block" where
  "load m a =
     (case blocks m a of
        Some b \<Rightarrow> Inr b
      | None \<Rightarrow> Inl (if a = 0 then Null_Deref else Bad_Access))"

definition store :: "memory \<Rightarrow> addr \<Rightarrow> block \<Rightarrow> memory" where
  "store m a b = m\<lparr>blocks := (blocks m)(a := Some b)\<rparr>"

lemma outcomes_store [simp]: "outcomes (store m a b) = outcomes m"
  by (simp add: store_def)

definition free :: "memory \<Rightarrow> addr \<Rightarrow> fault + memory" where
  "free m a =
     (if a = 0 then Inr m
      else case blocks m a of
             None \<Rightarrow> Inl Bad_Free
           | Some _ \<Rightarrow> Inr (m\<lparr>blocks := (blocks m)(a := None)\<rparr>))"

definition node_at :: "memory \<Rightarrow> addr \<Rightarrow> fault + option_node" where
  "node_at m a = bind_fault (load m a) (\<lambda>b. case b of Option_Node n \<Rightarrow> Inr n | _ \<Rightarrow> Inl Bad_Access)"

definition msl_head_at :: "memory \<Rightarrow> addr \<Rightarrow> fault + msl_head_fields" where
  "msl_head_at m a = bind_fault (load m a) (\<lambda>b. case b of Msl_Head x \<Rightarrow> Inr x | _ \<Rightarrow> Inl Bad_Access)"

definition msl_cell_at :: "memory \<Rightarrow> addr \<Rightarrow> fault + msl_cell_fields" where
  "msl_cell_at m a = bind_fault (load m a) (\<lambda>b. case b of Msl_Cell x \<Rightarrow> Inr x | _ \<Rightarrow> Inl Bad_Access)"

definition coll_cell_at :: "memory \<Rightarrow> addr \<Rightarrow> fault + coll_cell_fields" where
  "coll_cell_at m a = bind_fault (load m a) (\<lambda>b. case b of Coll_Cell x \<Rightarrow> Inr x | _ \<Rightarrow> Inl Bad_Access)"

definition buffer_at :: "memory \<Rightarrow> addr \<Rightarrow> fault + buffer_fields" where
  "buffer_at m a = bind_fault (load m a) (\<lambda>b. case b of Buffer x \<Rightarrow> Inr x | _ \<Rightarrow> Inl Bad_Access)"

definition raw_at :: "memory \<Rightarrow> addr \<Rightarrow> fault + bytes" where
  "raw_at m a = bind_fault (load m a) (\<lambda>b. case b of Raw x \<Rightarrow> Inr x | _ \<Rightarrow> Inl Bad_Access)"

definition sockaddr_at :: "memory \<Rightarrow> addr \<Rightarrow> fault + sockaddr_storage" where
  "sockaddr_at m a = bind_fault (load m a) (\<lambda>b. case b of Sockaddr x \<Rightarrow> Inr x | _ \<Rightarrow> Inl Bad_Access)"

definition header_at :: "memory \<Rightarrow> addr \<Rightarrow> fault + (unyte_header \<times> addr)" where
  "header_at m a = bind_fault (load m a) (\<lambda>b. case b of Header x p \<Rightarrow> Inr (x, p) | _ \<Rightarrow> Inl Bad_Access)"

definition metadata_at :: "memory \<Rightarrow> addr \<Rightarrow> fault + metadata_fields" where
  "metadata_at m a = bind_fault (load m a) (\<lambda>b. case b of Metadata x \<Rightarrow> Inr x | _ \<Rightarrow> Inl Bad_Access)"

definition seg_met_at :: "memory \<Rightarrow> addr \<Rightarrow> fault + seg_met_fields" where
  "seg_met_at m a = bind_fault (load m a) (\<lambda>b. case b of Seg_Met x \<Rightarrow> Inr x | _ \<Rightarrow> Inl Bad_Access)"

lemmas at_defs =
  node_at_def msl_head_at_def msl_cell_at_def coll_cell_at_def buffer_at_def raw_at_def
  sockaddr_at_def header_at_def metadata_at_def seg_met_at_def

section \<open>Ownership\<close>

type_synonym region = "(addr \<times> block) multiset"

definition owns :: "memory \<Rightarrow> region \<Rightarrow> bool" where
  "owns m M \<longleftrightarrow>
     (\<forall>a b. blocks m a = Some b \<longleftrightarrow> (a, b) \<in># M) \<and>
     (\<forall>a. count (image_mset fst M) a \<le> 1) \<and>
     (\<forall>x \<in># M. 0 < fst x \<and> fst x < brk m) \<and> 0 < brk m"

text \<open>Bringing a block to the front of a sum.\<close>

lemmas region_ac = add_mset_commute union_assoc union_commute union_lcomm

lemma owns_mem:
  assumes "owns m M" and "(a, b) \<in># M"
  shows "blocks m a = Some b" "a \<noteq> 0" "a < brk m" "load m a = Inr b"
proof -
  show b: "blocks m a = Some b" using assms unfolding owns_def by blast
  show "a \<noteq> 0" "a < brk m" using assms unfolding owns_def by fastforce+
  show "load m a = Inr b" using b by (simp add: load_def)
qed

lemma count_fst_pos: "(a, b) \<in># M \<Longrightarrow> 0 < count (image_mset fst M) a"
  by (induction M) auto

lemma owns_apart:
  assumes "owns m (add_mset (a, b) M)"
  shows "(a, c) \<notin># M"
proof
  assume "(a, c) \<in># M"
  then have "0 < count (image_mset fst M) a" by (rule count_fst_pos)
  moreover have "count (image_mset fst (add_mset (a, b) M)) a \<le> 1"
    using assms unfolding owns_def by blast
  moreover have "count (image_mset fst (add_mset (a, b) M)) a = Suc (count (image_mset fst M) a)"
    by simp
  ultimately show False by linarith
qed

lemma owns_store:
  assumes "owns m (add_mset (a, b) M)"
  shows "owns (store m a b') (add_mset (a, b') M)"
proof -
  have "blocks (store m a b') c = Some d \<longleftrightarrow> (c, d) \<in># add_mset (a, b') M" for c d
    using assms owns_apart[OF assms, of d] unfolding owns_def store_def
    by (cases "c = a") auto
  moreover have "image_mset fst (add_mset (a, b') M) = image_mset fst (add_mset (a, b) M)" by simp
  moreover have "\<forall>x \<in># add_mset (a, b') M. 0 < fst x \<and> fst x < brk (store m a b')"
    using assms unfolding owns_def store_def by auto
  ultimately show ?thesis
    using assms unfolding owns_def by (simp add: store_def del: image_mset_add_mset)
qed

lemma count_fst_mono: "M \<subseteq># N \<Longrightarrow> count (image_mset fst M) a \<le> count (image_mset fst N) a"
  by (simp add: image_mset_subseteq_mono mset_subset_eq_count)

lemma owns_free:
  assumes "owns m (add_mset (a, b) M)"
  shows "\<exists>m'. free m a = Inr m' \<and> owns m' M \<and> outcomes m' = outcomes m"
proof -
  let ?m = "m\<lparr>blocks := (blocks m)(a := None)\<rparr>"
  have a: "blocks m a = Some b" "a \<noteq> 0" using owns_mem[OF assms, of a b] by auto
  have "blocks ?m c = Some d \<longleftrightarrow> (c, d) \<in># M" for c d
    using assms owns_apart[OF assms, of d] unfolding owns_def by (cases "c = a") auto
  moreover have "count (image_mset fst M) c \<le> 1" for c
    using assms le_trans[OF count_fst_mono[of M "add_mset (a, b) M" c]] unfolding owns_def
    by simp
  moreover have "\<forall>x \<in># M. 0 < fst x \<and> fst x < brk ?m" "0 < brk ?m"
    using assms unfolding owns_def by auto
  ultimately have "owns ?m M" unfolding owns_def by blast
  with a show ?thesis by (simp add: free_def)
qed

lemma owns_new_block:
  assumes "owns m M" and "malloc (outcomes m) = (True, as)"
  shows "\<exists>a m'. new_block m b = (a, m') \<and> a \<noteq> 0 \<and> owns m' (add_mset (a, b) M) \<and> outcomes m' = as"
proof -
  let ?m = "m\<lparr>blocks := (blocks m)(brk m := Some b), brk := brk m + 1, outcomes := as\<rparr>"
  have fresh: "(brk m, d) \<notin># M" for d using assms(1) unfolding owns_def by fastforce
  then have zero: "count (image_mset fst M) (brk m) = 0"
    by (auto simp: count_eq_zero_iff)
  have "blocks ?m c = Some d \<longleftrightarrow> (c, d) \<in># add_mset (brk m, b) M" for c d
    using assms(1) fresh[of d] unfolding owns_def by (cases "c = brk m") auto
  moreover have "count (image_mset fst (add_mset (brk m, b) M)) c \<le> 1" for c
    using assms(1) zero unfolding owns_def by (cases "c = brk m") auto
  moreover have "\<forall>x \<in># add_mset (brk m, b) M. 0 < fst x \<and> fst x < brk ?m"
    using assms(1) unfolding owns_def by auto
  ultimately have "owns ?m (add_mset (brk m, b) M)" unfolding owns_def by simp
  moreover have "brk m \<noteq> 0" using assms(1) unfolding owns_def by simp
  ultimately show ?thesis using assms(2) by (simp add: new_block_def)
qed

lemma new_block_failed:
  assumes "owns m M" and "malloc (outcomes m) = (False, as)"
  shows "new_block m b = (0, m\<lparr>outcomes := as\<rparr>)" "owns (m\<lparr>outcomes := as\<rparr>) M"
  using assms by (simp_all add: new_block_def owns_def)

lemma owns_null: "owns m M \<Longrightarrow> free m 0 = Inr m"
  by (simp add: free_def)

lemma owns_load:
  assumes "owns m M"
  shows "(a, Option_Node n) \<in># M \<Longrightarrow> node_at m a = Inr n"
    "(a, Msl_Head x) \<in># M \<Longrightarrow> msl_head_at m a = Inr x"
    "(a, Msl_Cell y) \<in># M \<Longrightarrow> msl_cell_at m a = Inr y"
    "(a, Coll_Cell z) \<in># M \<Longrightarrow> coll_cell_at m a = Inr z"
    "(a, Buffer t) \<in># M \<Longrightarrow> buffer_at m a = Inr t"
    "(a, Raw bs) \<in># M \<Longrightarrow> raw_at m a = Inr bs"
    "(a, Sockaddr s) \<in># M \<Longrightarrow> sockaddr_at m a = Inr s"
    "(a, Header h p) \<in># M \<Longrightarrow> header_at m a = Inr (h, p)"
    "(a, Metadata d) \<in># M \<Longrightarrow> metadata_at m a = Inr d"
    "(a, Seg_Met g) \<in># M \<Longrightarrow> seg_met_at m a = Inr g"
  using assms by (simp_all add: at_defs owns_mem)

text \<open>A memory with the given blocks.\<close>

definition memory_of :: "(addr \<times> block) list \<Rightarrow> allocs \<Rightarrow> memory" where
  "memory_of xs as = \<lparr>blocks = map_of xs, brk = Suc (sum_list (map fst xs)), outcomes = as\<rparr>"

lemma owns_memory_of:
  assumes "distinct (map fst xs)" and "0 \<notin> fst ` set xs"
  shows "owns (memory_of xs as) (mset xs)"
proof -
  have "count (image_mset fst (mset xs)) a \<le> 1" for a
    using assms(1) by (metis distinct_count_atmost_1 le_refl mset_map zero_le_one)
  moreover have "fst x < brk (memory_of xs as)" if "x \<in> set xs" for x
    using member_le_sum_list[of "fst x" "map fst xs"] that by (simp add: memory_of_def less_Suc_eq_le)
  moreover have "0 < fst x" if "x \<in> set xs" for x using assms(2) that by (metis gr0I imageI)
  ultimately show ?thesis
    using assms(1) unfolding owns_def by (auto simp: memory_of_def)
qed

lemma outcomes_memory_of [simp]: "outcomes (memory_of xs as) = as"
  by (simp add: memory_of_def)

section \<open>Structures that are released as a whole\<close>

text \<open>
  The contract of the functions that free a structure: given its address, they free the blocks it
  consists of and no others.
\<close>

fun release_each :: "(memory \<Rightarrow> addr \<Rightarrow> (fault + memory) option) \<Rightarrow> memory \<Rightarrow> addr list \<Rightarrow> (fault + memory) option"
where
  "release_each release m [] = Some (Inr m)"
| "release_each release m (a # as) = bind_run (release m a) (\<lambda>m1. release_each release m1 as)"

locale reclaimable =
  fixes region_of :: "'a \<Rightarrow> region"
    and address :: "'a \<Rightarrow> addr"
    and release :: "memory \<Rightarrow> addr \<Rightarrow> (fault + memory) option"
  assumes release_law: "owns m (region_of x + F) \<Longrightarrow>
      \<exists>m'. release m (address x) = Some (Inr m') \<and> owns m' F \<and> outcomes m' = outcomes m"
    and first_block: "\<exists>b. (address x, b) \<in># region_of x"
begin

text \<open>Structures that share no block are released one after the other, in any order.\<close>

lemma release_each_run:
  assumes "owns m ((\<Sum>x\<leftarrow>xs. region_of x) + F)"
  shows "\<exists>m'. release_each release m (map address xs) = Some (Inr m') \<and> owns m' F \<and> outcomes m' = outcomes m"
  using assms
proof (induction xs arbitrary: m)
  case Nil
  then show ?case by simp
next
  case (Cons x xs)
  then have "owns m (region_of x + ((\<Sum>x\<leftarrow>xs. region_of x) + F))" by (simp add: union_assoc)
  then obtain m1 where "release m (address x) = Some (Inr m1)" "outcomes m1 = outcomes m"
    "owns m1 ((\<Sum>x\<leftarrow>xs. region_of x) + F)"
    using release_law by blast
  then show ?case using Cons.IH by fastforce
qed

text \<open>What has been released is not there any more: neither to be read nor to be freed again.\<close>

lemma released_gone:
  assumes "owns m (region_of x + F)" and "release m (address x) = Some (Inr m')"
  shows "load m' (address x) = Inl Bad_Access" "free m' (address x) = Inl Bad_Free"
proof -
  obtain b R where R: "region_of x = add_mset (address x, b) R"
    using first_block multi_member_split by metis
  have o: "owns m (add_mset (address x, b) (R + F))" using assms(1) by (simp add: R)
  have "owns m' F" using release_law[OF assms(1)] assms(2) by auto
  moreover have "(address x, c) \<notin># F" for c using owns_apart[OF o, of c] by simp
  ultimately have "blocks m' (address x) = None" unfolding owns_def by (metis option.exhaust)
  moreover have "address x \<noteq> 0" using owns_mem(2)[OF o, of "address x" b] by simp
  ultimately show "load m' (address x) = Inl Bad_Access" "free m' (address x) = Inl Bad_Free"
    by (simp_all add: load_def free_def)
qed

end

end
