(* ===== verification/Memory_Messages.thy ===== *)
theory Memory_Messages
  imports Memory
begin

text \<open>
  One message in reassembly at the level of its blocks: the header cell, the cells of the segments
  with their contents, and the linked list of the options that the segments brought along. The
  operations of \<^verbatim>\<open>src/segmentation_buffer.c\<close> on it are given with every access, allocation and
  \<^verbatim>\<open>free\<close>, and shown to do on the blocks what the definitions of \<open>Segbuf\<close> do on values.
\<close>

section \<open>Operations\<close>

subsection \<open>Options\<close>

definition build_message_empty_options_mem :: "memory \<Rightarrow> addr \<times> memory" where
  "build_message_empty_options_mem m =
     new_block m (Option_Node \<lparr>on_type = 0, on_length = 0, on_data = 0, on_next = 0\<rparr>)"

text \<open>The first loop of \<^verbatim>\<open>append_options\<close>: the last node and the bytes of the options.\<close>

partial_function (option) options_walk ::
  "memory \<Rightarrow> addr \<Rightarrow> u32 \<Rightarrow> (fault + (addr \<times> u32)) option"
where
  "options_walk m tail len =
     (case node_at m tail of
        Inl e \<Rightarrow> Some (Inl e)
      | Inr n \<Rightarrow>
          if on_next n \<noteq> 0 then
            (case node_at m (on_next n) of
               Inl e \<Rightarrow> Some (Inl e)
             | Inr n' \<Rightarrow> options_walk m (on_next n) (len + ucast (on_length n')))
          else Some (Inr (tail, len)))"

declare options_walk.simps [code]

text \<open>The options list of the message is made when it is not there yet.\<close>

definition ensure_options :: "memory \<Rightarrow> addr \<Rightarrow> fault + (bool \<times> memory)" where
  "ensure_options m head =
     bind_fault (msl_head_at m head) (\<lambda>h.
     if mh_options_head h = 0 then
       (let (a, m1) = build_message_empty_options_mem m in
        if a = 0 then Inr (False, m1)
        else Inr (True, store m1 head (Msl_Head (h\<lparr>mh_options_head := a, mh_options_tail := a\<rparr>))))
     else Inr (True, m))"

text \<open>The nodes behind the header node \<open>opts\<close> go to the end of the list of the message.\<close>

definition move_options :: "memory \<Rightarrow> addr \<Rightarrow> addr \<Rightarrow> addr \<Rightarrow> u32 \<Rightarrow> fault + memory" where
  "move_options m head opts tail len =
     bind_fault (node_at m opts) (\<lambda>n.
     bind_fault
       (if on_next n \<noteq> 0 then
          bind_fault (msl_head_at m head) (\<lambda>h.
          bind_fault (node_at m (mh_options_tail h)) (\<lambda>t.
          let m1 = store m (mh_options_tail h) (Option_Node (t\<lparr>on_next := on_next n\<rparr>));
              m2 = store m1 head (Msl_Head (h\<lparr>mh_options_tail := tail\<rparr>)) in
          bind_fault (node_at m2 opts) (\<lambda>n2.
          Inr (store m2 opts (Option_Node (n2\<lparr>on_next := 0\<rparr>))))))
        else Inr m) (\<lambda>m3.
     bind_fault (msl_head_at m3 head) (\<lambda>h.
     Inr (store m3 head (Msl_Head (h\<lparr>mh_options_length := mh_options_length h + len\<rparr>))))))"

definition append_options_mem :: "memory \<Rightarrow> addr \<Rightarrow> addr \<Rightarrow> (fault + (int \<times> memory)) option" where
  "append_options_mem m head opts =
     (if head = 0 then Some (Inr (-1, m))
      else if opts = 0 then Some (Inr (-2, m))
      else
        bind_run (options_walk m opts 0) (\<lambda>(tail, len).
        bind_run (Some (ensure_options m head)) (\<lambda>(ok, m1).
        if \<not> ok then Some (Inr (-3, m1))
        else bind_run (Some (move_options m1 head opts tail len)) (\<lambda>m2. Some (Inr (0, m2))))))"

subsection \<open>Segments\<close>

definition msl_next_at :: "memory \<Rightarrow> addr \<Rightarrow> fault + addr" where
  "msl_next_at m a =
     bind_fault (load m a) (\<lambda>b. case b of
         Msl_Head h \<Rightarrow> Inr (mh_next h)
       | Msl_Cell c \<Rightarrow> Inr (mc_next c)
       | _ \<Rightarrow> Inl Bad_Access)"

definition set_msl_next :: "memory \<Rightarrow> addr \<Rightarrow> addr \<Rightarrow> fault + memory" where
  "set_msl_next m a p =
     bind_fault (load m a) (\<lambda>b. case b of
         Msl_Head h \<Rightarrow> Inr (store m a (Msl_Head (h\<lparr>mh_next := p\<rparr>)))
       | Msl_Cell c \<Rightarrow> Inr (store m a (Msl_Cell (c\<lparr>mc_next := p\<rparr>)))
       | _ \<Rightarrow> Inl Bad_Access)"

text \<open>The search for the insert location.\<close>

partial_function (option) msl_find :: "memory \<Rightarrow> addr \<Rightarrow> u32 \<Rightarrow> (fault + addr) option" where
  "msl_find m cur num =
     (case msl_next_at m cur of
        Inl e \<Rightarrow> Some (Inl e)
      | Inr nx \<Rightarrow>
          if nx = 0 then Some (Inr cur)
          else
            (case msl_cell_at m nx of
               Inl e \<Rightarrow> Some (Inl e)
             | Inr c \<Rightarrow> if mc_seqnum c < num then msl_find m nx num else Some (Inr cur)))"

declare msl_find.simps [code]

definition head_complete :: "msl_head_fields \<Rightarrow> bool" where
  "head_complete h \<longleftrightarrow> mh_total_size h > 0 \<and> mh_current_size h = mh_total_size h"

definition count_segment_mem ::
  "memory \<Rightarrow> addr \<Rightarrow> u32 \<Rightarrow> addr \<Rightarrow> (fault + (int \<times> memory)) option" where
  "count_segment_mem m head payload_size opts =
     bind_run (Some (msl_head_at m head)) (\<lambda>h.
     let m1 = store m head (Msl_Head (h\<lparr>mh_current_size := mh_current_size h + 1,
                mh_total_payload_byte_size := mh_total_payload_byte_size h + payload_size\<rparr>)) in
     bind_run (append_options_mem m1 head opts) (\<lambda>(r, m2).
     if r < 0 then Some (Inr (-4, m2))
     else
       bind_run (Some (msl_head_at m2 head)) (\<lambda>h2.
       Some (Inr (if head_complete h2 then 1 else 0, m2)))))"

text \<open>A new cell between \<open>cur\<close> and \<open>nx\<close>; the pointer is overwritten before it is checked.\<close>

definition link_segment ::
  "memory \<Rightarrow> addr \<Rightarrow> addr \<Rightarrow> addr \<Rightarrow> u32 \<Rightarrow> u32 \<Rightarrow> addr \<Rightarrow> addr \<Rightarrow>
    (fault + (int \<times> memory)) option" where
  "link_segment m head cur nx num payload_size cont opts =
     (let (a, m1) = new_block m (Msl_Cell \<lparr>mc_seqnum = num, mc_content = cont,
                                           mc_content_size = payload_size, mc_next = nx\<rparr>) in
      bind_run (Some (set_msl_next m1 cur a)) (\<lambda>m2.
      if a = 0 then Some (Inr (-3, m2))
      else count_segment_mem m2 head payload_size opts))"

definition insert_into_msl_mem ::
  "memory \<Rightarrow> addr \<Rightarrow> u32 \<Rightarrow> int \<Rightarrow> u32 \<Rightarrow> addr \<Rightarrow> addr \<Rightarrow> (fault + (int \<times> memory)) option" where
  "insert_into_msl_mem m head num is_last payload_size cont opts =
     bind_run
       (if is_last = 1 then
          bind_run (Some (msl_head_at m head)) (\<lambda>h.
          Some (Inr (store m head (Msl_Head (h\<lparr>mh_total_size := num + 1\<rparr>)))))
        else Some (Inr m)) (\<lambda>m1.
     bind_run (msl_find m1 head num) (\<lambda>cur.
     bind_run (Some (msl_next_at m1 cur)) (\<lambda>nx.
     if nx = 0 then link_segment m1 head cur 0 num payload_size cont opts
     else
       bind_run (Some (msl_cell_at m1 nx)) (\<lambda>c.
       if mc_seqnum c = num then
         bind_run (Some (msl_head_at m1 head)) (\<lambda>h.
         Some (Inr (if head_complete h then -2 else -1, m1)))
       else link_segment m1 head cur nx num payload_size cont opts))))"

definition create_message_segment_list_mem :: "memory \<Rightarrow> u32 \<Rightarrow> u32 \<Rightarrow> addr \<times> memory" where
  "create_message_segment_list_mem m odid mid =
     new_block m (Msl_Head \<lparr>mh_total_size = 0, mh_current_size = 0, mh_total_payload_byte_size = 0,
       mh_odid = odid, mh_mid = mid, mh_options_head = 0, mh_options_tail = 0,
       mh_options_length = 0, mh_next = 0, mh_to_clean_up = 0, mh_timestamp = 0\<rparr>)"

text \<open>
  The loop of \<^verbatim>\<open>reassemble_payload\<close> over the cells after \<open>temp\<close>, with the bytes written so far
  to a block of \<open>limit\<close> bytes.
\<close>

partial_function (option) copy_cells ::
  "memory \<Rightarrow> addr \<Rightarrow> nat \<Rightarrow> bytes \<Rightarrow> (fault + bytes) option"
where
  "copy_cells m temp limit written =
     (case msl_next_at m temp of
        Inl e \<Rightarrow> Some (Inl e)
      | Inr nx \<Rightarrow>
          if nx = 0 then Some (Inr written)
          else
            (case msl_cell_at m nx of
               Inl e \<Rightarrow> Some (Inl e)
             | Inr c \<Rightarrow>
                 (case bind_fault (raw_at m (mc_content c))
                         (\<lambda>bs. read_range bs 0 (unat (mc_content_size c))) of
                    Inl e \<Rightarrow> Some (Inl e)
                  | Inr bs \<Rightarrow>
                      if length written + length bs \<le> limit
                      then copy_cells m nx limit (written @ bs)
                      else Some (Inl Out_Of_Bounds))))"

declare copy_cells.simps [code]

definition reassemble_payload_mem :: "memory \<Rightarrow> addr \<Rightarrow> (fault + (addr \<times> memory)) option" where
  "reassemble_payload_mem m msg_seg_list =
     bind_run (Some (msl_head_at m msg_seg_list)) (\<lambda>h.
     let (a, m1) = new_block m (Raw []) in
     if a = 0 then Some (Inr (0, m1))
     else
       bind_run (copy_cells m1 msg_seg_list (unat (mh_total_payload_byte_size h)) []) (\<lambda>bs.
       Some (Inr (a, store m1 a (Raw bs)))))"

subsection \<open>Freeing\<close>

text \<open>The loop over the option nodes, in \<^verbatim>\<open>clear_msl\<close> and in \<^verbatim>\<open>unyte_udp_free_options\<close>.\<close>

partial_function (option) free_option_nodes :: "memory \<Rightarrow> addr \<Rightarrow> (fault + memory) option" where
  "free_option_nodes m cur =
     (if cur = 0 then Some (Inr m)
      else
        (case bind_fault (node_at m cur) (\<lambda>n.
              bind_fault (free m (on_data n)) (\<lambda>m1.
              bind_fault (node_at m1 cur) (\<lambda>n1.
              bind_fault (free m1 cur) (\<lambda>m2. Inr (on_next n1, m2))))) of
           Inl e \<Rightarrow> Some (Inl e)
         | Inr r \<Rightarrow> free_option_nodes (snd r) (fst r)))"

declare free_option_nodes.simps [code]

partial_function (option) free_cells :: "memory \<Rightarrow> addr \<Rightarrow> (fault + memory) option" where
  "free_cells m cur =
     (if cur = 0 then Some (Inr m)
      else
        (case bind_fault (msl_cell_at m cur) (\<lambda>c.
              bind_fault (free m (mc_content c)) (\<lambda>m1.
              bind_fault (free m1 cur) (\<lambda>m2. Inr (mc_next c, m2)))) of
           Inl e \<Rightarrow> Some (Inl e)
         | Inr r \<Rightarrow> free_cells (snd r) (fst r)))"

declare free_cells.simps [code]

definition clear_msl_mem :: "memory \<Rightarrow> addr \<Rightarrow> (fault + memory) option" where
  "clear_msl_mem m head =
     bind_run (Some (msl_head_at m head)) (\<lambda>h.
     bind_run (free_cells m (mh_next h)) (\<lambda>m1.
     bind_run (Some (msl_head_at m1 head)) (\<lambda>h1.
     let head_opt = mh_options_head h1 in
     bind_run
       (if head_opt \<noteq> 0 then
          bind_run (Some (node_at m1 head_opt)) (\<lambda>n.
          bind_run (free_option_nodes m1 (on_next n)) (\<lambda>m2. Some (free m2 head_opt)))
        else Some (Inr m1)) (\<lambda>m3. Some (free m3 head)))))"

section \<open>Annotated structures\<close>

text \<open>Values with the addresses of their blocks: of the node or cell, and of its data.\<close>

type_synonym a_option = "addr \<times> addr \<times> unyte_option"
type_synonym a_cell = "addr \<times> addr \<times> segment_cell"

definition first_addr :: "(addr \<times> 'a) list \<Rightarrow> addr \<Rightarrow> addr" where
  "first_addr xs q = (case xs of [] \<Rightarrow> q | x # _ \<Rightarrow> fst x)"

definition last_addr :: "addr \<Rightarrow> (addr \<times> 'a) list \<Rightarrow> addr" where
  "last_addr p xs = (if xs = [] then p else fst (last xs))"

definition vals :: "(addr \<times> addr \<times> 'a) list \<Rightarrow> 'a list" where
  "vals xs = map (snd \<circ> snd) xs"

text \<open>The nodes of a list of options, the last of which points to \<open>q\<close>.\<close>

primrec option_blocks :: "a_option list \<Rightarrow> addr \<Rightarrow> region" where
  "option_blocks [] q = {#}"
| "option_blocks (x # xs) q =
     add_mset (fst x, Option_Node \<lparr>on_type = opt_type (snd (snd x)), on_length = opt_length (snd (snd x)),
                                   on_data = fst (snd x), on_next = first_addr xs q\<rparr>)
       (add_mset (fst (snd x), Raw (opt_data (snd (snd x)))) (option_blocks xs q))"

definition head_node :: "addr \<Rightarrow> block" where
  "head_node p = Option_Node \<lparr>on_type = 0, on_length = 0, on_data = 0, on_next = p\<rparr>"

definition option_list_blocks :: "addr \<Rightarrow> a_option list \<Rightarrow> region" where
  "option_list_blocks p xs = add_mset (p, head_node (first_addr xs 0)) (option_blocks xs 0)"

primrec cell_blocks :: "a_cell list \<Rightarrow> addr \<Rightarrow> region" where
  "cell_blocks [] q = {#}"
| "cell_blocks (x # xs) q =
     add_mset (fst x, Msl_Cell \<lparr>mc_seqnum = seqnum (snd (snd x)), mc_content = fst (snd x),
                                mc_content_size = content_size (snd (snd x)), mc_next = first_addr xs q\<rparr>)
       (add_mset (fst (snd x), Raw (content (snd (snd x)))) (cell_blocks xs q))"

text \<open>
  A message: the fields of its header cell (segments and options are not read), its cells, and
  its options with the address of their header node.
\<close>

record a_message =
  am_addr :: addr
  am_fields :: message_segment_list
  am_cells :: "a_cell list"
  am_options :: "(addr \<times> a_option list) option"
  am_tail :: addr

text \<open>
  \<^verbatim>\<open>options_tail\<close> points to the last node of the options, except between the hand-over of the
  options of a complete message and the clearing of the message.
\<close>

definition tail_ok :: "a_message \<Rightarrow> bool" where
  "tail_ok am \<longleftrightarrow> am_tail am = (case am_options am of None \<Rightarrow> 0 | Some (p, xs) \<Rightarrow> last_addr p xs)"

definition head_fields :: "a_message \<Rightarrow> msl_head_fields" where
  "head_fields am =
     \<lparr>mh_total_size = total_size (am_fields am), mh_current_size = current_size (am_fields am),
      mh_total_payload_byte_size = total_payload_byte_size (am_fields am),
      mh_odid = msl_odid (am_fields am), mh_mid = msl_mid (am_fields am),
      mh_options_head = (case am_options am of None \<Rightarrow> 0 | Some (p, xs) \<Rightarrow> p),
      mh_options_tail = am_tail am,
      mh_options_length = options_length (am_fields am), mh_next = first_addr (am_cells am) 0,
      mh_to_clean_up = to_clean_up (am_fields am), mh_timestamp = timestamp (am_fields am)\<rparr>"

definition am_option_blocks :: "a_message \<Rightarrow> region" where
  "am_option_blocks am =
     (case am_options am of None \<Rightarrow> {#} | Some (p, xs) \<Rightarrow> option_list_blocks p xs)"

definition message_blocks :: "a_message \<Rightarrow> region" where
  "message_blocks am =
     add_mset (am_addr am, Msl_Head (head_fields am)) (cell_blocks (am_cells am) 0 + am_option_blocks am)"

text \<open>The message as the other theories see it.\<close>

definition list_value :: "a_message \<Rightarrow> message_segment_list" where
  "list_value am = (am_fields am)\<lparr>segments := vals (am_cells am),
     options_head := map_option (\<lambda>(p, xs). vals xs) (am_options am)\<rparr>"

lemma first_addr_simps [simp]:
  "first_addr [] q = q" "first_addr (x # xs) q = fst x"
  by (simp_all add: first_addr_def)

lemma last_addr_simps [simp]:
  "last_addr p [] = p" "last_addr p (x # xs) = last_addr (fst x) xs"
  by (simp_all add: last_addr_def)

lemma vals_simps [simp]:
  "vals [] = []" "vals (x # xs) = snd (snd x) # vals xs" "vals (xs @ ys) = vals xs @ vals ys"
  by (simp_all add: vals_def)

lemma first_addr_append [simp]: "first_addr (xs @ ys) q = first_addr xs (first_addr ys q)"
  by (cases xs) simp_all

lemma last_addr_append [simp]: "last_addr p (xs @ ys) = last_addr (last_addr p xs) ys"
  by (induction xs arbitrary: p) simp_all

lemma option_blocks_append [simp]:
  "option_blocks (xs @ ys) q = option_blocks xs (first_addr ys q) + option_blocks ys q"
  by (induction xs) simp_all

lemma cell_blocks_append [simp]:
  "cell_blocks (xs @ ys) q = cell_blocks xs (first_addr ys q) + cell_blocks ys q"
  by (induction xs) simp_all

section \<open>Freeing\<close>

lemma free_option_nodes_run:
  assumes "owns m (option_blocks xs 0 + F)"
  shows "\<exists>m'. free_option_nodes m (first_addr xs 0) = Some (Inr m') \<and> owns m' F \<and>
    outcomes m' = outcomes m"
  using assms
proof (induction xs arbitrary: m)
  case Nil
  then show ?case by (simp add: free_option_nodes.simps)
next
  case (Cons x xs)
  let ?n = "\<lparr>on_type = opt_type (snd (snd x)), on_length = opt_length (snd (snd x)),
              on_data = fst (snd x), on_next = first_addr xs 0\<rparr>"
  let ?d = "(fst (snd x), Raw (opt_data (snd (snd x))))"
  let ?R = "option_blocks xs 0 + F"
  have o: "owns m (add_mset ?d (add_mset (fst x, Option_Node ?n) ?R))"
    using Cons.prems by (simp add: add_mset_commute)
  obtain m1 where m1: "free m (fst (snd x)) = Inr m1"
    "owns m1 (add_mset (fst x, Option_Node ?n) ?R)" "outcomes m1 = outcomes m"
    using owns_free[OF o] by blast
  obtain m2 where m2: "free m1 (fst x) = Inr m2" "owns m2 ?R" "outcomes m2 = outcomes m1"
    using owns_free[OF m1(2)] by blast
  obtain m' where m': "free_option_nodes m2 (first_addr xs 0) = Some (Inr m')" "owns m' F"
    "outcomes m' = outcomes m2"
    using Cons.IH[OF m2(2)] by blast
  have "node_at m (fst x) = Inr ?n" "node_at m1 (fst x) = Inr ?n" "fst x \<noteq> 0"
    using owns_load(1)[OF o, of "fst x" ?n] owns_load(1)[OF m1(2), of "fst x" ?n]
      owns_mem(2)[OF o, of "fst x" "Option_Node ?n"] by simp_all
  then have "free_option_nodes m (first_addr (x # xs) 0) = Some (Inr m')"
    using m1(1) m2(1) m'(1) by (subst free_option_nodes.simps) simp
  with m' m1(3) m2(3) show ?case by auto
qed

lemma free_cells_run:
  assumes "owns m (cell_blocks xs 0 + F)"
  shows "\<exists>m'. free_cells m (first_addr xs 0) = Some (Inr m') \<and> owns m' F \<and> outcomes m' = outcomes m"
  using assms
proof (induction xs arbitrary: m)
  case Nil
  then show ?case by (simp add: free_cells.simps)
next
  case (Cons x xs)
  let ?n = "\<lparr>mc_seqnum = seqnum (snd (snd x)), mc_content = fst (snd x),
              mc_content_size = content_size (snd (snd x)), mc_next = first_addr xs 0\<rparr>"
  let ?d = "(fst (snd x), Raw (content (snd (snd x))))"
  let ?R = "cell_blocks xs 0 + F"
  have o: "owns m (add_mset ?d (add_mset (fst x, Msl_Cell ?n) ?R))"
    using Cons.prems by (simp add: add_mset_commute)
  obtain m1 where m1: "free m (fst (snd x)) = Inr m1"
    "owns m1 (add_mset (fst x, Msl_Cell ?n) ?R)" "outcomes m1 = outcomes m"
    using owns_free[OF o] by blast
  obtain m2 where m2: "free m1 (fst x) = Inr m2" "owns m2 ?R" "outcomes m2 = outcomes m1"
    using owns_free[OF m1(2)] by blast
  obtain m' where m': "free_cells m2 (first_addr xs 0) = Some (Inr m')" "owns m' F"
    "outcomes m' = outcomes m2"
    using Cons.IH[OF m2(2)] by blast
  have "msl_cell_at m (fst x) = Inr ?n" "fst x \<noteq> 0"
    using owns_load(3)[OF o, of "fst x" ?n] owns_mem(2)[OF o, of "fst x" "Msl_Cell ?n"] by simp_all
  then have "free_cells m (first_addr (x # xs) 0) = Some (Inr m')"
    using m1(1) m2(1) m'(1) by (subst free_cells.simps) simp
  with m' m1(3) m2(3) show ?case by auto
qed

text \<open>A list of options with its header node, freed as \<^verbatim>\<open>unyte_udp_free_options\<close> does.\<close>

lemma free_option_list_run:
  assumes "owns m (option_list_blocks p xs + F)"
  shows "\<exists>m1 m'. node_at m p = Inr \<lparr>on_type = 0, on_length = 0, on_data = 0, on_next = first_addr xs 0\<rparr> \<and>
    free_option_nodes m (first_addr xs 0) = Some (Inr m1) \<and> free m1 p = Inr m' \<and> owns m' F \<and>
    outcomes m' = outcomes m"
proof -
  have o: "owns m (option_blocks xs 0 + add_mset (p, head_node (first_addr xs 0)) F)"
    using assms by (simp add: option_list_blocks_def)
  obtain m1 where m1: "free_option_nodes m (first_addr xs 0) = Some (Inr m1)"
    "owns m1 (add_mset (p, head_node (first_addr xs 0)) F)" "outcomes m1 = outcomes m"
    using free_option_nodes_run[OF o] by blast
  obtain m' where m': "free m1 p = Inr m'" "owns m' F" "outcomes m' = outcomes m1"
    using owns_free[OF m1(2)] by blast
  show ?thesis
    using owns_load(1)[OF o, of p] m1 m' by (auto simp: head_node_def)
qed

lemma clear_msl_run:
  assumes "owns m (message_blocks am + F)"
  shows "\<exists>m'. clear_msl_mem m (am_addr am) = Some (Inr m') \<and> owns m' F \<and> outcomes m' = outcomes m"
proof -
  let ?h = "head_fields am"
  let ?H = "(am_addr am, Msl_Head ?h)"
  have o: "owns m (cell_blocks (am_cells am) 0 + add_mset ?H (am_option_blocks am + F))"
    using assms by (simp add: message_blocks_def region_ac)
  have h: "mh_next ?h = first_addr (am_cells am) 0"
    "mh_options_head ?h = (case am_options am of None \<Rightarrow> 0 | Some (p, xs) \<Rightarrow> p)"
    by (simp_all add: head_fields_def)
  obtain m1 where m1: "free_cells m (first_addr (am_cells am) 0) = Some (Inr m1)"
    "owns m1 (add_mset ?H (am_option_blocks am + F))" "outcomes m1 = outcomes m"
    using free_cells_run[OF o] by blast
  have at: "msl_head_at m (am_addr am) = Inr ?h" "msl_head_at m1 (am_addr am) = Inr ?h"
    using owns_load(2)[OF o, of "am_addr am" ?h] owns_load(2)[OF m1(2), of "am_addr am" ?h]
    by simp_all
  show ?thesis
  proof (cases "am_options am")
    case None
    then have "owns m1 (add_mset ?H F)" using m1(2) by (simp add: am_option_blocks_def)
    from owns_free[OF this] show ?thesis
      using m1 at h None by (auto simp: clear_msl_mem_def)
  next
    case (Some q)
    obtain p xs where q: "q = (p, xs)" by (cases q)
    have o1: "owns m1 (option_list_blocks p xs + add_mset ?H F)"
      using m1(2) Some q by (simp add: am_option_blocks_def region_ac)
    obtain m2 m3 where m3: "free_option_nodes m1 (first_addr xs 0) = Some (Inr m2)" "free m2 p = Inr m3"
      "node_at m1 p = Inr \<lparr>on_type = 0, on_length = 0, on_data = 0, on_next = first_addr xs 0\<rparr>"
      "owns m3 (add_mset ?H F)" "outcomes m3 = outcomes m1"
      using free_option_list_run[OF o1] by blast
    have "p \<noteq> 0" using owns_mem(2)[OF o1, of p "head_node (first_addr xs 0)"]
      by (simp add: option_list_blocks_def)
    with owns_free[OF m3(4)] show ?thesis
      using m1 at h Some q m3 by (auto simp: clear_msl_mem_def)
  qed
qed

interpretation msl: reclaimable message_blocks am_addr clear_msl_mem
proof
  show "\<exists>m'. clear_msl_mem m (am_addr x) = Some (Inr m') \<and> owns m' F \<and> outcomes m' = outcomes m"
    if "owns m (message_blocks x + F)" for m x F
    by (rule clear_msl_run[OF that])
  show "\<exists>b. (am_addr x, b) \<in># message_blocks x" for x
    by (auto simp: message_blocks_def)
qed

section \<open>Taking over the options\<close>

lemma options_walk_run:
  assumes "owns m M" and "(p, Option_Node n) \<in># M" and "on_next n = first_addr xs 0"
    and "set_mset (option_blocks xs 0) \<subseteq> set_mset M"
  shows "options_walk m p len = Some (Inr (last_addr p xs, len + opts_bytes (vals xs)))"
  using assms(2-)
proof (induction xs arbitrary: p n len)
  case Nil
  then show ?case using owns_load(1)[OF assms(1) Nil(1)] by (simp add: options_walk.simps)
next
  case (Cons x xs)
  let ?n = "\<lparr>on_type = opt_type (snd (snd x)), on_length = opt_length (snd (snd x)),
              on_data = fst (snd x), on_next = first_addr xs 0\<rparr>"
  have x: "(fst x, Option_Node ?n) \<in># M" using Cons.prems(3) by simp
  have "options_walk m (fst x) (len + ucast (on_length ?n)) =
      Some (Inr (last_addr (fst x) xs, len + ucast (on_length ?n) + opts_bytes (vals xs)))"
    using Cons.prems(3) by (intro Cons.IH[OF x]) simp_all
  moreover have "node_at m p = Inr n" "node_at m (fst x) = Inr ?n" "fst x \<noteq> 0"
    using owns_load(1)[OF assms(1)] Cons.prems(1) x owns_mem(2)[OF assms(1) x] by simp_all
  ultimately show ?case
    using Cons.prems(2) by (subst options_walk.simps) (simp add: add.assoc)
qed

text \<open>The message with a list of options.\<close>

definition with_options :: "a_message \<Rightarrow> addr \<Rightarrow> a_option list \<Rightarrow> u32 \<Rightarrow> a_message" where
  "with_options am p xs len =
     am\<lparr>am_options := Some (p, xs), am_tail := last_addr p xs,
        am_fields := (am_fields am)\<lparr>options_length := len\<rparr>\<rparr>"

lemma ensure_options_run:
  assumes "owns m (message_blocks am + F)" and "tail_ok am"
    and "am_options am = None \<Longrightarrow> fst (malloc (outcomes m))"
  shows "\<exists>p xs m'. ensure_options m (am_addr am) = Inr (True, m') \<and>
    owns m' (message_blocks (am\<lparr>am_options := Some (p, xs), am_tail := last_addr p xs\<rparr>) + F) \<and>
    (am_options am = None \<and> xs = [] \<and> outcomes m' = snd (malloc (outcomes m)) \<or>
     am_options am = Some (p, xs) \<and> outcomes m' = outcomes m)"
proof -
  let ?h = "head_fields am"
  have h: "mh_options_head ?h = (case am_options am of None \<Rightarrow> 0 | Some (p, xs) \<Rightarrow> p)"
    by (simp add: head_fields_def)
  have at: "msl_head_at m (am_addr am) = Inr ?h"
    using owns_load(2)[OF assms(1), of "am_addr am" ?h] by (simp add: message_blocks_def)
  show ?thesis
  proof (cases "am_options am")
    case (Some q)
    obtain p xs where q: "q = (p, xs)" by (cases q)
    have "p \<noteq> 0" using owns_mem(2)[OF assms(1), of p "head_node (first_addr xs 0)"] Some q
      by (simp add: message_blocks_def am_option_blocks_def option_list_blocks_def)
    then have "ensure_options m (am_addr am) = Inr (True, m)"
      using at h Some q by (simp add: ensure_options_def)
    moreover have "am\<lparr>am_options := Some (p, xs), am_tail := last_addr p xs\<rparr> = am" using Some q assms(2) by (cases am) (simp add: tail_ok_def)
    then have "owns m (message_blocks (am\<lparr>am_options := Some (p, xs), am_tail := last_addr p xs\<rparr>) + F)"
      using assms(1) by (simp only:)
    ultimately show ?thesis
      using Some q by (intro exI[of _ p] exI[of _ xs] exI[of _ m]) simp
  next
    case None
    let ?e = "\<lparr>on_type = 0, on_length = 0, on_data = 0, on_next = 0\<rparr>"
    obtain as where as: "malloc (outcomes m) = (True, as)"
      using assms(3)[OF None] by (cases "malloc (outcomes m)") auto
    obtain p m1 where m1: "new_block m (Option_Node ?e) = (p, m1)" "p \<noteq> 0"
      "owns m1 (add_mset (p, Option_Node ?e) (message_blocks am + F))" "outcomes m1 = as"
      using owns_new_block[OF assms(1) as, of "Option_Node ?e"] by blast
    let ?am = "am\<lparr>am_options := Some (p, []), am_tail := p\<rparr>"
    let ?m = "store m1 (am_addr am) (Msl_Head (head_fields ?am))"
    have "owns m1 (add_mset (am_addr am, Msl_Head ?h)
        (add_mset (p, head_node 0) (cell_blocks (am_cells am) 0 + F)))"
      using m1(3) None
      by (simp add: message_blocks_def am_option_blocks_def head_node_def add_mset_commute)
    from owns_store[OF this, of "Msl_Head (head_fields ?am)"]
    have "owns ?m (message_blocks ?am + F)"
      by (simp add: message_blocks_def am_option_blocks_def option_list_blocks_def add_mset_commute)
    moreover have "head_fields ?am = ?h\<lparr>mh_options_head := p, mh_options_tail := p\<rparr>"
      by (simp add: head_fields_def)
    then have "ensure_options m (am_addr am) = Inr (True, ?m)"
      using at h None m1 by (simp add: ensure_options_def build_message_empty_options_mem_def)
    ultimately show ?thesis
      using None as m1(4) by (intro exI[of _ p] exI[of _ "[]"] exI[of _ ?m]) simp
  qed
qed

lemma option_list_last:
  "\<exists>n R. \<forall>q. add_mset (p, head_node (first_addr xs q)) (option_blocks xs q) =
     add_mset (last_addr p xs, Option_Node (n\<lparr>on_next := q\<rparr>)) R"
proof (cases xs rule: rev_cases)
  case Nil
  then show ?thesis
    by (intro exI[of _ "\<lparr>on_type = 0, on_length = 0, on_data = 0, on_next = 0\<rparr>"] exI[of _ "{#}"])
      (simp add: head_node_def)
next
  case (snoc ys y)
  let ?n = "\<lparr>on_type = opt_type (snd (snd y)), on_length = opt_length (snd (snd y)),
              on_data = fst (snd y), on_next = 0\<rparr>"
  let ?R = "add_mset (p, head_node (first_addr ys (fst y)))
    (add_mset (fst (snd y), Raw (opt_data (snd (snd y)))) (option_blocks ys (fst y)))"
  show ?thesis
    using snoc by (intro exI[of _ ?n] exI[of _ ?R]) (simp add: add_mset_commute)
qed

lemma move_options_none:
  assumes "owns m (message_blocks am + option_list_blocks opts [] + F)"
  shows "\<exists>m'. move_options m (am_addr am) opts tail len = Inr m' \<and>
    owns m' (message_blocks (am\<lparr>am_fields := (am_fields am)\<lparr>options_length :=
      options_length (am_fields am) + len\<rparr>\<rparr>) + option_list_blocks opts [] + F) \<and>
    outcomes m' = outcomes m"
proof -
  let ?am = "am\<lparr>am_fields := (am_fields am)\<lparr>options_length := options_length (am_fields am) + len\<rparr>\<rparr>"
  let ?h = "head_fields am"
  let ?m = "store m (am_addr am) (Msl_Head (head_fields ?am))"
  have o: "owns m (add_mset (am_addr am, Msl_Head ?h)
      (cell_blocks (am_cells am) 0 + am_option_blocks am + option_list_blocks opts [] + F))"
    using assms by (simp add: message_blocks_def region_ac)
  have "node_at m opts = Inr \<lparr>on_type = 0, on_length = 0, on_data = 0, on_next = 0\<rparr>"
    using owns_load(1)[OF o, of opts] by (simp add: option_list_blocks_def head_node_def)
  moreover have "msl_head_at m (am_addr am) = Inr ?h" using owns_load(2)[OF o] by simp
  moreover have "head_fields ?am = ?h\<lparr>mh_options_length := mh_options_length ?h + len\<rparr>"
    by (simp add: head_fields_def)
  ultimately have "move_options m (am_addr am) opts tail len = Inr ?m"
    by (simp add: move_options_def)
  moreover have "owns ?m (message_blocks ?am + option_list_blocks opts [] + F)"
    using owns_store[OF o, of "Msl_Head (head_fields ?am)"]
    by (simp add: message_blocks_def am_option_blocks_def region_ac)
  ultimately show ?thesis by (intro exI[of _ ?m]) simp
qed

lemma move_options_some:
  assumes "owns m (message_blocks am + option_list_blocks opts xs + F)"
    and "am_options am = Some (p, ys)" and "xs \<noteq> []" and tail: "tail_ok am"
  shows "\<exists>m'. move_options m (am_addr am) opts (last_addr opts xs) len = Inr m' \<and>
    owns m' (message_blocks (with_options am p (ys @ xs) (options_length (am_fields am) + len)) +
      option_list_blocks opts [] + F) \<and> outcomes m' = outcomes m"
proof -
  let ?h = "head_fields am" and ?t = "last_addr p ys" and ?q = "first_addr xs 0"
  let ?am = "with_options am p (ys @ xs) (options_length (am_fields am) + len)"
  let ?R0 = "cell_blocks (am_cells am) 0 + option_blocks xs 0 + F"
  let ?h2 = "?h\<lparr>mh_options_tail := last_addr opts xs\<rparr>"
  obtain n R where n: "add_mset (p, head_node (first_addr ys q)) (option_blocks ys q) =
      add_mset (?t, Option_Node (n\<lparr>on_next := q\<rparr>)) R" for q
    using option_list_last[of p ys] by blast
  have o: "owns m (add_mset (?t, Option_Node (n\<lparr>on_next := 0\<rparr>))
      (add_mset (am_addr am, Msl_Head ?h) (add_mset (opts, head_node ?q) (R + ?R0))))"
    using assms n[of 0]
    by (simp add: message_blocks_def am_option_blocks_def option_list_blocks_def region_ac)
  define m1 where "m1 = store m ?t (Option_Node (n\<lparr>on_next := ?q\<rparr>))"
  have o1: "owns m1 (add_mset (am_addr am, Msl_Head ?h)
      (add_mset (?t, Option_Node (n\<lparr>on_next := ?q\<rparr>)) (add_mset (opts, head_node ?q) (R + ?R0))))"
    using owns_store[OF o, of "Option_Node (n\<lparr>on_next := ?q\<rparr>)"] unfolding m1_def
    by (simp add: add_mset_commute)
  define m2 where "m2 = store m1 (am_addr am) (Msl_Head ?h2)"
  have o2: "owns m2 (add_mset (opts, head_node ?q) (add_mset (am_addr am, Msl_Head ?h2)
      (add_mset (?t, Option_Node (n\<lparr>on_next := ?q\<rparr>)) (R + ?R0))))"
    using owns_store[OF o1, of "Msl_Head ?h2"] unfolding m2_def by (simp add: add_mset_commute)
  define m3 where "m3 = store m2 opts (head_node 0)"
  have o3: "owns m3 (add_mset (am_addr am, Msl_Head ?h2) (add_mset (opts, head_node 0)
      (add_mset (?t, Option_Node (n\<lparr>on_next := ?q\<rparr>)) (R + ?R0))))"
    using owns_store[OF o2, of "head_node 0"] unfolding m3_def by (simp add: add_mset_commute)
  define m4 where "m4 = store m3 (am_addr am) (Msl_Head (head_fields ?am))"
  have "option_list_blocks p (ys @ xs) =
      add_mset (p, head_node (first_addr ys ?q)) (option_blocks ys ?q) + option_blocks xs 0"
    by (simp add: option_list_blocks_def)
  then have "message_blocks ?am = add_mset (am_addr am, Msl_Head (head_fields ?am))
      (cell_blocks (am_cells am) 0 + (add_mset (?t, Option_Node (n\<lparr>on_next := ?q\<rparr>)) R + option_blocks xs 0))"
    unfolding n by (simp add: message_blocks_def am_option_blocks_def with_options_def)
  then have "owns m4 (message_blocks ?am + option_list_blocks opts [] + F)"
    using owns_store[OF o3, of "Msl_Head (head_fields ?am)"] unfolding m4_def
    by (simp add: option_list_blocks_def region_ac)
  moreover have "move_options m (am_addr am) opts (last_addr opts xs) len = Inr m4"
  proof -
    have "?q \<noteq> 0"
      using assms(3) owns_mem(2)[OF o, of ?q] by (cases xs) auto
    moreover have "node_at m opts = Inr \<lparr>on_type = 0, on_length = 0, on_data = 0, on_next = ?q\<rparr>"
      "node_at m2 opts = Inr \<lparr>on_type = 0, on_length = 0, on_data = 0, on_next = ?q\<rparr>"
      using owns_load(1)[OF o, of opts] owns_load(1)[OF o2, of opts] by (simp_all add: head_node_def)
    moreover have "msl_head_at m (am_addr am) = Inr ?h" "msl_head_at m3 (am_addr am) = Inr ?h2"
      "node_at m ?t = Inr (n\<lparr>on_next := 0\<rparr>)"
      using owns_load(1,2)[OF o] owns_load(2)[OF o3] by simp_all
    moreover have "mh_options_tail ?h = ?t" using assms(2) tail by (simp add: head_fields_def tail_ok_def)
    moreover have "head_fields ?am = ?h2\<lparr>mh_options_length := mh_options_length ?h2 + len\<rparr>"
      using assms(2,3) by (simp add: head_fields_def with_options_def last_addr_def)
    ultimately show ?thesis
      by (simp add: move_options_def m1_def[symmetric] m2_def[symmetric] m4_def head_node_def
          m3_def[unfolded head_node_def, symmetric])
  qed
  moreover have "outcomes m4 = outcomes m" by (simp add: m1_def m2_def m3_def m4_def)
  ultimately show ?thesis by blast
qed

text \<open>\<^verbatim>\<open>append_options\<close> on the blocks does what it does on the values.\<close>

lemma move_options_run:
  assumes "owns m (message_blocks am + option_list_blocks opts xs + F)"
    and "am_options am = Some (p, ys)" and "tail_ok am"
  shows "\<exists>m'. move_options m (am_addr am) opts (last_addr opts xs) len = Inr m' \<and>
    owns m' (message_blocks (with_options am p (ys @ xs) (options_length (am_fields am) + len)) +
      option_list_blocks opts [] + F) \<and> outcomes m' = outcomes m"
proof (cases "xs = []")
  case True
  then have "with_options am p (ys @ xs) (options_length (am_fields am) + len) =
      am\<lparr>am_fields := (am_fields am)\<lparr>options_length := options_length (am_fields am) + len\<rparr>\<rparr>"
    using assms(2,3) by (cases am) (simp add: with_options_def tail_ok_def)
  then show ?thesis
    using move_options_none[of m am opts F "last_addr opts xs" len] assms(1) True by simp
next
  case False
  then show ?thesis using move_options_some[OF assms(1,2) _ assms(3)] by blast
qed

lemma append_options_failed:
  assumes o: "owns m (message_blocks am + F)" and none: "am_options am = None" and as: "malloc (outcomes m) = (False, as)"
    and walk: "options_walk m opts 0 = Some (Inr (t, len))" and pos: "am_addr am \<noteq> 0" "opts \<noteq> 0"
  shows "append_options_mem m (am_addr am) opts = Some (Inr (-3, m\<lparr>outcomes := as\<rparr>)) \<and>
    append_options (list_value am) (Some os) (outcomes m) = (-3, list_value am, as) \<and>
    owns (m\<lparr>outcomes := as\<rparr>) (message_blocks am + F)"
proof (intro conjI)
  have "msl_head_at m (am_addr am) = Inr (head_fields am)"
    using owns_load(2)[OF o, of "am_addr am" "head_fields am"] by (simp add: message_blocks_def)
  moreover have "mh_options_head (head_fields am) = 0" using none by (simp add: head_fields_def)
  ultimately show "append_options_mem m (am_addr am) opts = Some (Inr (-3, m\<lparr>outcomes := as\<rparr>))"
    using walk pos new_block_failed[OF o as]
    by (simp add: append_options_mem_def ensure_options_def build_message_empty_options_mem_def)
  show "append_options (list_value am) (Some os) (outcomes m) = (-3, list_value am, as)"
    using none as by (simp add: append_options_def list_value_def build_message_empty_options_def)
  show "owns (m\<lparr>outcomes := as\<rparr>) (message_blocks am + F)" by (rule new_block_failed(2)[OF o as])
qed

lemma append_options_run:
  assumes o: "owns m (message_blocks am + option_list_blocks opts xs + F)" and tail: "tail_ok am"
  shows "\<exists>r m' am'. append_options_mem m (am_addr am) opts = Some (Inr (r, m')) \<and>
    am_addr am' = am_addr am \<and> am_cells am' = am_cells am \<and> tail_ok am' \<and>
    owns m' (message_blocks am' + option_list_blocks opts (if r < 0 then xs else []) + F) \<and>
    append_options (list_value am) (Some (vals xs)) (outcomes m) = (r, list_value am', outcomes m')"
proof -
  let ?a = "am_addr am" and ?tail = "last_addr opts xs" and ?len = "opts_bytes (vals xs)"
  have pos: "?a \<noteq> 0" "opts \<noteq> 0"
    using owns_mem(2)[OF o, of ?a "Msl_Head (head_fields am)"]
      owns_mem(2)[OF o, of opts "head_node (first_addr xs 0)"]
    by (simp_all add: message_blocks_def option_list_blocks_def)
  have walk: "options_walk m opts 0 = Some (Inr (?tail, ?len))"
    using options_walk_run[OF o, of opts "\<lparr>on_type = 0, on_length = 0, on_data = 0,
        on_next = first_addr xs 0\<rparr>" xs 0]
    by (auto simp: option_list_blocks_def head_node_def)
  note o' = o[unfolded union_assoc]
  show ?thesis
  proof (cases "am_options am = None \<and> \<not> fst (malloc (outcomes m))")
    case True
    then obtain as where "am_options am = None" "malloc (outcomes m) = (False, as)"
      by (cases "malloc (outcomes m)") auto
    from append_options_failed[OF o' this walk pos, of "vals xs"] show ?thesis
      using tail by (intro exI[of _ "-3"] exI[of _ "m\<lparr>outcomes := as\<rparr>"] exI[of _ am]) (simp add: union_assoc)
  next
    case False
    obtain p ys m1 where m1: "ensure_options m ?a = Inr (True, m1)"
      "owns m1 (message_blocks (am\<lparr>am_options := Some (p, ys), am_tail := last_addr p ys\<rparr>) + (option_list_blocks opts xs + F))"
      "am_options am = None \<and> ys = [] \<and> outcomes m1 = snd (malloc (outcomes m)) \<or>
       am_options am = Some (p, ys) \<and> outcomes m1 = outcomes m"
      using ensure_options_run[of m am "option_list_blocks opts xs + F"] o' False tail by auto
    let ?am = "am\<lparr>am_options := Some (p, ys), am_tail := last_addr p ys\<rparr>"
    let ?am' = "with_options ?am p (ys @ xs) (options_length (am_fields am) + ?len)"
    obtain m' where m': "move_options m1 ?a opts ?tail ?len = Inr m'"
      "owns m' (message_blocks ?am' + option_list_blocks opts [] + F)" "outcomes m' = outcomes m1"
      using move_options_run[of m1 ?am opts xs F p ys ?len] m1(2) by (auto simp: union_assoc tail_ok_def)
    have "append_options_mem m ?a opts = Some (Inr (0, m'))"
      using walk pos m1(1) m'(1) by (simp add: append_options_mem_def)
    moreover have "append_options (list_value am) (Some (vals xs)) (outcomes m) = (0, list_value ?am', outcomes m')"
      using m1(3) m'(3) False
      by (cases "malloc (outcomes m)") (auto simp: append_options_def list_value_def with_options_def
          build_message_empty_options_def)
    ultimately show ?thesis
      using m'(2) by (intro exI[of _ 0] exI[of _ m'] exI[of _ ?am']) (simp add: with_options_def tail_ok_def)
  qed
qed

section \<open>Inserting a segment\<close>

definition below :: "u32 \<Rightarrow> a_cell list \<Rightarrow> a_cell list" where
  "below num xs = takeWhile (\<lambda>x. seqnum (snd (snd x)) < num) xs"

definition not_below :: "u32 \<Rightarrow> a_cell list \<Rightarrow> a_cell list" where
  "not_below num xs = dropWhile (\<lambda>x. seqnum (snd (snd x)) < num) xs"

lemma vals_below: "vals (below num xs) = takeWhile (\<lambda>c. seqnum c < num) (vals xs)"
  by (simp add: below_def vals_def takeWhile_map o_def)

lemma vals_not_below: "vals (not_below num xs) = dropWhile (\<lambda>c. seqnum c < num) (vals xs)"
  by (simp add: not_below_def vals_def dropWhile_map o_def)

lemma below_split: "xs = below num xs @ not_below num xs"
  by (simp add: below_def not_below_def)

lemma msl_find_run:
  assumes "owns m M" and "msl_next_at m p = Inr (first_addr xs 0)"
    and "set_mset (cell_blocks xs 0) \<subseteq> set_mset M"
  shows "msl_find m p num = Some (Inr (last_addr p (below num xs))) \<and>
    msl_next_at m (last_addr p (below num xs)) = Inr (first_addr (not_below num xs) 0)"
  using assms(2,3) unfolding below_def not_below_def
proof (induction xs arbitrary: p)
  case Nil
  then show ?case by (simp add: msl_find.simps)
next
  case (Cons x xs)
  let ?c = "\<lparr>mc_seqnum = seqnum (snd (snd x)), mc_content = fst (snd x),
              mc_content_size = content_size (snd (snd x)), mc_next = first_addr xs 0\<rparr>"
  have x: "(fst x, Msl_Cell ?c) \<in># M" using Cons.prems(2) by simp
  have at: "msl_cell_at m (fst x) = Inr ?c" "fst x \<noteq> 0" "load m (fst x) = Inr (Msl_Cell ?c)"
    using owns_load(3)[OF assms(1) x] owns_mem[OF assms(1) x] by simp_all
  then have next_at: "msl_next_at m (fst x) = Inr (first_addr xs 0)" by (simp add: msl_next_at_def)
  show ?case
    using Cons.IH[OF next_at] Cons.prems at by (subst msl_find.simps) auto
qed

text \<open>The last cell of a list, the header cell when there is none, with another successor.\<close>

fun with_next :: "addr \<Rightarrow> block \<Rightarrow> block" where
  "with_next q (Msl_Head h) = Msl_Head (h\<lparr>mh_next := q\<rparr>)"
| "with_next q (Msl_Cell c) = Msl_Cell (c\<lparr>mc_next := q\<rparr>)"
| "with_next q b = b"

definition is_list_cell :: "block \<Rightarrow> bool" where
  "is_list_cell b \<longleftrightarrow> (case b of Msl_Head _ \<Rightarrow> True | Msl_Cell _ \<Rightarrow> True | _ \<Rightarrow> False)"

lemma cell_list_last:
  "\<exists>b R. is_list_cell b \<and>
     (\<forall>q. add_mset (a, Msl_Head (h\<lparr>mh_next := first_addr xs q\<rparr>)) (cell_blocks xs q) =
       add_mset (last_addr a xs, with_next q b) R)"
proof (cases xs rule: rev_cases)
  case Nil
  then show ?thesis
    by (intro exI[of _ "Msl_Head h"] exI[of _ "{#}"]) (simp add: is_list_cell_def)
next
  case (snoc ys y)
  let ?c = "Msl_Cell \<lparr>mc_seqnum = seqnum (snd (snd y)), mc_content = fst (snd y),
              mc_content_size = content_size (snd (snd y)), mc_next = 0\<rparr>"
  let ?R = "add_mset (a, Msl_Head (h\<lparr>mh_next := first_addr ys (fst y)\<rparr>))
    (add_mset (fst (snd y), Raw (content (snd (snd y)))) (cell_blocks ys (fst y)))"
  show ?thesis
    using snoc by (intro exI[of _ ?c] exI[of _ ?R]) (simp add: add_mset_commute is_list_cell_def)
qed

lemma set_msl_next_run:
  assumes o: "owns m (add_mset (a, with_next q b) M)" and "is_list_cell b"
  shows "set_msl_next m a p = Inr (store m a (with_next p b))"
    "owns (store m a (with_next p b)) (add_mset (a, with_next p b) M)"
proof -
  have "load m a = Inr (with_next q b)" using owns_mem(4)[OF o, of a] by simp
  then show "set_msl_next m a p = Inr (store m a (with_next p b))"
    using assms(2) by (cases b) (simp_all add: set_msl_next_def is_list_cell_def)
  show "owns (store m a (with_next p b)) (add_mset (a, with_next p b) M)"
    using owns_store[OF o] .
qed

lemma message_blocks_split:
  "\<exists>b R. is_list_cell b \<and> (\<forall>ws. message_blocks (am\<lparr>am_cells := us @ ws\<rparr>) =
     add_mset (last_addr (am_addr am) us, with_next (first_addr ws 0) b) (R + cell_blocks ws 0))"
proof -
  obtain b R where b: "is_list_cell b"
    and R: "\<And>q. add_mset (am_addr am, Msl_Head ((head_fields am)\<lparr>mh_next := first_addr us q\<rparr>)) (cell_blocks us q) =
       add_mset (last_addr (am_addr am) us, with_next q b) R"
    using cell_list_last[where a = "am_addr am" and h = "head_fields am" and xs = us] by blast
  have "message_blocks (am\<lparr>am_cells := us @ ws\<rparr>) =
      add_mset (am_addr am, Msl_Head ((head_fields am)\<lparr>mh_next := first_addr us (first_addr ws 0)\<rparr>))
        (cell_blocks us (first_addr ws 0)) + (am_option_blocks am + cell_blocks ws 0)" for ws
    by (simp add: message_blocks_def head_fields_def am_option_blocks_def region_ac)
  then show ?thesis
    unfolding R using b by (intro exI[of _ b] exI[of _ "R + am_option_blocks am"]) (simp add: region_ac)
qed

lemma am_cells_id: "am_cells am = cs \<Longrightarrow> am\<lparr>am_cells := cs\<rparr> = am"
  by (cases am) simp

lemma link_cell_run:
  assumes o: "owns m (message_blocks am + add_mset (ct, Raw bs) F)" and "am_cells am = us @ vs"
    and "malloc (outcomes m) = (True, as)"
  shows "\<exists>a m1 m2. new_block m (Msl_Cell \<lparr>mc_seqnum = num, mc_content = ct, mc_content_size = n,
        mc_next = first_addr vs 0\<rparr>) = (a, m1) \<and> a \<noteq> 0 \<and>
      set_msl_next m1 (last_addr (am_addr am) us) a = Inr m2 \<and> outcomes m2 = as \<and>
      owns m2 (message_blocks (am\<lparr>am_cells :=
        us @ (a, ct, \<lparr>seqnum = num, content = bs, content_size = n\<rparr>) # vs\<rparr>) + F)"
proof -
  let ?l = "last_addr (am_addr am) us"
  let ?c = "Msl_Cell \<lparr>mc_seqnum = num, mc_content = ct, mc_content_size = n, mc_next = first_addr vs 0\<rparr>"
  obtain b R where b: "is_list_cell b" and R: "\<And>ws. message_blocks (am\<lparr>am_cells := us @ ws\<rparr>) =
       add_mset (?l, with_next (first_addr ws 0) b) (R + cell_blocks ws 0)"
    using message_blocks_split[where am = am and us = us] by blast
  obtain a m1 where m1: "new_block m ?c = (a, m1)" "a \<noteq> 0" "outcomes m1 = as"
    "owns m1 (add_mset (a, ?c) (message_blocks am + add_mset (ct, Raw bs) F))"
    using owns_new_block[OF o assms(3), of ?c] by blast
  have "message_blocks am = add_mset (?l, with_next (first_addr vs 0) b) (R + cell_blocks vs 0)"
    using R[of vs] am_cells_id[OF assms(2)] by simp
  then have o1: "owns m1 (add_mset (?l, with_next (first_addr vs 0) b)
      (add_mset (a, ?c) (add_mset (ct, Raw bs) (R + cell_blocks vs 0 + F))))"
    using m1(4) by (simp add: region_ac)
  show ?thesis
    using m1(1-3) set_msl_next_run[OF o1 b, of a]
    by (intro exI[of _ a] exI[of _ m1] exI[of _ "store m1 ?l (with_next a b)"]) (simp add: R region_ac)
qed

lemma link_cell_failed:
  assumes o: "owns m (message_blocks am + F)" and "am_cells am = us @ vs"
    and "malloc (outcomes m) = (False, as)"
  shows "\<exists>m1 m2. new_block m c = (0, m1) \<and>
      set_msl_next m1 (last_addr (am_addr am) us) 0 = Inr m2 \<and> outcomes m2 = as \<and>
      owns m2 (message_blocks (am\<lparr>am_cells := us\<rparr>) + cell_blocks vs 0 + F)"
proof -
  let ?l = "last_addr (am_addr am) us"
  obtain b R where b: "is_list_cell b" and R: "\<And>ws. message_blocks (am\<lparr>am_cells := us @ ws\<rparr>) =
       add_mset (?l, with_next (first_addr ws 0) b) (R + cell_blocks ws 0)"
    using message_blocks_split[where am = am and us = us] by blast
  have "message_blocks am = add_mset (?l, with_next (first_addr vs 0) b) (R + cell_blocks vs 0)"
    using R[of vs] am_cells_id[OF assms(2)] by simp
  then have o1: "owns (m\<lparr>outcomes := as\<rparr>) (add_mset (?l, with_next (first_addr vs 0) b)
      (R + cell_blocks vs 0 + F))"
    using new_block_failed(2)[OF o assms(3)] by simp
  have "message_blocks (am\<lparr>am_cells := us\<rparr>) = add_mset (?l, with_next 0 b) R"
    using R[of "[]"] by simp
  then show ?thesis
    using new_block_failed(1)[OF o assms(3)] set_msl_next_run[OF o1 b, of 0]
    by (intro exI[of _ "m\<lparr>outcomes := as\<rparr>"] exI[of _ "store (m\<lparr>outcomes := as\<rparr>) ?l (with_next 0 b)"])
      (simp add: region_ac)
qed

text \<open>Counting the new segment and taking over its options.\<close>

lemma head_complete_iff: "head_complete (head_fields am) = msl_complete (list_value am)"
  by (simp add: head_complete_def head_fields_def msl_complete_def list_value_def)

lemma msl_head_at_run: "owns m (message_blocks am + F) \<Longrightarrow> msl_head_at m (am_addr am) = Inr (head_fields am)"
  by (rule owns_load(2), assumption) (simp add: message_blocks_def)

lemma head_store_run:
  assumes "owns m (message_blocks am + F)" and "am_addr am' = am_addr am"
    and "am_cells am' = am_cells am" and "am_options am' = am_options am"
  shows "owns (store m (am_addr am) (Msl_Head (head_fields am'))) (message_blocks am' + F)"
  using owns_store[of m "am_addr am" "Msl_Head (head_fields am)"] assms
  by (simp add: message_blocks_def am_option_blocks_def)

lemma count_segment_run:
  assumes o: "owns m (message_blocks am + option_list_blocks opts xs + F)" and tail: "tail_ok am"
  shows "\<exists>r m' am'. count_segment_mem m (am_addr am) n opts = Some (Inr (r, m')) \<and>
    am_addr am' = am_addr am \<and> am_cells am' = am_cells am \<and> tail_ok am' \<and> r \<in> {0, 1, -4} \<and>
    owns m' (message_blocks am' + option_list_blocks opts (if r < 0 then xs else []) + F) \<and>
    count_segment (list_value am) n (Some (vals xs)) (outcomes m) = (r, list_value am', outcomes m')"
proof -
  let ?f = "am_fields am" and ?a = "am_addr am"
  let ?am = "am\<lparr>am_fields := ?f\<lparr>current_size := current_size ?f + 1,
    total_payload_byte_size := total_payload_byte_size ?f + n\<rparr>\<rparr>"
  let ?m = "store m ?a (Msl_Head (head_fields ?am))"
  have o1: "owns ?m (message_blocks ?am + option_list_blocks opts xs + F)"
    using head_store_run[of m am "option_list_blocks opts xs + F" ?am] o by (simp add: union_assoc)
  have tail1: "tail_ok ?am" using tail by (simp add: tail_ok_def)
  obtain r m' am' where m': "append_options_mem ?m ?a opts = Some (Inr (r, m'))" "am_addr am' = ?a"
    "am_cells am' = am_cells am"
    "owns m' (message_blocks am' + option_list_blocks opts (if r < 0 then xs else []) + F)"
    "append_options (list_value ?am) (Some (vals xs)) (outcomes m) = (r, list_value am', outcomes m')" "tail_ok am'"
    using append_options_run[OF o1 tail1] by auto
  have "msl_head_at m ?a = Inr (head_fields am)" "msl_head_at m' ?a = Inr (head_fields am')"
    using msl_head_at_run[of m am "option_list_blocks opts xs + F"] o m'(2,4)
      msl_head_at_run[of m' am' "option_list_blocks opts (if r < 0 then xs else []) + F"]
    by (simp_all add: union_assoc)
  moreover have "head_fields ?am = (head_fields am)\<lparr>mh_current_size := mh_current_size (head_fields am) + 1,
      mh_total_payload_byte_size := mh_total_payload_byte_size (head_fields am) + n\<rparr>"
    by (simp add: head_fields_def)
  ultimately have run: "count_segment_mem m ?a n opts =
      Some (Inr (if r < 0 then -4 else if msl_complete (list_value am') then 1 else 0, m'))"
    using m'(1) by (simp add: count_segment_mem_def head_complete_iff)
  have "list_value ?am = (list_value am)\<lparr>current_size := current_size (list_value am) + 1,
      total_payload_byte_size := total_payload_byte_size (list_value am) + n\<rparr>"
    by (simp add: list_value_def)
  then have val: "count_segment (list_value am) n (Some (vals xs)) (outcomes m) =
      (if r < 0 then -4 else if msl_complete (list_value am') then 1 else 0, list_value am', outcomes m')"
    using m'(5) by (simp add: count_segment_def)
  show ?thesis
    unfolding run val using m'(2-4,6)
    by (intro exI[of _ "if r < 0 then -4 else if msl_complete (list_value am') then 1 else 0"]
        exI[of _ m'] exI[of _ am']) (simp split: if_splits)
qed

text \<open>
  What is left of a segment after its insertion returned \<open>r\<close>: its payload unless a cell took it
  over, and its options unless the message did.
\<close>

definition left_over :: "int \<Rightarrow> addr \<Rightarrow> bytes \<Rightarrow> addr \<Rightarrow> a_option list \<Rightarrow> region" where
  "left_over r ct bs opts xs =
     (if r \<in> {0, 1, -4} then {#} else {#(ct, Raw bs)#}) +
     option_list_blocks opts (if r \<in> {0, 1} then [] else xs)"

text \<open>The cells that a failed allocation cuts off.\<close>

definition lost_cells :: "int \<Rightarrow> u32 \<Rightarrow> a_message \<Rightarrow> region" where
  "lost_cells r num am = (if r = -3 then cell_blocks (not_below num (am_cells am)) 0 else {#})"

lemma link_segment_run:
  assumes o: "owns m (message_blocks am + (add_mset (ct, Raw bs) (option_list_blocks opts xs) + F))"
    and cells: "am_cells am = us @ vs"
    and tail: "tail_ok am" and cell_def: "cell = \<lparr>seqnum = num, content = bs, content_size = n\<rparr>"
  shows "\<exists>r m' am'. link_segment m (am_addr am) (last_addr (am_addr am) us) (first_addr vs 0) num n ct opts =
      Some (Inr (r, m')) \<and> am_addr am' = am_addr am \<and> tail_ok am' \<and> r \<in> {0, 1, -3, -4} \<and>
    owns m' (message_blocks am' + left_over r ct bs opts xs +
      ((if r = -3 then cell_blocks vs 0 else {#}) + F)) \<and>
    (let (ok, as) = malloc (outcomes m) in
     if ok then count_segment ((list_value am)\<lparr>segments := vals us @ cell # vals vs\<rparr>) n (Some (vals xs)) as
     else (-3, (list_value am)\<lparr>segments := vals us\<rparr>, as)) = (r, list_value am', outcomes m')"
proof -
  obtain ok as where as: "malloc (outcomes m) = (ok, as)" by (cases "malloc (outcomes m)")
  show ?thesis
  proof (cases ok)
    case True
    obtain a m1 m2 where m2: "new_block m (Msl_Cell \<lparr>mc_seqnum = num, mc_content = ct,
        mc_content_size = n, mc_next = first_addr vs 0\<rparr>) = (a, m1)" "a \<noteq> 0"
      "set_msl_next m1 (last_addr (am_addr am) us) a = Inr m2" "outcomes m2 = as"
      "owns m2 (message_blocks (am\<lparr>am_cells := us @ (a, ct, cell) # vs\<rparr>) +
        (option_list_blocks opts xs + F))"
      using link_cell_run[of m am ct bs "option_list_blocks opts xs + F" us vs as num n] o as True cells
      unfolding cell_def by auto
    let ?am = "am\<lparr>am_cells := us @ (a, ct, cell) # vs\<rparr>"
    obtain r m' am' where m': "count_segment_mem m2 (am_addr ?am) n opts = Some (Inr (r, m'))"
      "am_addr am' = am_addr ?am" "tail_ok am'" "r \<in> {0, 1, -4}"
      "owns m' (message_blocks am' + option_list_blocks opts (if r < 0 then xs else []) + F)"
      "count_segment (list_value ?am) n (Some (vals xs)) as = (r, list_value am', outcomes m')"
      using count_segment_run[of m2 ?am opts xs F n] m2(4,5) tail by (auto simp: union_assoc tail_ok_def)
    have "list_value ?am = (list_value am)\<lparr>segments := vals us @ cell # vals vs\<rparr>"
      by (simp add: list_value_def)
    then show ?thesis
      using m' m2(1-3) as True
      by (intro exI[of _ r] exI[of _ m'] exI[of _ am']) (auto simp: link_segment_def left_over_def)
  next
    case False
    then have failed: "malloc (outcomes m) = (False, as)" using as by simp
    obtain m1 m2 where m2: "new_block m (Msl_Cell \<lparr>mc_seqnum = num, mc_content = ct,
        mc_content_size = n, mc_next = first_addr vs 0\<rparr>) = (0, m1)"
      "set_msl_next m1 (last_addr (am_addr am) us) 0 = Inr m2" "outcomes m2 = as"
      "owns m2 (message_blocks (am\<lparr>am_cells := us\<rparr>) + cell_blocks vs 0 +
        (add_mset (ct, Raw bs) (option_list_blocks opts xs) + F))"
      using link_cell_failed[OF o cells failed] by blast
    let ?am = "am\<lparr>am_cells := us\<rparr>"
    have "list_value ?am = (list_value am)\<lparr>segments := vals us\<rparr>" by (simp add: list_value_def)
    moreover have "owns m2 (message_blocks ?am + left_over (-3) ct bs opts xs + (cell_blocks vs 0 + F))"
      using m2(4) by (simp add: left_over_def region_ac)
    ultimately show ?thesis
      using m2(1-3) as False tail
      by (intro exI[of _ "-3"] exI[of _ m2] exI[of _ ?am]) (simp add: link_segment_def tail_ok_def)
  qed
qed

text \<open>The last segment sets the total size.\<close>

definition with_total :: "a_message \<Rightarrow> u32 \<Rightarrow> int \<Rightarrow> a_message" where
  "with_total am num is_last =
     (if is_last = 1 then am\<lparr>am_fields := (am_fields am)\<lparr>total_size := num + 1\<rparr>\<rparr> else am)"

lemma with_total_simps [simp]:
  "am_addr (with_total am num is_last) = am_addr am" "am_cells (with_total am num is_last) = am_cells am"
  "am_options (with_total am num is_last) = am_options am" "am_tail (with_total am num is_last) = am_tail am"
  by (simp_all add: with_total_def)

lemma set_total_run:
  assumes "owns m (message_blocks am + F)"
  shows "\<exists>m1. (if is_last = 1 then bind_run (Some (msl_head_at m (am_addr am)))
        (\<lambda>h. Some (Inr (store m (am_addr am) (Msl_Head (h\<lparr>mh_total_size := num + 1\<rparr>)))))
      else Some (Inr m)) = Some (Inr m1) \<and> owns m1 (message_blocks (with_total am num is_last) + F) \<and>
    outcomes m1 = outcomes m"
proof (cases "is_last = 1")
  case True
  have "head_fields (with_total am num is_last) = (head_fields am)\<lparr>mh_total_size := num + 1\<rparr>"
    using True by (simp add: head_fields_def with_total_def)
  then show ?thesis
    using True msl_head_at_run[OF assms] head_store_run[OF assms, of "with_total am num is_last"]
    by simp
next
  case False
  then show ?thesis using assms by (simp add: with_total_def)
qed

text \<open>A cell with the number of the new segment is where the search stops.\<close>

definition present :: "u32 \<Rightarrow> a_message \<Rightarrow> bool" where
  "present num am \<longleftrightarrow>
     not_below num (am_cells am) \<noteq> [] \<and> seqnum (snd (snd (hd (not_below num (am_cells am))))) = num"

text \<open>The insertion on values, in terms of the annotated message.\<close>

lemma insert_into_msl_value:
  fixes am num is_last n bs
  defines "am1 \<equiv> with_total am num is_last"
    and "us \<equiv> vals (below num (am_cells am))" and "vs \<equiv> vals (not_below num (am_cells am))"
    and "cell \<equiv> \<lparr>seqnum = num, content = bs, content_size = n\<rparr>"
  shows "insert_into_msl (list_value am) num is_last n bs opts as =
    (if present num am then (if msl_complete (list_value am1) then -2 else -1, list_value am1, as)
     else let (ok, as1) = malloc as in
       if ok then count_segment ((list_value am1)\<lparr>segments := us @ cell # vs\<rparr>) n opts as1
       else (-3, (list_value am1)\<lparr>segments := us\<rparr>, as1))"
proof -
  obtain ok as1 where as1: "malloc as = (ok, as1)" by (cases "malloc as")
  have val: "list_value am1 = (if is_last = 1 then (list_value am)\<lparr>total_size := num + 1\<rparr> else list_value am)"
    by (simp add: list_value_def with_total_def am1_def)
  have seg: "segments (list_value am1) = vals (am_cells am)" by (simp add: list_value_def am1_def)
  have whole: "(list_value am1)\<lparr>segments := us\<rparr> = list_value am1" if "not_below num (am_cells am) = []"
    using that below_split[of "am_cells am" num] by (simp add: list_value_def am1_def us_def)
  note fun_def = insert_into_msl_def as1 val[symmetric] seg vals_below[symmetric] vals_not_below[symmetric]
  show ?thesis
  proof (cases "not_below num (am_cells am)")
    case Nil
    then show ?thesis
      using whole[OF Nil] by (cases ok) (simp_all add: fun_def present_def us_def vs_def cell_def)
  next
    case (Cons v ws)
    then show ?thesis
      by (cases ok) (simp_all add: fun_def present_def us_def vs_def cell_def)
  qed
qed

text \<open>The insertion on blocks, up to the point where a new cell is linked.\<close>

lemma insert_into_msl_search:
  assumes o: "owns m (message_blocks am + F)"
  shows "\<exists>m1. owns m1 (message_blocks (with_total am num is_last) + F) \<and> outcomes m1 = outcomes m \<and>
    insert_into_msl_mem m (am_addr am) num is_last n ct opts =
      (if present num am
       then Some (Inr (if msl_complete (list_value (with_total am num is_last)) then -2 else -1, m1))
       else link_segment m1 (am_addr am) (last_addr (am_addr am) (below num (am_cells am)))
         (first_addr (not_below num (am_cells am)) 0) num n ct opts)"
proof -
  let ?am = "with_total am num is_last" and ?a = "am_addr am"
  let ?us = "below num (am_cells am)" and ?vs = "not_below num (am_cells am)"
  obtain m1 where m1: "(if is_last = 1 then bind_run (Some (msl_head_at m ?a))
        (\<lambda>h. Some (Inr (store m ?a (Msl_Head (h\<lparr>mh_total_size := num + 1\<rparr>)))))
      else Some (Inr m)) = Some (Inr m1)" "owns m1 (message_blocks ?am + F)" "outcomes m1 = outcomes m"
    using set_total_run[OF o, of is_last num] by blast
  have head: "msl_head_at m1 ?a = Inr (head_fields ?am)" using msl_head_at_run[OF m1(2)] by simp
  have "load m1 ?a = Inr (Msl_Head (head_fields ?am))"
    using owns_mem(4)[OF m1(2), of ?a "Msl_Head (head_fields ?am)"] by (simp add: message_blocks_def)
  then have "msl_next_at m1 ?a = Inr (first_addr (am_cells am) 0)"
    by (simp add: msl_next_at_def head_fields_def)
  moreover have in_all: "set_mset (cell_blocks (am_cells am) 0) \<subseteq> set_mset (message_blocks ?am + F)"
    by (auto simp: message_blocks_def)
  ultimately have find: "msl_find m1 ?a num = Some (Inr (last_addr ?a ?us))"
    "msl_next_at m1 (last_addr ?a ?us) = Inr (first_addr ?vs 0)"
    using msl_find_run[OF m1(2), of ?a "am_cells am" num] by simp_all
  note mem_def = insert_into_msl_mem_def m1(1) find present_def
  have "insert_into_msl_mem m ?a num is_last n ct opts =
      (if present num am then Some (Inr (if msl_complete (list_value ?am) then -2 else -1, m1))
       else link_segment m1 ?a (last_addr ?a ?us) (first_addr ?vs 0) num n ct opts)"
  proof (cases ?vs)
    case Nil
    then show ?thesis by (simp add: mem_def)
  next
    case (Cons v vs)
    let ?c = "\<lparr>mc_seqnum = seqnum (snd (snd v)), mc_content = fst (snd v),
              mc_content_size = content_size (snd (snd v)), mc_next = first_addr vs 0\<rparr>"
    have "am_cells am = ?us @ v # vs" using below_split[of "am_cells am" num] Cons by simp
    then have "cell_blocks (am_cells am) 0 = cell_blocks (?us @ v # vs) 0" by (rule arg_cong)
    then have v: "(fst v, Msl_Cell ?c) \<in># message_blocks ?am + F" using in_all by auto
    show ?thesis
      using Cons owns_load(3)[OF m1(2) v] owns_mem(2)[OF m1(2) v] head
      by (simp add: mem_def head_complete_iff)
  qed
  with m1(2,3) show ?thesis by blast
qed

text \<open>\<^verbatim>\<open>insert_into_msl\<close> on the blocks does what it does on the values.\<close>

lemma insert_into_msl_run:
  assumes o: "owns m (message_blocks am + (add_mset (ct, Raw bs) (option_list_blocks opts xs) + F))"
    and tail: "tail_ok am"
  shows "\<exists>r m' am'. insert_into_msl_mem m (am_addr am) num is_last n ct opts = Some (Inr (r, m')) \<and>
    am_addr am' = am_addr am \<and> tail_ok am' \<and>
    insert_into_msl (list_value am) num is_last n bs (Some (vals xs)) (outcomes m) =
      (r, list_value am', outcomes m') \<and>
    owns m' (message_blocks am' + left_over r ct bs opts xs + (lost_cells r num am + F))"
proof -
  let ?am = "with_total am num is_last" and ?a = "am_addr am"
  let ?us = "below num (am_cells am)" and ?vs = "not_below num (am_cells am)"
  let ?G = "add_mset (ct, Raw bs) (option_list_blocks opts xs) + F"
  obtain m1 where m1: "owns m1 (message_blocks ?am + ?G)" "outcomes m1 = outcomes m"
    "insert_into_msl_mem m ?a num is_last n ct opts =
      (if present num am then Some (Inr (if msl_complete (list_value ?am) then -2 else -1, m1))
       else link_segment m1 ?a (last_addr ?a ?us) (first_addr ?vs 0) num n ct opts)"
    using insert_into_msl_search[OF o] by blast
  have tail1: "tail_ok ?am" using tail by (simp add: tail_ok_def)
  show ?thesis
  proof (cases "present num am")
    case True
    let ?r = "if msl_complete (list_value ?am) then -2 else -1 :: int"
    have "owns m1 (message_blocks ?am + left_over ?r ct bs opts xs + (lost_cells ?r num am + F))"
      using m1(1) by (simp add: left_over_def lost_cells_def region_ac)
    then show ?thesis
      using True m1(2,3) tail1
      by (intro exI[of _ ?r] exI[of _ m1] exI[of _ ?am]) (simp add: insert_into_msl_value)
  next
    case False
    have cells: "am_cells ?am = ?us @ ?vs" using below_split[of "am_cells am" num] by simp
    obtain r m' am' where link: "link_segment m1 ?a (last_addr ?a ?us) (first_addr ?vs 0) num n ct opts =
        Some (Inr (r, m'))" "am_addr am' = ?a \<and> tail_ok am'"
      "owns m' (message_blocks am' + left_over r ct bs opts xs + ((if r = -3 then cell_blocks ?vs 0 else {#}) + F))"
      "(let (ok, as) = malloc (outcomes m1) in
       if ok then count_segment ((list_value ?am)\<lparr>segments := vals ?us @
           \<lparr>seqnum = num, content = bs, content_size = n\<rparr> # vals ?vs\<rparr>) n (Some (vals xs)) as
       else (-3, (list_value ?am)\<lparr>segments := vals ?us\<rparr>, as)) = (r, list_value am', outcomes m')"
      using link_segment_run[OF m1(1) cells tail1 refl, of num n] by auto
    have "insert_into_msl (list_value am) num is_last n bs (Some (vals xs)) (outcomes m) =
        (r, list_value am', outcomes m')"
      using link(4) False by (simp add: insert_into_msl_value m1(2))
    then show ?thesis
      using link(1-3) False m1(3)
      by (intro exI[of _ r] exI[of _ m'] exI[of _ am']) (simp add: lost_cells_def)
  qed
qed

section \<open>Reassembly\<close>

lemma copy_segments_fault: "copy_segments cs = Inl e \<Longrightarrow> e = Out_Of_Bounds"
  by (induction cs) (auto simp: bind_fault_eq_Inl read_range_def split: if_splits)

lemma copy_cells_run:
  assumes "owns m M" and "msl_next_at m p = Inr (first_addr xs 0)"
    and "set_mset (cell_blocks xs 0) \<subseteq> set_mset M" and "length written \<le> limit"
  shows "copy_cells m p limit written =
    Some (bind_fault (copy_segments (vals xs)) (\<lambda>bs.
      if length written + length bs \<le> limit then Inr (written @ bs) else Inl Out_Of_Bounds))"
  using assms(2-)
proof (induction xs arbitrary: p written)
  case Nil
  then show ?case by (simp add: copy_cells.simps)
next
  case (Cons x xs)
  let ?v = "snd (snd x)"
  let ?c = "\<lparr>mc_seqnum = seqnum ?v, mc_content = fst (snd x), mc_content_size = content_size ?v,
              mc_next = first_addr xs 0\<rparr>"
  have x: "(fst x, Msl_Cell ?c) \<in># M" "(fst (snd x), Raw (content ?v)) \<in># M"
    using Cons.prems(2) by simp_all
  have at: "msl_cell_at m (fst x) = Inr ?c" "fst x \<noteq> 0" "raw_at m (fst (snd x)) = Inr (content ?v)"
    "msl_next_at m (fst x) = Inr (first_addr xs 0)"
    using owns_load(3)[OF assms(1) x(1)] owns_load(6)[OF assms(1) x(2)] owns_mem[OF assms(1) x(1)]
    by (simp_all add: msl_next_at_def)
  note step = copy_cells.simps[of m p] Cons.prems(1) at
  show ?case
  proof (cases "read_range (content ?v) 0 (unat (content_size ?v))")
    case (Inl e)
    then show ?thesis by (subst step) (simp add: step)
  next
    case (Inr b)
    show ?thesis
    proof (cases "length written + length b \<le> limit")
      case True
      have "copy_cells m (fst x) limit (written @ b) =
          Some (bind_fault (copy_segments (vals xs)) (\<lambda>bs. if length (written @ b) + length bs \<le> limit
            then Inr ((written @ b) @ bs) else Inl Out_Of_Bounds))"
        using Cons.prems(2) True by (intro Cons.IH[OF at(4)]) simp_all
      then show ?thesis
        using Inr True by (subst step) (cases "copy_segments (vals xs)"; simp add: step add.assoc)
    next
      case False
      then show ?thesis
        using Inr copy_segments_fault[of "vals xs"]
        by (subst step) (cases "copy_segments (vals xs)"; simp add: step)
    qed
  qed
qed

lemma message_next_at:
  "owns m (message_blocks am + F) \<Longrightarrow> msl_next_at m (am_addr am) = Inr (first_addr (am_cells am) 0)"
  using owns_mem(4)[of m "message_blocks am + F" "am_addr am" "Msl_Head (head_fields am)"]
  by (simp add: message_blocks_def msl_next_at_def head_fields_def)

lemma reassemble_payload_run:
  assumes o: "owns m (message_blocks am + F)"
    and "reassemble_payload (list_value am) (outcomes m) = Inr (msg, as)"
  shows "\<exists>a m'. reassemble_payload_mem m (am_addr am) = Some (Inr (a, m')) \<and> outcomes m' = as \<and>
    (case msg of
       None \<Rightarrow> a = 0 \<and> owns m' (message_blocks am + F)
     | Some bs \<Rightarrow> a \<noteq> 0 \<and> owns m' (message_blocks am + add_mset (a, Raw bs) F))"
proof -
  obtain ok as1 where as1: "malloc (outcomes m) = (ok, as1)" by (cases "malloc (outcomes m)")
  note head = msl_head_at_run[OF o]
  show ?thesis
  proof (cases ok)
    case False
    then have failed: "malloc (outcomes m) = (False, as1)" using as1 by simp
    then show ?thesis
      using assms(2) head new_block_failed[OF o failed]
      by (auto simp: reassemble_payload_def reassemble_payload_mem_def)
  next
    case True
    then have "malloc (outcomes m) = (True, as1)" using as1 by simp
    then obtain a m1 where m1: "new_block m (Raw []) = (a, m1)" "a \<noteq> 0"
      "owns m1 (add_mset (a, Raw []) (message_blocks am + F))" "outcomes m1 = as1"
      using owns_new_block[OF o, of as1 "Raw []"] by blast
    obtain bs where bs: "copy_segments (vals (am_cells am)) = Inr bs"
      "length bs \<le> unat (total_payload_byte_size (am_fields am))" "msg = Some bs" "as = as1"
      using assms(2) as1 True
      by (auto simp: reassemble_payload_def list_value_def bind_fault_eq_Inr split: if_splits)
    have o1: "owns m1 (message_blocks am + add_mset (a, Raw []) F)" using m1(3) by (simp add: region_ac)
    have "set_mset (cell_blocks (am_cells am) 0) \<subseteq>
        set_mset (message_blocks am + add_mset (a, Raw []) F)"
      by (auto simp: message_blocks_def)
    then have "copy_cells m1 (am_addr am) (unat (total_payload_byte_size (am_fields am))) [] = Some (Inr bs)"
      using copy_cells_run[OF o1 message_next_at[OF o1], of "[]"] bs(1,2) by simp
    moreover have "mh_total_payload_byte_size (head_fields am) = total_payload_byte_size (am_fields am)"
      by (simp add: head_fields_def)
    ultimately show ?thesis
      using m1 head bs(3,4) owns_store[OF m1(3), of "Raw bs"]
      by (simp add: reassemble_payload_mem_def region_ac)
  qed
qed

section \<open>A new message\<close>

definition a_new_message :: "addr \<Rightarrow> u32 \<Rightarrow> u32 \<Rightarrow> a_message" where
  "a_new_message a odid mid =
     \<lparr>am_addr = a, am_fields = new_msl odid mid, am_cells = [], am_options = None,
      am_tail = 0\<rparr>"

lemma list_value_new [simp]: "list_value (a_new_message a odid mid) = new_msl odid mid"
  by (simp add: list_value_def a_new_message_def new_msl_def)

lemma create_message_segment_list_run:
  assumes "owns m F" and "malloc (outcomes m) = (True, as)"
  shows "\<exists>a m'. create_message_segment_list_mem m odid mid = (a, m') \<and> a \<noteq> 0 \<and> outcomes m' = as \<and>
    owns m' (message_blocks (a_new_message a odid mid) + F)"
proof -
  let ?b = "\<lambda>a. Msl_Head (head_fields (a_new_message a odid mid))"
  have "?b a = ?b 0" for a by (simp add: head_fields_def a_new_message_def)
  then obtain a m' where "new_block m (?b 0) = (a, m')" "a \<noteq> 0" "outcomes m' = as"
    "owns m' (add_mset (a, ?b a) F)"
    using owns_new_block[OF assms, of "?b 0"] by metis
  then show ?thesis
    by (intro exI[of _ a] exI[of _ m'])
      (simp add: create_message_segment_list_mem_def message_blocks_def am_option_blocks_def
        a_new_message_def head_fields_def new_msl_def)
qed

end
