(* ===== verification/Memory_Table.thy ===== *)
theory Memory_Table
  imports Memory_Messages
begin

text \<open>
  The segmentation buffer at the level of its blocks: the buffer with its array of pointers, the
  collision list of each bucket with its header cell, and the messages they point to. Every
  operation is shown to do on the blocks what the definitions of \<open>Segbuf\<close> and \<open>Cleanup\<close> do on
  values, and to leave no block behind.
\<close>

section \<open>Operations\<close>

definition pointer_set :: "addr option \<Rightarrow> fault + addr" where
  "pointer_set q = (case q of None \<Rightarrow> Inl Uninit_Read | Some p \<Rightarrow> Inr p)"

definition coll_next_at :: "memory \<Rightarrow> addr \<Rightarrow> fault + addr" where
  "coll_next_at m a =
     bind_fault (load m a) (\<lambda>b. case b of
         Coll_Head q \<Rightarrow> pointer_set q
       | Coll_Cell c \<Rightarrow> pointer_set (cc_next c)
       | _ \<Rightarrow> Inl Bad_Access)"

definition set_coll_next :: "memory \<Rightarrow> addr \<Rightarrow> addr \<Rightarrow> fault + memory" where
  "set_coll_next m a p =
     bind_fault (load m a) (\<lambda>b. case b of
         Coll_Head q \<Rightarrow> Inr (store m a (Coll_Head (Some p)))
       | Coll_Cell c \<Rightarrow> Inr (store m a (Coll_Cell (c\<lparr>cc_next := Some p\<rparr>)))
       | _ \<Rightarrow> Inl Bad_Access)"

definition create_segment_buffer_mem :: "memory \<Rightarrow> addr \<times> memory" where
  "create_segment_buffer_mem m = new_block m
     (Buffer \<lparr>bf_count = 0, bf_hash_array = (\<lambda>_. 0), bf_cleanup = 0, bf_cleanup_start_index = 0\<rparr>)"

text \<open>The walk of \<^verbatim>\<open>insert_segment\<close> and \<^verbatim>\<open>get_segment_list\<close> to the cell before the message.\<close>

partial_function (option) coll_find ::
  "memory \<Rightarrow> addr \<Rightarrow> u32 \<Rightarrow> u32 \<Rightarrow> (fault + addr) option"
where
  "coll_find m cur odid mid =
     (case coll_next_at m cur of
        Inl e \<Rightarrow> Some (Inl e)
      | Inr nx \<Rightarrow>
          if nx = 0 then Some (Inr cur)
          else
            (case coll_cell_at m nx of
               Inl e \<Rightarrow> Some (Inl e)
             | Inr c \<Rightarrow>
                 if cc_odid c \<noteq> odid \<or> cc_mid c \<noteq> mid then coll_find m nx odid mid
                 else Some (Inr cur)))"

declare coll_find.simps [code]

text \<open>The header cell of the bucket; 0 when it could not be allocated.\<close>

definition ensure_bucket_mem :: "memory \<Rightarrow> addr \<Rightarrow> nat \<Rightarrow> fault + (addr \<times> memory)" where
  "ensure_bucket_mem m buf hk =
     bind_fault (buffer_at m buf) (\<lambda>b.
     if bf_hash_array b hk = 0 then
       (let (a, m1) = new_block m (Coll_Head (Some 0)) in
        Inr (a, store m1 buf (Buffer (b\<lparr>bf_hash_array := (bf_hash_array b)(hk := a)\<rparr>))))
     else Inr (bf_hash_array b hk, m))"

text \<open>
  A new cell behind \<open>cur\<close> with a new list of segments; the result is the address of the list, or
  0 when an allocation failed. The cell is linked before its fields are set, and its \<^verbatim>\<open>next\<close>
  only once everything else succeeded.
\<close>

definition new_message_mem ::
  "memory \<Rightarrow> addr \<Rightarrow> addr \<Rightarrow> u32 \<Rightarrow> u32 \<Rightarrow> fault + (addr \<times> memory)" where
  "new_message_mem m buf cur odid mid =
     (let (c, m1) = new_block m (Coll_Cell \<lparr>cc_odid = odid, cc_mid = mid, cc_head = 0, cc_next = None\<rparr>) in
      bind_fault (set_coll_next m1 cur c) (\<lambda>m2.
      if c = 0 then Inr (0, m2)
      else
        (let (h, m3) = create_message_segment_list_mem m2 odid mid in
         bind_fault (coll_cell_at m3 c) (\<lambda>cell.
         let m4 = store m3 c (Coll_Cell (cell\<lparr>cc_head := h\<rparr>)) in
         if h = 0 then Inr (0, m4)
         else
           bind_fault (buffer_at m4 buf) (\<lambda>b.
           let m5 = store m4 buf (Buffer (b\<lparr>bf_count := bf_count b + 1\<rparr>)) in
           bind_fault (set_coll_next m5 c 0) (\<lambda>m6. Inr (h, m6)))))))"

text \<open>\<^verbatim>\<open>insert_into_msl\<close> dereferences the list it is given in any case.\<close>

definition insert_segment_mem ::
  "memory \<Rightarrow> addr \<Rightarrow> u32 \<Rightarrow> u32 \<Rightarrow> u32 \<Rightarrow> int \<Rightarrow> u32 \<Rightarrow> addr \<Rightarrow> addr \<Rightarrow>
    (fault + (int \<times> memory)) option" where
  "insert_segment_mem m buf odid mid num is_last payload_size cont opts =
     bind_run (Some (ensure_bucket_mem m buf (unat (hashKey odid mid)))) (\<lambda>(head, m1).
     if head = 0 then Some (Inr (-3, m1))
     else
       bind_run (coll_find m1 head odid mid) (\<lambda>cur.
       bind_run (Some (coll_next_at m1 cur)) (\<lambda>nx.
       bind_run
         (if nx = 0 then Some (new_message_mem m1 buf cur odid mid)
          else bind_run (Some (coll_cell_at m1 nx)) (\<lambda>c.
               if cc_head c = 0 then Some (Inl Null_Deref) else Some (Inr (cc_head c, m1)))) (\<lambda>(h, m2).
       if h = 0 then Some (Inr (-3, m2))
       else insert_into_msl_mem m2 h num is_last payload_size cont opts))))"

definition get_segment_list_mem ::
  "memory \<Rightarrow> addr \<Rightarrow> u32 \<Rightarrow> u32 \<Rightarrow> (fault + addr) option" where
  "get_segment_list_mem m buf odid mid =
     bind_run (Some (buffer_at m buf)) (\<lambda>b.
     let head = bf_hash_array b (unat (hashKey odid mid)) in
     if head = 0 then Some (Inr 0)
     else
       bind_run (coll_find m head odid mid) (\<lambda>cur.
       bind_run (Some (coll_next_at m cur)) (\<lambda>nx.
       if nx = 0 then Some (Inr 0)
       else bind_run (Some (coll_cell_at m nx)) (\<lambda>c. Some (Inr (cc_head c))))))"

text \<open>The walk of \<^verbatim>\<open>clear_segment_list\<close>, with two pointers.\<close>

partial_function (option) clear_find ::
  "memory \<Rightarrow> addr \<Rightarrow> addr \<Rightarrow> u32 \<Rightarrow> u32 \<Rightarrow> (fault + (addr \<times> addr)) option"
where
  "clear_find m cur nx odid mid =
     (if nx = 0 then Some (Inr (cur, nx))
      else
        (case coll_cell_at m nx of
           Inl e \<Rightarrow> Some (Inl e)
         | Inr c \<Rightarrow>
             if cc_odid c \<noteq> odid \<or> cc_mid c \<noteq> mid then
               (case coll_next_at m nx of
                  Inl e \<Rightarrow> Some (Inl e)
                | Inr nx' \<Rightarrow>
                    (case coll_next_at m cur of
                       Inl e \<Rightarrow> Some (Inl e)
                     | Inr cur' \<Rightarrow> clear_find m cur' nx' odid mid))
             else Some (Inr (cur, nx))))"

declare clear_find.simps [code]

definition clear_segment_list_mem ::
  "memory \<Rightarrow> addr \<Rightarrow> u32 \<Rightarrow> u32 \<Rightarrow> (fault + (int \<times> memory)) option" where
  "clear_segment_list_mem m buf odid mid =
     bind_run (Some (buffer_at m buf)) (\<lambda>b.
     let head = bf_hash_array b (unat (hashKey odid mid)) in
     if head = 0 then Some (Inr (-1, m))
     else
       bind_run (Some (coll_next_at m head)) (\<lambda>nx0.
       bind_run (clear_find m head nx0 odid mid) (\<lambda>(cur, nx).
       if nx = 0 then Some (Inr (-1, m))
       else
         bind_run (Some (coll_next_at m nx)) (\<lambda>after.
         bind_run (Some (set_coll_next m cur after)) (\<lambda>m1.
         bind_run (Some (coll_cell_at m1 nx)) (\<lambda>c.
         bind_run (clear_msl_mem m1 (cc_head c)) (\<lambda>m2.
         bind_run (Some (free m2 nx)) (\<lambda>m3. Some (Inr (0, m3))))))))))"

section \<open>Annotated tables\<close>

text \<open>A cell of a collision list: its address, the identifiers, and its message if it has one.\<close>

type_synonym a_chain_cell = "addr \<times> u32 \<times> u32 \<times> a_message option"

record a_bucket =
  ab_addr :: addr
  ab_cells :: "a_chain_cell list"
  ab_dangling :: bool

text \<open>
  \<open>at_stale\<close> is what the array holds for a bucket that is not there: \<^verbatim>\<open>NULL\<close>, except while the
  whole buffer is freed, when it still holds the address of the freed header cell.
\<close>

record a_table =
  at_addr :: addr
  at_count :: u32
  at_buckets :: "nat \<Rightarrow> a_bucket option"
  at_cleanup :: u8
  at_index :: u8
  at_stale :: "nat \<Rightarrow> addr"

definition first_next :: "a_chain_cell list \<Rightarrow> addr option \<Rightarrow> addr option" where
  "first_next cs q = (case cs of [] \<Rightarrow> q | c # _ \<Rightarrow> Some (fst c))"

fun chain_cell :: "a_chain_cell \<Rightarrow> addr option \<Rightarrow> coll_cell_fields" where
  "chain_cell (a, odid, mid, h) q =
     \<lparr>cc_odid = odid, cc_mid = mid, cc_head = (case h of None \<Rightarrow> 0 | Some am \<Rightarrow> am_addr am), cc_next = q\<rparr>"

fun cell_message_blocks :: "a_chain_cell \<Rightarrow> region" where
  "cell_message_blocks (a, odid, mid, h) = (case h of None \<Rightarrow> {#} | Some am \<Rightarrow> message_blocks am)"

primrec chain_blocks :: "a_chain_cell list \<Rightarrow> addr option \<Rightarrow> region" where
  "chain_blocks [] q = {#}"
| "chain_blocks (c # cs) q =
     add_mset (fst c, Coll_Cell (chain_cell c (first_next cs q))) (cell_message_blocks c + chain_blocks cs q)"

text \<open>The \<^verbatim>\<open>next\<close> of the last cell.\<close>

definition end_of :: "bool \<Rightarrow> addr option" where
  "end_of dang = (if dang then None else Some 0)"

definition bucket_blocks :: "a_bucket \<Rightarrow> region" where
  "bucket_blocks b = add_mset (ab_addr b, Coll_Head (first_next (ab_cells b) (end_of (ab_dangling b))))
     (chain_blocks (ab_cells b) (end_of (ab_dangling b)))"

definition array_of :: "a_table \<Rightarrow> nat \<Rightarrow> addr" where
  "array_of at i = (case at_buckets at i of None \<Rightarrow> at_stale at i | Some b \<Rightarrow> ab_addr b)"

definition buffer_fields_of :: "a_table \<Rightarrow> buffer_fields" where
  "buffer_fields_of at = \<lparr>bf_count = at_count at, bf_hash_array = array_of at,
     bf_cleanup = at_cleanup at, bf_cleanup_start_index = at_index at\<rparr>"

definition slot_blocks :: "a_table \<Rightarrow> nat \<Rightarrow> region" where
  "slot_blocks at i = (case at_buckets at i of None \<Rightarrow> {#} | Some b \<Rightarrow> bucket_blocks b)"

definition slots_blocks :: "a_table \<Rightarrow> region" where
  "slots_blocks at = (\<Sum>i<SIZE_BUF. slot_blocks at i)"

definition table_blocks :: "a_table \<Rightarrow> region" where
  "table_blocks at = add_mset (at_addr at, Buffer (buffer_fields_of at)) (slots_blocks at)"

text \<open>The table as the other theories see it.\<close>

fun cell_of :: "a_chain_cell \<Rightarrow> collision_list_cell" where
  "cell_of (a, odid, mid, h) = \<lparr>cl_odid = odid, cl_mid = mid, cl_head = map_option list_value h\<rparr>"

definition bucket_val :: "a_bucket \<Rightarrow> bucket" where
  "bucket_val b = \<lparr>chain = map cell_of (ab_cells b), dangling = ab_dangling b\<rparr>"

definition buffer_of :: "a_table \<Rightarrow> segment_buffer" where
  "buffer_of at = \<lparr>sb_count = at_count at, hash_array = (\<lambda>i. map_option bucket_val (at_buckets at i)),
     cleanup = at_cleanup at, cleanup_start_index = at_index at\<rparr>"

text \<open>Every message in the table has its tail pointer at the last node of its options.\<close>

definition bucket_tails :: "a_bucket \<Rightarrow> bool" where
  "bucket_tails b \<longleftrightarrow> (\<forall>c \<in> set (ab_cells b). \<forall>am. snd (snd (snd c)) = Some am \<longrightarrow> tail_ok am)"

definition tails_ok :: "a_table \<Rightarrow> bool" where
  "tails_ok at \<longleftrightarrow> (\<forall>i b. at_buckets at i = Some b \<longrightarrow> bucket_tails b)"

definition with_bucket :: "a_table \<Rightarrow> nat \<Rightarrow> a_bucket \<Rightarrow> a_table" where
  "with_bucket at hk b = at\<lparr>at_buckets := (at_buckets at)(hk := Some b)\<rparr>"

lemma first_next_simps [simp]:
  "first_next [] q = q" "first_next (c # cs) q = Some (fst c)"
  "first_next (cs @ ds) q = first_next cs (first_next ds q)"
  by (simp_all add: first_next_def split: list.splits)

lemma chain_blocks_append [simp]:
  "chain_blocks (cs @ ds) q = chain_blocks cs (first_next ds q) + chain_blocks ds q"
  by (induction cs) (simp_all add: union_assoc)

text \<open>All buckets but one, which the operations on that one leave alone.\<close>

definition other_slots :: "a_table \<Rightarrow> nat \<Rightarrow> region" where
  "other_slots at hk = (\<Sum>i\<in>{..<SIZE_BUF} - {hk}. slot_blocks at i)"

lemma sum_slot: "hk < n \<Longrightarrow> sum f {..<n} = f hk + sum f ({..<n} - {hk})" for n :: nat
  by (rule sum.remove) simp_all

lemma table_slot:
  assumes "hk < SIZE_BUF"
  shows "table_blocks at =
    add_mset (at_addr at, Buffer (buffer_fields_of at)) (slot_blocks at hk + other_slots at hk)"
  unfolding table_blocks_def slots_blocks_def other_slots_def sum_slot[OF assms] by (rule refl)

lemma other_slots_cong:
  "(\<And>i. i \<noteq> hk \<Longrightarrow> at_buckets at' i = at_buckets at i) \<Longrightarrow> other_slots at' hk = other_slots at hk"
  unfolding other_slots_def by (rule sum.cong) (auto simp: slot_blocks_def)

lemma with_bucket_simps [simp]:
  "at_addr (with_bucket at hk b) = at_addr at" "at_count (with_bucket at hk b) = at_count at"
  "at_buckets (with_bucket at hk b) = (at_buckets at)(hk := Some b)"
  "at_cleanup (with_bucket at hk b) = at_cleanup at" "at_index (with_bucket at hk b) = at_index at"
  "at_stale (with_bucket at hk b) = at_stale at"
  "slot_blocks (with_bucket at hk b) hk = bucket_blocks b"
  by (simp_all add: with_bucket_def slot_blocks_def)

lemma other_slots_with_bucket [simp]: "other_slots (with_bucket at hk b) hk = other_slots at hk"
  by (rule other_slots_cong) simp

lemma tails_with_bucket: "tails_ok at \<Longrightarrow> bucket_tails b \<Longrightarrow> tails_ok (with_bucket at hk b)"
  by (simp add: tails_ok_def)

lemma buffer_of_with_bucket: "buffer_of (with_bucket at hk b) = set_bucket hk (bucket_val b) (buffer_of at)"
  by (auto simp: buffer_of_def set_bucket_def)

section \<open>Walking a collision list\<close>

definition a_before :: "u32 \<Rightarrow> u32 \<Rightarrow> a_chain_cell list \<Rightarrow> a_chain_cell list" where
  "a_before odid mid cs = takeWhile (\<lambda>c. \<not> is_message odid mid (cell_of c)) cs"

definition a_from :: "u32 \<Rightarrow> u32 \<Rightarrow> a_chain_cell list \<Rightarrow> a_chain_cell list" where
  "a_from odid mid cs = dropWhile (\<lambda>c. \<not> is_message odid mid (cell_of c)) cs"

lemma before_from: "cs = a_before odid mid cs @ a_from odid mid cs"
  by (simp add: a_before_def a_from_def)

lemma cells_before_of [simp]:
  "cells_before odid mid (map cell_of cs) = map cell_of (a_before odid mid cs)"
  by (simp add: cells_before_def a_before_def takeWhile_map o_def)

lemma cells_from_of [simp]:
  "cells_from odid mid (map cell_of cs) = map cell_of (a_from odid mid cs)"
  by (simp add: cells_from_def a_from_def dropWhile_map o_def)

lemma a_from_head: "a_from odid mid cs = c # ds \<Longrightarrow> is_message odid mid (cell_of c)"
  unfolding a_from_def by (simp add: dropWhile_eq_Cons_conv)

lemma chain_cell_simps [simp]:
  "cc_odid (chain_cell c q) = cl_odid (cell_of c)" "cc_mid (chain_cell c q) = cl_mid (cell_of c)"
  "cc_next (chain_cell c q) = q" "(chain_cell c q)\<lparr>cc_next := q'\<rparr> = chain_cell c q'"
  by (cases c; simp)+

lemma chain_at_run:
  assumes "owns m M" and "(fst c, Coll_Cell (chain_cell c q)) \<in># M"
  shows "coll_cell_at m (fst c) = Inr (chain_cell c q)" "fst c \<noteq> 0"
    "coll_next_at m (fst c) = pointer_set q"
  using owns_load(4)[OF assms] owns_mem[OF assms] by (simp_all add: coll_next_at_def)

lemma coll_find_run:
  assumes "owns m M" and "coll_next_at m p = pointer_set (first_next cs (end_of d))"
    and "set_mset (chain_blocks cs (end_of d)) \<subseteq> set_mset M" and "first_next (a_from odid mid cs) (end_of d) = Some nx"
  shows "coll_find m p odid mid = Some (Inr (last_addr p (a_before odid mid cs))) \<and>
    coll_next_at m (last_addr p (a_before odid mid cs)) = Inr nx"
  using assms(2-)
proof (induction cs arbitrary: p)
  case Nil
  then show ?case by (simp add: coll_find.simps[of m p] a_before_def a_from_def pointer_set_def end_of_def split: if_splits)
next
  case (Cons c cs)
  have "(fst c, Coll_Cell (chain_cell c (first_next cs (end_of d)))) \<in># M" using Cons.prems(2) by simp
  note at = chain_at_run[OF assms(1) this]
  have "coll_next_at m p = Inr (fst c)" using Cons.prems(1) by (simp add: pointer_set_def)
  then show ?case
    using Cons.IH[OF at(3)] Cons.prems(2,3) at
    by (subst coll_find.simps) (auto simp: a_before_def a_from_def is_message_def)
qed

lemma clear_find_run:
  assumes "owns m M" and "coll_next_at m p = pointer_set (first_next cs (end_of d))"
    and "set_mset (chain_blocks cs (end_of d)) \<subseteq> set_mset M" and "first_next (a_from odid mid cs) (end_of d) = Some nx"
    and "first_next cs (end_of d) = Some nx0"
  shows "clear_find m p nx0 odid mid = Some (Inr (last_addr p (a_before odid mid cs), nx))"
  using assms(2-)
proof (induction cs arbitrary: p nx0)
  case Nil
  then show ?case by (simp add: clear_find.simps[of m p] a_before_def a_from_def end_of_def split: if_splits)
next
  case (Cons c cs)
  have "(fst c, Coll_Cell (chain_cell c (first_next cs (end_of d)))) \<in># M" using Cons.prems(2) by simp
  note at = chain_at_run[OF assms(1) this]
  have next_p: "coll_next_at m p = Inr (fst c)" "nx0 = fst c"
    using Cons.prems(1,4) by (simp_all add: pointer_set_def)
  show ?case
  proof (cases "is_message odid mid (cell_of c)")
    case True
    then show ?thesis
      using Cons.prems(3) next_p at
      by (subst clear_find.simps) (simp add: a_before_def a_from_def is_message_def)
  next
    case False
    then have from_cs: "first_next (a_from odid mid cs) (end_of d) = Some nx"
      using Cons.prems(3) by (simp add: a_from_def)
    then obtain nx1 where nx1: "first_next cs (end_of d) = Some nx1"
      by (cases cs) (auto simp: a_from_def)
    have "clear_find m (fst c) nx1 odid mid = Some (Inr (last_addr (fst c) (a_before odid mid cs), nx))"
      using Cons.prems(2) by (intro Cons.IH[OF at(3) _ from_cs nx1]) simp
    then show ?thesis
      using False next_p at nx1
      by (subst clear_find.simps) (auto simp: a_before_def is_message_def pointer_set_def)
  qed
qed

text \<open>The last cell of a collision list, the header cell when it is empty, with another successor.\<close>

fun with_coll_next :: "addr option \<Rightarrow> block \<Rightarrow> block" where
  "with_coll_next q (Coll_Head _) = Coll_Head q"
| "with_coll_next q (Coll_Cell c) = Coll_Cell (c\<lparr>cc_next := q\<rparr>)"
| "with_coll_next q b = b"

definition is_chain_cell :: "block \<Rightarrow> bool" where
  "is_chain_cell b \<longleftrightarrow> (case b of Coll_Head _ \<Rightarrow> True | Coll_Cell _ \<Rightarrow> True | _ \<Rightarrow> False)"

lemma chain_last:
  "\<exists>b R. is_chain_cell b \<and>
     (\<forall>q. add_mset (a, Coll_Head (first_next cs q)) (chain_blocks cs q) =
       add_mset (last_addr a cs, with_coll_next q b) R)"
proof (cases cs rule: rev_cases)
  case Nil
  then show ?thesis
    by (intro exI[of _ "Coll_Head None"] exI[of _ "{#}"]) (simp add: is_chain_cell_def)
next
  case (snoc ds d)
  let ?R = "add_mset (a, Coll_Head (first_next ds (Some (fst d))))
    (cell_message_blocks d + chain_blocks ds (Some (fst d)))"
  show ?thesis
    using snoc by (intro exI[of _ "Coll_Cell (chain_cell d None)"] exI[of _ ?R])
      (simp add: region_ac is_chain_cell_def)
qed

lemma set_coll_next_run:
  assumes o: "owns m (add_mset (a, with_coll_next q b) M)" and "is_chain_cell b"
  shows "set_coll_next m a p = Inr (store m a (with_coll_next (Some p) b))"
    "owns (store m a (with_coll_next (Some p) b)) (add_mset (a, with_coll_next (Some p) b) M)"
proof -
  have "load m a = Inr (with_coll_next q b)" using owns_mem(4)[OF o, of a] by simp
  then show "set_coll_next m a p = Inr (store m a (with_coll_next (Some p) b))"
    using assms(2) by (cases b) (simp_all add: set_coll_next_def is_chain_cell_def)
  show "owns (store m a (with_coll_next (Some p) b)) (add_mset (a, with_coll_next (Some p) b) M)"
    using owns_store[OF o] .
qed

section \<open>Inserting a segment\<close>

lemma buffer_at_run: "owns m (table_blocks at + F) \<Longrightarrow> buffer_at m (at_addr at) = Inr (buffer_fields_of at)"
  by (rule owns_load(5), assumption) (simp add: table_blocks_def)

lemma table_bucket:
  "hk < SIZE_BUF \<Longrightarrow> at_buckets at hk = Some b \<Longrightarrow> table_blocks at =
    add_mset (at_addr at, Buffer (buffer_fields_of at)) (bucket_blocks b + other_slots at hk)"
  by (simp only: table_slot slot_blocks_def option.case)

text \<open>Replacing a bucket by one with the same header cell changes nothing in the array.\<close>

lemma buffer_fields_with_bucket:
  "array_of at hk = ab_addr b \<Longrightarrow> buffer_fields_of (with_bucket at hk b) = buffer_fields_of at"
  by (auto simp: buffer_fields_of_def array_of_def fun_eq_iff split: option.splits)

lemma with_bucket_same: "at_buckets at hk = Some b \<Longrightarrow> with_bucket at hk b = at"
  by (cases at) (auto simp: with_bucket_def)

lemma ensure_bucket_run:
  assumes o: "owns m (table_blocks at + F)" and hk: "hk < SIZE_BUF"
    and "ensure_bucket (buffer_of at) hk (outcomes m) = (Some fb, buf1, as)" and null: "at_stale at hk = 0"
  shows "\<exists>b m1. ensure_bucket_mem m (at_addr at) hk = Inr (ab_addr b, m1) \<and> ab_addr b \<noteq> 0 \<and>
    bucket_val b = fb \<and> buffer_of (with_bucket at hk b) = buf1 \<and> outcomes m1 = as \<and>
    (at_buckets at hk = Some b \<or> ab_cells b = []) \<and>
    owns m1 (table_blocks (with_bucket at hk b) + F)"
proof (cases "at_buckets at hk")
  case (Some b)
  have "ab_addr b \<noteq> 0"
    using owns_mem(2)[OF o, of "ab_addr b"] unfolding table_bucket[OF hk Some] bucket_blocks_def
    by auto
  then have "ensure_bucket_mem m (at_addr at) hk = Inr (ab_addr b, m)"
    using buffer_at_run[OF o] Some by (simp add: ensure_bucket_mem_def buffer_fields_of_def array_of_def)
  then show ?thesis
    using assms(3) o Some \<open>ab_addr b \<noteq> 0\<close> with_bucket_same[OF Some]
    by (intro exI[of _ b] exI[of _ m]) (auto simp: ensure_bucket_def buffer_of_def)
next
  case None
  then obtain ok: "malloc (outcomes m) = (True, as)" "fb = empty_bucket"
      "buf1 = set_bucket hk empty_bucket (buffer_of at)"
    using assms(3) by (auto simp: ensure_bucket_def buffer_of_def split: prod.splits if_splits)
  obtain a m1 where m1: "new_block m (Coll_Head (Some 0)) = (a, m1)" "a \<noteq> 0" "outcomes m1 = as"
    "owns m1 (add_mset (a, Coll_Head (Some 0)) (table_blocks at + F))"
    using owns_new_block[OF o ok(1)] by blast
  let ?b = "\<lparr>ab_addr = a, ab_cells = [], ab_dangling = False\<rparr>"
  let ?at = "with_bucket at hk ?b"
  let ?m = "store m1 (at_addr at) (Buffer (buffer_fields_of ?at))"
  have o1: "owns m1 (add_mset (at_addr at, Buffer (buffer_fields_of at))
      (add_mset (a, Coll_Head (Some 0)) (other_slots at hk + F)))"
    using m1(4) None unfolding table_slot[OF hk] by (simp add: slot_blocks_def region_ac)
  have "owns ?m (table_blocks ?at + F)"
    using owns_store[OF o1, of "Buffer (buffer_fields_of ?at)"]
    unfolding table_slot[OF hk, of ?at] by (simp add: bucket_blocks_def end_of_def region_ac)
  moreover have "buffer_fields_of ?at =
      (buffer_fields_of at)\<lparr>bf_hash_array := (bf_hash_array (buffer_fields_of at))(hk := a)\<rparr>"
    by (auto simp: buffer_fields_of_def array_of_def fun_eq_iff split: option.splits)
  then have "ensure_bucket_mem m (at_addr at) hk = Inr (a, ?m)"
    using buffer_at_run[OF o] None m1(1) null
    by (simp add: ensure_bucket_mem_def buffer_fields_of_def array_of_def)
  ultimately show ?thesis
    using m1(2,3) ok(2,3)
    by (intro exI[of _ ?b] exI[of _ ?m])
      (simp add: bucket_val_def empty_bucket_def buffer_of_with_bucket)
qed

lemma ensure_bucket_failed:
  assumes o: "owns m (table_blocks at + F)"
    and "ensure_bucket (buffer_of at) hk (outcomes m) = (None, buf1, as)" and null: "at_stale at hk = 0"
  shows "\<exists>m1. ensure_bucket_mem m (at_addr at) hk = Inr (0, m1) \<and> outcomes m1 = as \<and>
    buf1 = buffer_of at \<and> owns m1 (table_blocks at + F)"
proof -
  have none: "at_buckets at hk = None" and failed: "malloc (outcomes m) = (False, as)"
    and buf1: "buf1 = buffer_of at"
    using assms(2) by (auto simp: ensure_bucket_def buffer_of_def split: option.splits prod.splits if_splits)
  let ?m = "store (m\<lparr>outcomes := as\<rparr>) (at_addr at) (Buffer (buffer_fields_of at))"
  have same: "(buffer_fields_of at)\<lparr>bf_hash_array := (bf_hash_array (buffer_fields_of at))(hk := 0)\<rparr> =
      buffer_fields_of at"
    using none null by (auto simp: buffer_fields_of_def array_of_def)
  have "ensure_bucket_mem m (at_addr at) hk = Inr (0, ?m)"
    using buffer_at_run[OF o] none new_block_failed(1)[OF o failed] same null
    by (simp add: ensure_bucket_mem_def buffer_fields_of_def array_of_def)
  moreover have "owns ?m (table_blocks at + F)"
    using owns_store[of "m\<lparr>outcomes := as\<rparr>" "at_addr at" "Buffer (buffer_fields_of at)"]
      new_block_failed(2)[OF o failed] by (simp add: table_blocks_def)
  ultimately show ?thesis using buf1 by simp
qed

text \<open>A bucket whose list gets one more cell.\<close>

definition with_cell :: "a_bucket \<Rightarrow> a_chain_cell \<Rightarrow> bool \<Rightarrow> a_bucket" where
  "with_cell b c dang = b\<lparr>ab_cells := ab_cells b @ [c], ab_dangling := dang\<rparr>"

lemma with_cell_addr [simp]: "ab_addr (with_cell b c dang) = ab_addr b"
  by (simp add: with_cell_def)

lemma bucket_extend:
  assumes "\<not> ab_dangling b"
  shows "\<exists>x R. is_chain_cell x \<and>
    bucket_blocks b = add_mset (last_addr (ab_addr b) (ab_cells b), with_coll_next (Some 0) x) R \<and>
    (\<forall>c dang. bucket_blocks (with_cell b c dang) =
      add_mset (last_addr (ab_addr b) (ab_cells b), with_coll_next (Some (fst c)) x)
        (add_mset (fst c, Coll_Cell (chain_cell c (end_of dang))) (cell_message_blocks c + R)))"
proof -
  obtain x R where x: "is_chain_cell x"
    and R: "\<And>q. add_mset (ab_addr b, Coll_Head (first_next (ab_cells b) q)) (chain_blocks (ab_cells b) q) =
       add_mset (last_addr (ab_addr b) (ab_cells b), with_coll_next q x) R"
    using chain_last[of "ab_addr b" "ab_cells b"] by blast
  have "bucket_blocks b = add_mset (ab_addr b, Coll_Head (first_next (ab_cells b) (Some 0)))
      (chain_blocks (ab_cells b) (Some 0))"
    using assms by (simp add: bucket_blocks_def end_of_def)
  moreover have "bucket_blocks (with_cell b c dang) =
      add_mset (ab_addr b, Coll_Head (first_next (ab_cells b) (Some (fst c)))) (chain_blocks (ab_cells b) (Some (fst c))) +
      add_mset (fst c, Coll_Cell (chain_cell c (end_of dang))) (cell_message_blocks c)" for c dang
    by (simp add: bucket_blocks_def with_cell_def)
  ultimately show ?thesis
    unfolding R using x by (intro exI[of _ x] exI[of _ R]) (simp add: region_ac)
qed

lemma table_with_cell:
  assumes "hk < SIZE_BUF" and "at_buckets at hk = Some b"
    and "bucket_blocks (with_cell b c dang) = R"
  shows "table_blocks (with_bucket at hk (with_cell b c dang)) =
    add_mset (at_addr at, Buffer (buffer_fields_of at)) (R + other_slots at hk)"
  using assms(2,3) buffer_fields_with_bucket[of at hk "with_cell b c dang"]
  unfolding table_slot[OF assms(1)] by (simp add: array_of_def)

text \<open>The three outcomes of making a cell for a new message.\<close>

lemma new_message_no_cell:
  assumes o: "owns m (table_blocks at + F)" and hk: "hk < SIZE_BUF" and b: "at_buckets at hk = Some b"
    and "\<not> ab_dangling b" and "malloc (outcomes m) = (False, as)"
  shows "\<exists>m'. new_message_mem m (at_addr at) (last_addr (ab_addr b) (ab_cells b)) odid mid = Inr (0, m') \<and>
    outcomes m' = as \<and> owns m' (table_blocks at + F)"
proof -
  let ?l = "last_addr (ab_addr b) (ab_cells b)" and ?m = "m\<lparr>outcomes := as\<rparr>"
  obtain x R where x: "is_chain_cell x" "bucket_blocks b = add_mset (?l, with_coll_next (Some 0) x) R"
    using bucket_extend[OF assms(4)] by blast
  let ?R = "add_mset (at_addr at, Buffer (buffer_fields_of at)) (R + other_slots at hk + F)"
  have all: "table_blocks at + F = add_mset (?l, with_coll_next (Some 0) x) ?R"
    unfolding table_bucket[OF hk b] x(2) by (simp add: region_ac)
  have o1: "owns ?m (add_mset (?l, with_coll_next (Some 0) x) ?R)"
    using new_block_failed(2)[OF o assms(5)] unfolding all .
  show ?thesis
    unfolding all using set_coll_next_run[OF o1 x(1), of 0] new_block_failed(1)[OF o assms(5)]
    by (simp add: new_message_mem_def)
qed

lemma new_message_cell:
  assumes o: "owns m (table_blocks at + F)" and hk: "hk < SIZE_BUF" and b: "at_buckets at hk = Some b"
    and "\<not> ab_dangling b" and "malloc (outcomes m) = (True, as)"
  defines "l \<equiv> last_addr (ab_addr b) (ab_cells b)"
  shows "\<exists>c m1 m2. new_block m (Coll_Cell \<lparr>cc_odid = odid, cc_mid = mid, cc_head = 0, cc_next = None\<rparr>) = (c, m1) \<and>
    c \<noteq> 0 \<and> set_coll_next m1 l c = Inr m2 \<and> outcomes m2 = as \<and>
    owns m2 (table_blocks (with_bucket at hk (with_cell b (c, odid, mid, None) True)) + F)"
proof -
  let ?cell = "Coll_Cell \<lparr>cc_odid = odid, cc_mid = mid, cc_head = 0, cc_next = None\<rparr>"
  obtain c m1 where m1: "new_block m ?cell = (c, m1)" "c \<noteq> 0" "outcomes m1 = as"
    "owns m1 (add_mset (c, ?cell) (table_blocks at + F))"
    using owns_new_block[OF o assms(5)] by blast
  obtain x R where x: "is_chain_cell x" "bucket_blocks b = add_mset (l, with_coll_next (Some 0) x) R"
    "\<And>c dang. bucket_blocks (with_cell b c dang) = add_mset (l, with_coll_next (Some (fst c)) x)
        (add_mset (fst c, Coll_Cell (chain_cell c (end_of dang))) (cell_message_blocks c + R))"
    unfolding l_def using bucket_extend[OF assms(4)] by blast
  have o1: "owns m1 (add_mset (l, with_coll_next (Some 0) x) (add_mset (c, ?cell)
      (add_mset (at_addr at, Buffer (buffer_fields_of at)) (R + other_slots at hk + F))))"
    using m1(4) unfolding table_bucket[OF hk b] x(2) by (simp add: region_ac)
  have "owns (store m1 l (with_coll_next (Some c) x))
      (table_blocks (with_bucket at hk (with_cell b (c, odid, mid, None) True)) + F)"
    using set_coll_next_run(2)[OF o1 x(1), of c] unfolding table_with_cell[OF hk b x(3)]
    by (simp add: end_of_def region_ac)
  then show ?thesis
    using m1(1-3) set_coll_next_run(1)[OF o1 x(1), of c]
    by (intro exI[of _ c] exI[of _ m1] exI[of _ "store m1 l (with_coll_next (Some c) x)"]) simp
qed

lemma slots_with_bucket:
  "hk < SIZE_BUF \<Longrightarrow> slots_blocks (with_bucket at hk b) = bucket_blocks b + other_slots at hk"
  unfolding slots_blocks_def sum_slot[of hk SIZE_BUF] other_slots_def[symmetric] by simp

lemma slots_count [simp]: "slots_blocks (at\<lparr>at_count := n\<rparr>) = slots_blocks at"
  unfolding slots_blocks_def by (rule sum.cong) (simp_all add: slot_blocks_def)

lemma slots_new_cell:
  assumes hk: "hk < SIZE_BUF" and "\<not> ab_dangling b"
  shows "\<exists>G. \<forall>h dang. slots_blocks (with_bucket at hk (with_cell b (c, odid, mid, h) dang)) =
    add_mset (c, Coll_Cell (chain_cell (c, odid, mid, h) (end_of dang)))
      (cell_message_blocks (c, odid, mid, h) + G)"
proof -
  let ?l = "last_addr (ab_addr b) (ab_cells b)"
  obtain x R where x: "\<And>c dang. bucket_blocks (with_cell b c dang) = add_mset (?l, with_coll_next (Some (fst c)) x)
        (add_mset (fst c, Coll_Cell (chain_cell c (end_of dang))) (cell_message_blocks c + R))"
    using bucket_extend[OF assms(2)] by blast
  show ?thesis
    by (intro exI[of _ "add_mset (?l, with_coll_next (Some c) x) (R + other_slots at hk)"])
      (simp only: slots_with_bucket[OF hk] x, simp add: region_ac)
qed

lemma new_message_no_list:
  assumes o: "owns m (table_blocks at + F)" and hk: "hk < SIZE_BUF" and b: "at_buckets at hk = Some b"
    and dang: "\<not> ab_dangling b" and "malloc (outcomes m) = (True, as)" and "malloc as = (False, as1)"
  shows "\<exists>c m'. new_message_mem m (at_addr at) (last_addr (ab_addr b) (ab_cells b)) odid mid = Inr (0, m') \<and>
    outcomes m' = as1 \<and> owns m' (table_blocks (with_bucket at hk (with_cell b (c, odid, mid, None) True)) + F)"
proof -
  let ?l = "last_addr (ab_addr b) (ab_cells b)"
  let ?f = "\<lparr>cc_odid = odid, cc_mid = mid, cc_head = 0, cc_next = None\<rparr>"
  obtain c m1 m2 where m2: "new_block m (Coll_Cell ?f) = (c, m1)" "c \<noteq> 0"
    "set_coll_next m1 ?l c = Inr m2" "outcomes m2 = as"
    "owns m2 (table_blocks (with_bucket at hk (with_cell b (c, odid, mid, None) True)) + F)"
    using new_message_cell[OF o hk b dang assms(5)] by blast
  let ?T = "table_blocks (with_bucket at hk (with_cell b (c, odid, mid, None) True))"
  have failed: "malloc (outcomes m2) = (False, as1)" using m2(4) assms(6) by simp
  obtain G where "slots_blocks (with_bucket at hk (with_cell b (c, odid, mid, None) True)) =
      add_mset (c, Coll_Cell (chain_cell (c, odid, mid, None) (end_of True)))
        (cell_message_blocks (c, odid, mid, None) + G)"
    using slots_new_cell[OF hk dang] by blast
  then obtain R where R: "?T = add_mset (c, Coll_Cell ?f) R"
    by (simp add: table_blocks_def end_of_def)
  note o3 = new_block_failed(2)[OF m2(5) failed]
  have "coll_cell_at (m2\<lparr>outcomes := as1\<rparr>) c = Inr ?f"
    using owns_load(4)[OF o3, of c ?f] by (simp add: R)
  then have "new_message_mem m (at_addr at) ?l odid mid =
      Inr (0, store (m2\<lparr>outcomes := as1\<rparr>) c (Coll_Cell ?f))"
    using m2(1-3) new_block_failed(1)[OF m2(5) failed]
    by (simp add: new_message_mem_def create_message_segment_list_mem_def)
  moreover have "owns (store (m2\<lparr>outcomes := as1\<rparr>) c (Coll_Cell ?f)) (?T + F)"
    using owns_store[of "m2\<lparr>outcomes := as1\<rparr>" c "Coll_Cell ?f" "R + F"] o3 by (simp add: R)
  ultimately show ?thesis
    by (intro exI[of _ c] exI[of _ "store (m2\<lparr>outcomes := as1\<rparr>) c (Coll_Cell ?f)"]) simp
qed

lemma new_message_run:
  assumes o: "owns m (table_blocks at + F)" and hk: "hk < SIZE_BUF" and b: "at_buckets at hk = Some b"
    and dang: "\<not> ab_dangling b" and "malloc (outcomes m) = (True, as)" and "malloc as = (True, as1)"
  shows "\<exists>c h m'. new_message_mem m (at_addr at) (last_addr (ab_addr b) (ab_cells b)) odid mid = Inr (h, m') \<and>
    h \<noteq> 0 \<and> outcomes m' = as1 \<and>
    owns m' (table_blocks ((with_bucket at hk (with_cell b (c, odid, mid, Some (a_new_message h odid mid)) False))
      \<lparr>at_count := at_count at + 1\<rparr>) + F)"
proof -
  let ?l = "last_addr (ab_addr b) (ab_cells b)" and ?a = "at_addr at"
  let ?f = "\<lambda>h q. \<lparr>cc_odid = odid, cc_mid = mid, cc_head = h, cc_next = q\<rparr>"
  let ?bf = "buffer_fields_of at"
  obtain c m1 m2 where m2: "new_block m (Coll_Cell (?f 0 None)) = (c, m1)" "c \<noteq> 0"
    "set_coll_next m1 ?l c = Inr m2" "outcomes m2 = as"
    "owns m2 (table_blocks (with_bucket at hk (with_cell b (c, odid, mid, None) True)) + F)"
    using new_message_cell[OF o hk b dang assms(5)] by blast
  obtain G where G: "\<And>h dang. slots_blocks (with_bucket at hk (with_cell b (c, odid, mid, h) dang)) =
      add_mset (c, Coll_Cell (chain_cell (c, odid, mid, h) (end_of dang)))
        (cell_message_blocks (c, odid, mid, h) + G)"
    using slots_new_cell[OF hk dang] by blast
  have fields: "buffer_fields_of (with_bucket at hk (with_cell b x d)) = ?bf" for x d
    using b by (intro buffer_fields_with_bucket) (simp add: array_of_def)
  obtain h m3 where m3: "create_message_segment_list_mem m2 odid mid = (h, m3)" "h \<noteq> 0" "outcomes m3 = as1"
    "owns m3 (message_blocks (a_new_message h odid mid) +
      (table_blocks (with_bucket at hk (with_cell b (c, odid, mid, None) True)) + F))"
    using create_message_segment_list_run[OF m2(5)] m2(4) assms(6) by metis
  let ?am = "a_new_message h odid mid"
  have addr: "am_addr ?am = h" by (simp add: a_new_message_def)
  have o3: "owns m3 (add_mset (c, Coll_Cell (?f 0 None))
      (add_mset (?a, Buffer ?bf) (message_blocks ?am + G + F)))"
    using m3(4) by (simp add: table_blocks_def G fields end_of_def region_ac)
  define m4 where "m4 = store m3 c (Coll_Cell (?f h None))"
  have o4: "owns m4 (add_mset (?a, Buffer ?bf)
      (add_mset (c, with_coll_next None (Coll_Cell (?f h None))) (message_blocks ?am + G + F)))"
    using owns_store[OF o3, of "Coll_Cell (?f h None)"] unfolding m4_def by (simp add: region_ac)
  define m5 where "m5 = store m4 ?a (Buffer (?bf\<lparr>bf_count := bf_count ?bf + 1\<rparr>))"
  have o5: "owns m5 (add_mset (c, with_coll_next None (Coll_Cell (?f h None)))
      (add_mset (?a, Buffer (?bf\<lparr>bf_count := bf_count ?bf + 1\<rparr>)) (message_blocks ?am + G + F)))"
    using owns_store[OF o4, of "Buffer (?bf\<lparr>bf_count := bf_count ?bf + 1\<rparr>)"] unfolding m5_def
    by (simp add: region_ac)
  let ?at = "(with_bucket at hk (with_cell b (c, odid, mid, Some ?am) False))\<lparr>at_count := at_count at + 1\<rparr>"
  have "buffer_fields_of ?at = (buffer_fields_of (with_bucket at hk (with_cell b (c, odid, mid, Some ?am) False)))
      \<lparr>bf_count := bf_count ?bf + 1\<rparr>"
    by (auto simp: buffer_fields_of_def array_of_def fun_eq_iff split: option.splits)
  then have at': "table_blocks ?at = add_mset (?a, Buffer (?bf\<lparr>bf_count := bf_count ?bf + 1\<rparr>))
      (add_mset (c, Coll_Cell (?f h (Some 0))) (message_blocks ?am + G))"
    by (simp add: table_blocks_def G fields end_of_def addr)
  have chain: "is_chain_cell (Coll_Cell (?f h None))" by (simp add: is_chain_cell_def)
  have "new_message_mem m ?a ?l odid mid = Inr (h, store m5 c (Coll_Cell (?f h (Some 0))))"
    using m2(1-3) m3(1,2) owns_load(4)[OF o3, of c "?f 0 None"] owns_load(5)[OF o4, of ?a ?bf]
      set_coll_next_run(1)[OF o5 chain, of 0]
    by (simp add: new_message_mem_def m4_def[symmetric] m5_def[symmetric])
  moreover have "owns (store m5 c (Coll_Cell (?f h (Some 0)))) (table_blocks ?at + F)"
    using set_coll_next_run(2)[OF o5 chain, of 0] by (simp add: at' region_ac)
  ultimately show ?thesis
    using m3(2,3) by (intro exI[of _ c] exI[of _ h] exI[of _ "store m5 c (Coll_Cell (?f h (Some 0)))"])
      (simp add: m4_def m5_def)
qed

text \<open>A message in the table that is replaced by another at the same address.\<close>

definition with_message :: "a_bucket \<Rightarrow> a_chain_cell list \<Rightarrow> a_chain_cell \<Rightarrow> a_chain_cell list \<Rightarrow> a_message \<Rightarrow> a_bucket" where
  "with_message b us c vs am = b\<lparr>ab_cells := us @ (fst c, fst (snd c), fst (snd (snd c)), Some am) # vs\<rparr>"

lemma table_known:
  assumes hk: "hk < SIZE_BUF" and b: "at_buckets at hk = Some b"
    and cells: "ab_cells b = us @ c # vs" and c: "snd (snd (snd c)) = Some am"
  shows "\<exists>G. table_blocks at = message_blocks am + G \<and>
    (\<forall>am'. am_addr am' = am_addr am \<longrightarrow>
      table_blocks (with_bucket at hk (with_message b us c vs am')) = message_blocks am' + G)"
proof -
  let ?q = "end_of (ab_dangling b)" and ?bf = "(at_addr at, Buffer (buffer_fields_of at))"
  obtain a odid mid where c': "c = (a, odid, mid, Some am)" using c by (cases c) auto
  let ?cell = "Coll_Cell (chain_cell c (first_next vs ?q))"
  let ?H = "add_mset (ab_addr b, Coll_Head (first_next us (Some a)))
    (chain_blocks us (Some a) + add_mset (a, ?cell) (chain_blocks vs ?q))"
  have same: "chain_cell (a, odid, mid, Some am') q = chain_cell c q" if "am_addr am' = am_addr am" for am' q
    using that c' by simp
  have "bucket_blocks b = message_blocks am + ?H"
    using cells c' by (simp add: bucket_blocks_def region_ac)
  moreover have "bucket_blocks (with_message b us c vs am') = message_blocks am' + ?H"
    if "am_addr am' = am_addr am" for am'
    using same[OF that] c' by (simp add: with_message_def bucket_blocks_def region_ac)
  moreover have "buffer_fields_of (with_bucket at hk (with_message b us c vs am')) = buffer_fields_of at" for am'
    using b by (intro buffer_fields_with_bucket) (simp add: array_of_def with_message_def)
  ultimately show ?thesis
    using table_bucket[OF hk b]
    by (intro exI[of _ "add_mset ?bf (?H + other_slots at hk)"])
      (simp add: table_blocks_def slots_with_bucket[OF hk] union_assoc)
qed

lemma bucket_next_at:
  assumes o: "owns m (table_blocks at + F)" and hk: "hk < SIZE_BUF" and b: "at_buckets at hk = Some b"
  shows "coll_next_at m (ab_addr b) = pointer_set (first_next (ab_cells b) (end_of (ab_dangling b)))"
    "set_mset (chain_blocks (ab_cells b) (end_of (ab_dangling b))) \<subseteq> set_mset (table_blocks at + F)"
    "ab_addr b \<noteq> 0"
proof -
  have hd: "(ab_addr b, Coll_Head (first_next (ab_cells b) (end_of (ab_dangling b)))) \<in># table_blocks at + F"
    unfolding table_bucket[OF hk b] by (simp add: bucket_blocks_def)
  show "coll_next_at m (ab_addr b) = pointer_set (first_next (ab_cells b) (end_of (ab_dangling b)))"
    "ab_addr b \<noteq> 0"
    using owns_mem[OF o hd] by (simp_all add: coll_next_at_def)
  show "set_mset (chain_blocks (ab_cells b) (end_of (ab_dangling b))) \<subseteq> set_mset (table_blocks at + F)"
    unfolding table_bucket[OF hk b] by (auto simp: bucket_blocks_def)
qed

lemma chain_cell_in_table:
  assumes o: "owns m (table_blocks at + F)" and hk: "hk < SIZE_BUF" and b: "at_buckets at hk = Some b"
    and from_c: "a_from odid mid (ab_cells b) = c # vs"
  shows "coll_cell_at m (fst c) = Inr (chain_cell c (first_next vs (end_of (ab_dangling b))))" "fst c \<noteq> 0"
    "coll_next_at m (fst c) = pointer_set (first_next vs (end_of (ab_dangling b)))"
proof -
  let ?q = "end_of (ab_dangling b)"
  have "chain_blocks (ab_cells b) ?q = chain_blocks (a_before odid mid (ab_cells b) @ c # vs) ?q"
    using before_from[of "ab_cells b" odid mid] from_c by simp
  then have "(fst c, Coll_Cell (chain_cell c (first_next vs ?q))) \<in># table_blocks at + F"
    using bucket_next_at(2)[OF o hk b] by auto
  from chain_at_run[OF o this]
  show "coll_cell_at m (fst c) = Inr (chain_cell c (first_next vs ?q))" "fst c \<noteq> 0"
    "coll_next_at m (fst c) = pointer_set (first_next vs ?q)" by simp_all
qed

text \<open>\<^verbatim>\<open>insert_segment\<close> once the bucket has its header cell: the message is there, or it is made.\<close>

lemma insert_segment_found:
  assumes "ensure_bucket_mem m a (unat (hashKey odid mid)) = Inr (ab_addr b, m1)"
    and o: "owns m1 (table_blocks at + F)" and b: "at_buckets at (unat (hashKey odid mid)) = Some b"
    and from_c: "a_from odid mid (ab_cells b) = c # vs" and c: "snd (snd (snd c)) = Some am"
    and "am_addr am \<noteq> 0"
  shows "insert_segment_mem m a odid mid num is_last n ct opts =
    insert_into_msl_mem m1 (am_addr am) num is_last n ct opts"
proof -
  let ?l = "last_addr (ab_addr b) (a_before odid mid (ab_cells b))"
  note bkt = bucket_next_at[OF o hashKey_less b]
  have "coll_find m1 (ab_addr b) odid mid = Some (Inr ?l) \<and> coll_next_at m1 ?l = Inr (fst c)"
    using from_c by (intro coll_find_run[OF o bkt(1,2)]) simp
  moreover have "cc_head (chain_cell c q) = am_addr am" for q using c by (cases c) simp
  ultimately show ?thesis
    using assms(1,6) bkt(3) chain_cell_in_table[OF o hashKey_less b from_c]
    by (simp add: insert_segment_mem_def)
qed

lemma insert_segment_absent_mem:
  assumes "ensure_bucket_mem m a (unat (hashKey odid mid)) = Inr (ab_addr b, m1)"
    and o: "owns m1 (table_blocks at + F)" and b: "at_buckets at (unat (hashKey odid mid)) = Some b"
    and absent: "a_from odid mid (ab_cells b) = []" and "\<not> ab_dangling b"
  shows "insert_segment_mem m a odid mid num is_last n ct opts =
    bind_run (Some (new_message_mem m1 a (last_addr (ab_addr b) (ab_cells b)) odid mid)) (\<lambda>(h, m2).
      if h = 0 then Some (Inr (-3, m2)) else insert_into_msl_mem m2 h num is_last n ct opts)"
proof -
  note bkt = bucket_next_at[OF o hashKey_less b]
  have all: "a_before odid mid (ab_cells b) = ab_cells b"
    using before_from[of "ab_cells b" odid mid] absent by simp
  let ?l = "last_addr (ab_addr b) (ab_cells b)"
  have "coll_find m1 (ab_addr b) odid mid = Some (Inr ?l) \<and> coll_next_at m1 ?l = Inr 0"
    using coll_find_run[OF o bkt(1,2), of odid mid 0] absent all assms(5) by (simp add: end_of_def)
  then show ?thesis using assms(1) bkt(3) by (simp add: insert_segment_mem_def)
qed

lemma insert_message_run:
  assumes hk: "hk < SIZE_BUF" and b: "at_buckets at hk = Some b"
    and cells: "ab_cells b = us @ c # vs" and c: "snd (snd (snd c)) = Some am"
    and o: "owns m (table_blocks at + (add_mset (ct, Raw bs) (option_list_blocks opts xs) + F))"
    and tails: "tails_ok at"
  shows "\<exists>r m' am'. am_addr am \<noteq> 0 \<and>
    tails_ok (with_bucket at hk (with_message b us c vs am')) \<and>
    insert_into_msl_mem m (am_addr am) num is_last n ct opts = Some (Inr (r, m')) \<and>
    insert_into_msl (list_value am) num is_last n bs (Some (vals xs)) (outcomes m) =
      (r, list_value am', outcomes m') \<and>
    owns m' (table_blocks (with_bucket at hk (with_message b us c vs am')) + left_over r ct bs opts xs +
      (lost_cells r num am + F))"
proof -
  obtain G where G: "table_blocks at = message_blocks am + G"
    "\<And>am'. am_addr am' = am_addr am \<Longrightarrow>
      table_blocks (with_bucket at hk (with_message b us c vs am')) = message_blocks am' + G"
    using table_known[OF hk b cells c] by blast
  have o1: "owns m (message_blocks am + (add_mset (ct, Raw bs) (option_list_blocks opts xs) + (G + F)))"
    using o by (simp add: G(1) region_ac)
  have bt: "bucket_tails b" using tails b by (simp add: tails_ok_def)
  have tail: "tail_ok am" using bt cells c by (auto simp: bucket_tails_def)
  obtain r m' am' where m': "insert_into_msl_mem m (am_addr am) num is_last n ct opts = Some (Inr (r, m'))"
    "am_addr am' = am_addr am"
    "insert_into_msl (list_value am) num is_last n bs (Some (vals xs)) (outcomes m) =
      (r, list_value am', outcomes m')"
    "owns m' (message_blocks am' + left_over r ct bs opts xs + (lost_cells r num am + (G + F)))"
    "tail_ok am'"
    using insert_into_msl_run[OF o1 tail] by blast
  have "am_addr am \<noteq> 0"
    using owns_mem(2)[OF o1, of "am_addr am" "Msl_Head (head_fields am)"] by (simp add: message_blocks_def)
  moreover have "owns m' (table_blocks (with_bucket at hk (with_message b us c vs am')) +
      left_over r ct bs opts xs + (lost_cells r num am + F))"
    using m'(4) by (simp add: G(2)[OF m'(2)] region_ac)
  moreover have "bucket_tails (with_message b us c vs am')"
    using bt cells m'(5) by (auto simp: bucket_tails_def with_message_def)
  then have "tails_ok (with_bucket at hk (with_message b us c vs am'))" by (rule tails_with_bucket[OF tails])
  ultimately show ?thesis using m'(1,3) by blast
qed

lemma bucket_val_with_message:
  assumes "ab_cells b = us @ c # vs" and "snd (snd (snd c)) = Some am"
  shows "bucket_val (with_message b us c vs am') = (bucket_val b)
    \<lparr>chain := map cell_of us @ (cell_of c)\<lparr>cl_head := Some (list_value am')\<rparr> # map cell_of vs\<rparr>"
  using assms by (cases c) (simp add: bucket_val_def with_message_def)

text \<open>What \<^verbatim>\<open>insert_segment\<close> leaves behind: the table, what is left of the segment, and lost cells.\<close>

definition inserted_blocks ::
  "memory \<Rightarrow> a_table \<Rightarrow> int \<Rightarrow> segment_buffer \<Rightarrow> allocs \<Rightarrow> addr \<Rightarrow> bytes \<Rightarrow> addr \<Rightarrow> a_option list \<Rightarrow> region \<Rightarrow> bool"
where
  "inserted_blocks m' at r buf' as' ct bs opts xs F \<longleftrightarrow>
     (\<exists>at' lost. at_addr at' = at_addr at \<and> at_stale at' = at_stale at \<and> tails_ok at' \<and> buffer_of at' = buf' \<and> outcomes m' = as' \<and>
        (r \<noteq> -3 \<longrightarrow> lost = {#}) \<and>
        owns m' (table_blocks at' + left_over r ct bs opts xs + (lost + F)))"

lemma inserted_blocksI:
  assumes "owns m' (table_blocks at' + left_over r ct bs opts xs + (lost + F))" "at_addr at' = at_addr at"
    "at_stale at' = at_stale at" "tails_ok at'" "buffer_of at' = buf'" "outcomes m' = as'" "r \<noteq> -3 \<Longrightarrow> lost = {#}"
  shows "inserted_blocks m' at r buf' as' ct bs opts xs F"
  unfolding inserted_blocks_def using assms by blast

lemma insert_segment_known_run:
  assumes "ensure_bucket_mem m (at_addr at) (unat (hashKey odid mid)) = Inr (ab_addr b, m1)"
    and o: "owns m1 (table_blocks at + (add_mset (ct, Raw bs) (option_list_blocks opts xs) + F))"
    and b: "at_buckets at (unat (hashKey odid mid)) = Some b"
    and from_c: "a_from odid mid (ab_cells b) = c # vs" and c: "snd (snd (snd c)) = Some am"
    and tails: "tails_ok at"
    and f: "insert_into_msl (list_value am) num is_last n bs (Some (vals xs)) (outcomes m1) = (r, m', as')"
  shows "\<exists>m2. insert_segment_mem m (at_addr at) odid mid num is_last n ct opts = Some (Inr (r, m2)) \<and>
    inserted_blocks m2 at r (set_bucket (unat (hashKey odid mid)) ((bucket_val b)\<lparr>chain :=
      map cell_of (a_before odid mid (ab_cells b)) @ (cell_of c)\<lparr>cl_head := Some m'\<rparr> # map cell_of vs\<rparr>)
      (buffer_of at)) as' ct bs opts xs F"
proof -
  let ?us = "a_before odid mid (ab_cells b)"
  have cells: "ab_cells b = ?us @ c # vs" using before_from[of "ab_cells b" odid mid] from_c by simp
  obtain m2 am' where m2: "am_addr am \<noteq> 0"
    "insert_into_msl_mem m1 (am_addr am) num is_last n ct opts = Some (Inr (r, m2))"
    "m' = list_value am'" "as' = outcomes m2"
    "owns m2 (table_blocks (with_bucket at (unat (hashKey odid mid)) (with_message b ?us c vs am')) +
      left_over r ct bs opts xs + (lost_cells r num am + F))"
    "tails_ok (with_bucket at (unat (hashKey odid mid)) (with_message b ?us c vs am'))"
    using insert_message_run[OF hashKey_less b cells c o tails, of num is_last n] f by auto
  have "insert_segment_mem m (at_addr at) odid mid num is_last n ct opts = Some (Inr (r, m2))"
    using insert_segment_found[OF assms(1) o b from_c c m2(1)] m2(2) by simp
  moreover have "inserted_blocks m2 at r (set_bucket (unat (hashKey odid mid)) ((bucket_val b)\<lparr>chain :=
      map cell_of ?us @ (cell_of c)\<lparr>cl_head := Some m'\<rparr> # map cell_of vs\<rparr>)
      (buffer_of at)) as' ct bs opts xs F"
    by (rule inserted_blocksI[OF m2(5)])
      (simp_all add: m2(3,4,6) buffer_of_with_bucket bucket_val_with_message[OF cells c] lost_cells_def)
  ultimately show ?thesis by blast
qed

lemma insert_segment_new_failed:
  assumes e: "ensure_bucket_mem m (at_addr at) (unat (hashKey odid mid)) = Inr (ab_addr b, m1)"
    and o: "owns m1 (table_blocks at + (add_mset (ct, Raw bs) (option_list_blocks opts xs) + F))"
    and b: "at_buckets at (unat (hashKey odid mid)) = Some b"
    and absent: "a_from odid mid (ab_cells b) = []" and dang: "\<not> ab_dangling b"
    and tails: "tails_ok at"
  shows "malloc (outcomes m1) = (False, as) \<Longrightarrow>
      \<exists>m2. insert_segment_mem m (at_addr at) odid mid num is_last n ct opts = Some (Inr (-3, m2)) \<and>
        inserted_blocks m2 at (-3) (buffer_of at) as ct bs opts xs F"
    and "malloc (outcomes m1) = (True, as) \<Longrightarrow> malloc as = (False, as1) \<Longrightarrow>
      \<exists>m2. insert_segment_mem m (at_addr at) odid mid num is_last n ct opts = Some (Inr (-3, m2)) \<and>
        inserted_blocks m2 at (-3) (set_bucket (unat (hashKey odid mid))
          \<lparr>chain = map cell_of (ab_cells b) @ [\<lparr>cl_odid = odid, cl_mid = mid, cl_head = None\<rparr>],
           dangling = True\<rparr> (buffer_of at)) as1 ct bs opts xs F"
proof -
  let ?G = "add_mset (ct, Raw bs) (option_list_blocks opts xs) + F"
  note mem = insert_segment_absent_mem[OF e o b absent dang]
  have left: "T + ?G = T + left_over (-3) ct bs opts xs + ({#} + F)" for T
    by (simp add: left_over_def region_ac)
  show "\<exists>m2. insert_segment_mem m (at_addr at) odid mid num is_last n ct opts = Some (Inr (-3, m2)) \<and>
        inserted_blocks m2 at (-3) (buffer_of at) as ct bs opts xs F"
    if fails: "malloc (outcomes m1) = (False, as)"
  proof -
    obtain m2 where m2: "new_message_mem m1 (at_addr at) (last_addr (ab_addr b) (ab_cells b)) odid mid = Inr (0, m2)"
      "outcomes m2 = as" "owns m2 (table_blocks at + ?G)"
      using new_message_no_cell[OF o hashKey_less b dang fails] by blast
    show ?thesis
      using m2(1,2) tails inserted_blocksI[OF m2(3)[unfolded left]] by (simp add: mem)
  qed
  show "\<exists>m2. insert_segment_mem m (at_addr at) odid mid num is_last n ct opts = Some (Inr (-3, m2)) \<and>
        inserted_blocks m2 at (-3) (set_bucket (unat (hashKey odid mid))
          \<lparr>chain = map cell_of (ab_cells b) @ [\<lparr>cl_odid = odid, cl_mid = mid, cl_head = None\<rparr>],
           dangling = True\<rparr> (buffer_of at)) as1 ct bs opts xs F"
    if fails: "malloc (outcomes m1) = (True, as)" "malloc as = (False, as1)"
  proof -
    obtain c m2 where m2: "new_message_mem m1 (at_addr at) (last_addr (ab_addr b) (ab_cells b)) odid mid = Inr (0, m2)"
      "outcomes m2 = as1"
      "owns m2 (table_blocks (with_bucket at (unat (hashKey odid mid)) (with_cell b (c, odid, mid, None) True)) + ?G)"
      using new_message_no_list[OF o hashKey_less b dang fails] by blast
    have "bucket_tails (with_cell b (c, odid, mid, None) True)"
      using tails b by (auto simp: tails_ok_def bucket_tails_def with_cell_def)
    then show ?thesis
      using m2(1,2) inserted_blocksI[OF m2(3)[unfolded left], of at] tails_with_bucket[OF tails]
      by (simp add: mem buffer_of_with_bucket bucket_val_def with_cell_def)
  qed
qed

lemma with_count_bucket [simp]:
  "at_buckets ((with_bucket at hk b)\<lparr>at_count := k\<rparr>) hk = Some b"
  "at_addr ((with_bucket at hk b)\<lparr>at_count := k\<rparr>) = at_addr at"
  by (simp_all add: with_bucket_def)

lemma insert_segment_new_run:
  assumes e: "ensure_bucket_mem m (at_addr at) (unat (hashKey odid mid)) = Inr (ab_addr b, m1)"
    and o: "owns m1 (table_blocks at + (add_mset (ct, Raw bs) (option_list_blocks opts xs) + F))"
    and b: "at_buckets at (unat (hashKey odid mid)) = Some b"
    and absent: "a_from odid mid (ab_cells b) = []" and dang: "\<not> ab_dangling b"
    and "malloc (outcomes m1) = (True, as)" and "malloc as = (True, as1)"
    and tails: "tails_ok at"
    and f: "insert_into_msl (new_msl odid mid) num is_last n bs (Some (vals xs)) as1 = (r, m', as')"
  shows "\<exists>m2. insert_segment_mem m (at_addr at) odid mid num is_last n ct opts = Some (Inr (r, m2)) \<and>
    inserted_blocks m2 at r (set_bucket (unat (hashKey odid mid)) ((bucket_val b)\<lparr>chain :=
      map cell_of (ab_cells b) @ [\<lparr>cl_odid = odid, cl_mid = mid, cl_head = Some m'\<rparr>]\<rparr>)
      ((buffer_of at)\<lparr>sb_count := sb_count (buffer_of at) + 1\<rparr>)) as' ct bs opts xs F"
proof -
  let ?hk = "unat (hashKey odid mid)" and ?l = "last_addr (ab_addr b) (ab_cells b)"
  obtain c h m2 where m2: "new_message_mem m1 (at_addr at) ?l odid mid = Inr (h, m2)" "h \<noteq> 0" "outcomes m2 = as1"
    "owns m2 (table_blocks ((with_bucket at ?hk (with_cell b (c, odid, mid, Some (a_new_message h odid mid)) False))
      \<lparr>at_count := at_count at + 1\<rparr>) + (add_mset (ct, Raw bs) (option_list_blocks opts xs) + F))"
    using new_message_run[OF o hashKey_less b dang assms(6,7)] by blast
  let ?am = "a_new_message h odid mid" and ?c = "(c, odid, mid, Some (a_new_message h odid mid))"
  let ?b = "with_cell b ?c False"
  let ?at = "(with_bucket at ?hk ?b)\<lparr>at_count := at_count at + 1\<rparr>"
  have cells: "ab_cells ?b = ab_cells b @ ?c # []" and addr: "am_addr ?am = h"
    by (simp_all add: with_cell_def a_new_message_def)
  have "bucket_tails ?b"
    using tails b by (auto simp: tails_ok_def bucket_tails_def with_cell_def tail_ok_def a_new_message_def)
  then have tails1: "tails_ok ?at" using tails by (auto simp: tails_ok_def)
  obtain m3 am' where m3: "insert_into_msl_mem m2 h num is_last n ct opts = Some (Inr (r, m3))"
    "m' = list_value am'" "as' = outcomes m3"
    "owns m3 (table_blocks (with_bucket ?at ?hk (with_message ?b (ab_cells b) ?c [] am')) +
      left_over r ct bs opts xs + (lost_cells r num ?am + F))"
    "tails_ok (with_bucket ?at ?hk (with_message ?b (ab_cells b) ?c [] am'))"
    using insert_message_run[OF hashKey_less _ cells _ m2(4) tails1, of odid mid ?am num is_last n] f m2(3)
    by (auto simp: addr)
  have mem: "insert_segment_mem m (at_addr at) odid mid num is_last n ct opts = Some (Inr (r, m3))"
    using insert_segment_absent_mem[OF e o b absent dang] m2(1,2) m3(1) by simp
  have "buffer_of (with_bucket ?at ?hk (with_message ?b (ab_cells b) ?c [] am')) =
      set_bucket ?hk ((bucket_val b)\<lparr>chain := map cell_of (ab_cells b) @
        [\<lparr>cl_odid = odid, cl_mid = mid, cl_head = Some m'\<rparr>]\<rparr>)
      ((buffer_of at)\<lparr>sb_count := sb_count (buffer_of at) + 1\<rparr>)"
    using dang by (auto simp: buffer_of_def set_bucket_def bucket_val_def with_message_def with_cell_def m3(2))
  with mem show ?thesis
    using inserted_blocksI[OF m3(4), of at] m3(3,5) by (simp add: lost_cells_def)
qed

lemma inserted_blocks_with_bucket:
  "inserted_blocks m2 (with_bucket at hk b) r buf' as' ct bs opts xs F \<Longrightarrow> inserted_blocks m2 at r buf' as' ct bs opts xs F"
  by (simp add: inserted_blocks_def)

text \<open>The insertion on values, once the bucket has its header cell, in terms of the annotated bucket.\<close>

definition insert_in_bucket ::
  "a_bucket \<Rightarrow> segment_buffer \<Rightarrow> u32 \<Rightarrow> u32 \<Rightarrow> u32 \<Rightarrow> int \<Rightarrow> u32 \<Rightarrow> bytes \<Rightarrow> unyte_option list option \<Rightarrow> allocs \<Rightarrow>
    fault + (int \<times> segment_buffer \<times> allocs)" where
  "insert_in_bucket b buf1 odid mid num is_last n bs opts as1 =
     (let hk = unat (hashKey odid mid); us = map cell_of (a_before odid mid (ab_cells b)) in
      case a_from odid mid (ab_cells b) of
        [] \<Rightarrow>
          if ab_dangling b then Inl Uninit_Read
          else if \<not> fst (malloc as1) then Inr (-3, buf1, snd (malloc as1))
          else if \<not> fst (malloc (snd (malloc as1))) then
            Inr (-3, set_bucket hk \<lparr>chain = us @ [\<lparr>cl_odid = odid, cl_mid = mid, cl_head = None\<rparr>],
              dangling = True\<rparr> buf1, snd (malloc (snd (malloc as1))))
          else
            (let (r, m', as') = insert_into_msl (new_msl odid mid) num is_last n bs opts
               (snd (malloc (snd (malloc as1)))) in
             Inr (r, set_bucket hk ((bucket_val b)\<lparr>chain :=
               us @ [\<lparr>cl_odid = odid, cl_mid = mid, cl_head = Some m'\<rparr>]\<rparr>) (buf1\<lparr>sb_count := sb_count buf1 + 1\<rparr>), as'))
      | c # vs \<Rightarrow>
          (case cl_head (cell_of c) of
             None \<Rightarrow> Inl Null_Deref
           | Some m \<Rightarrow>
               (let (r, m', as') = insert_into_msl m num is_last n bs opts as1 in
                Inr (r, set_bucket hk ((bucket_val b)\<lparr>chain :=
                  us @ (cell_of c)\<lparr>cl_head := Some m'\<rparr> # map cell_of vs\<rparr>) buf1, as'))))"

lemma insert_segment_value:
  assumes "ensure_bucket buf (unat (hashKey odid mid)) as = (Some (bucket_val b), buf1, as1)"
  shows "insert_segment buf odid mid num is_last n bs opts as =
    insert_in_bucket b buf1 odid mid num is_last n bs opts as1"
proof -
  have ch: "chain (bucket_val b) = map cell_of (ab_cells b)" "dangling (bucket_val b) = ab_dangling b"
    by (simp_all add: bucket_val_def)
  obtain ok as2 where as2: "malloc as1 = (ok, as2)" by (cases "malloc as1")
  show ?thesis
    by (cases "a_from odid mid (ab_cells b)")
      (simp_all add: insert_segment_def insert_in_bucket_def assms ch create_new_msl as2 Let_def
        case_prod_beta split: option.splits)
qed

lemma insert_in_bucket_run:
  assumes e: "ensure_bucket_mem m (at_addr at) (unat (hashKey odid mid)) = Inr (ab_addr b, m1)"
    and o: "owns m1 (table_blocks at + (add_mset (ct, Raw bs) (option_list_blocks opts xs) + F))"
    and b: "at_buckets at (unat (hashKey odid mid)) = Some b"
    and tails: "tails_ok at"
    and f: "insert_in_bucket b (buffer_of at) odid mid num is_last n bs (Some (vals xs)) (outcomes m1) =
      Inr (r, buf', as')"
  shows "\<exists>m'. insert_segment_mem m (at_addr at) odid mid num is_last n ct opts = Some (Inr (r, m')) \<and>
    inserted_blocks m' at r buf' as' ct bs opts xs F"
proof (cases "a_from odid mid (ab_cells b)")
  case (Cons c vs)
  obtain am where am: "snd (snd (snd c)) = Some am" "cl_head (cell_of c) = Some (list_value am)"
    using f Cons by (cases c) (auto simp: insert_in_bucket_def split: option.splits)
  obtain r' m' as'' where m': "insert_into_msl (list_value am) num is_last n bs (Some (vals xs)) (outcomes m1) =
      (r', m', as'')"
    by (cases "insert_into_msl (list_value am) num is_last n bs (Some (vals xs)) (outcomes m1)")
  show ?thesis
    using insert_segment_known_run[OF e o b Cons am(1) tails m'] f Cons am(2) m'
    by (auto simp: insert_in_bucket_def)
next
  case Nil
  have dang: "\<not> ab_dangling b" using f Nil by (auto simp: insert_in_bucket_def split: if_splits)
  have all: "a_before odid mid (ab_cells b) = ab_cells b"
    using before_from[of "ab_cells b" odid mid] Nil by simp
  obtain ok as2 where as2: "malloc (outcomes m1) = (ok, as2)" by (cases "malloc (outcomes m1)")
  obtain ok3 as3 where as3: "malloc as2 = (ok3, as3)" by (cases "malloc as2")
  note val = insert_in_bucket_def Nil all as2 as3 dang
  note failed = insert_segment_new_failed[OF e o b Nil dang tails]
  consider "\<not> ok" | "ok" "\<not> ok3" | "ok" "ok3" by blast
  then show ?thesis
  proof cases
    case 1
    then show ?thesis using f failed(1)[of as2] as2 by (auto simp: val)
  next
    case 2
    then show ?thesis using f failed(2)[of as2 as3] as2 as3 by (auto simp: val)
  next
    case 3
    obtain r' m' as'' where m': "insert_into_msl (new_msl odid mid) num is_last n bs (Some (vals xs)) as3 =
        (r', m', as'')"
      by (cases "insert_into_msl (new_msl odid mid) num is_last n bs (Some (vals xs)) as3")
    show ?thesis
      using insert_segment_new_run[OF e o b Nil dang _ _ tails m', of as2] f 3 as2 as3 m' by (auto simp: val)
  qed
qed

text \<open>\<^verbatim>\<open>insert_segment\<close> on the blocks does what it does on the values.\<close>

lemma insert_segment_run:
  assumes o: "owns m (table_blocks at + (add_mset (ct, Raw bs) (option_list_blocks opts xs) + F))"
    and null: "at_stale at = (\<lambda>_. 0)" and tails: "tails_ok at"
    and f: "insert_segment (buffer_of at) odid mid num is_last n bs (Some (vals xs)) (outcomes m) =
      Inr (r, buf', as')"
  shows "\<exists>m'. insert_segment_mem m (at_addr at) odid mid num is_last n ct opts = Some (Inr (r, m')) \<and>
    inserted_blocks m' at r buf' as' ct bs opts xs F"
proof -
  let ?hk = "unat (hashKey odid mid)"
  obtain fb buf1 as1 where e: "ensure_bucket (buffer_of at) ?hk (outcomes m) = (fb, buf1, as1)"
    by (cases "ensure_bucket (buffer_of at) ?hk (outcomes m)")
  show ?thesis
  proof (cases fb)
    case None
    obtain m1 where m1: "ensure_bucket_mem m (at_addr at) ?hk = Inr (0, m1)" "outcomes m1 = as1"
      "buf1 = buffer_of at"
      "owns m1 (table_blocks at + (add_mset (ct, Raw bs) (option_list_blocks opts xs) + F))"
      using ensure_bucket_failed[OF o, of ?hk] e None null by auto
    have "r = -3" "buf' = buffer_of at" "as' = as1"
      using f e None m1(3) by (simp_all add: insert_segment_def)
    moreover have "owns m1 (table_blocks at + left_over (-3) ct bs opts xs + ({#} + F))"
      using m1(4) by (simp add: left_over_def region_ac)
    ultimately show ?thesis
      using m1(1,2) tails inserted_blocksI[of m1 at "-3" ct bs opts xs "{#}" F at] by (simp add: insert_segment_mem_def)
  next
    case (Some fb')
    obtain b m1 where m1: "ensure_bucket_mem m (at_addr at) ?hk = Inr (ab_addr b, m1)"
      "bucket_val b = fb'" "buffer_of (with_bucket at ?hk b) = buf1" "outcomes m1 = as1"
      "owns m1 (table_blocks (with_bucket at ?hk b) +
        (add_mset (ct, Raw bs) (option_list_blocks opts xs) + F))"
      "at_buckets at ?hk = Some b \<or> ab_cells b = []"
      using ensure_bucket_run[OF o hashKey_less, of odid mid] e Some null by auto
    have "bucket_tails b" using m1(6) tails by (auto simp: tails_ok_def bucket_tails_def)
    then have tails1: "tails_ok (with_bucket at ?hk b)" by (rule tails_with_bucket[OF tails])
    have "insert_in_bucket b buf1 odid mid num is_last n bs (Some (vals xs)) (outcomes m1) = Inr (r, buf', as')"
      using insert_segment_value[of "buffer_of at" odid mid "outcomes m" b buf1 as1] e Some m1(2,4) f by simp
    then have "insert_in_bucket b (buffer_of (with_bucket at ?hk b)) odid mid num is_last n bs
        (Some (vals xs)) (outcomes m1) = Inr (r, buf', as')"
      using m1(3) by simp
    from insert_in_bucket_run[OF _ m1(5) _ tails1 this] show ?thesis
      using m1(1) by (auto dest: inserted_blocks_with_bucket)
  qed
qed

section \<open>Finding and clearing a message\<close>

text \<open>Where the message with these identifiers is stored.\<close>

definition stored_at ::
  "a_table \<Rightarrow> u32 \<Rightarrow> u32 \<Rightarrow> a_bucket \<Rightarrow> a_chain_cell \<Rightarrow> a_chain_cell list \<Rightarrow> a_message \<Rightarrow> bool" where
  "stored_at at odid mid b c vs am \<longleftrightarrow> at_buckets at (unat (hashKey odid mid)) = Some b \<and>
     a_from odid mid (ab_cells b) = c # vs \<and> snd (snd (snd c)) = Some am"

lemma get_segment_list_run:
  assumes o: "owns m (table_blocks at + F)"
    and "get_segment_list (buffer_of at) odid mid = Inr (Some M)"
  shows "\<exists>b c vs am. stored_at at odid mid b c vs am \<and> list_value am = M \<and>
    get_segment_list_mem m (at_addr at) odid mid = Some (Inr (am_addr am))"
proof -
  obtain b where b: "at_buckets at (unat (hashKey odid mid)) = Some b"
    using assms(2) by (auto simp: get_segment_list_def buffer_of_def split: option.splits)
  note bkt = bucket_next_at[OF o hashKey_less b]
  obtain c vs where c: "a_from odid mid (ab_cells b) = c # vs" "cl_head (cell_of c) = Some M"
    using assms(2) b
    by (cases "a_from odid mid (ab_cells b)")
      (auto simp: get_segment_list_def buffer_of_def bucket_val_def split: if_splits)
  obtain am where am: "snd (snd (snd c)) = Some am" "list_value am = M" using c(2) by (cases c) auto
  let ?l = "last_addr (ab_addr b) (a_before odid mid (ab_cells b))"
  have "coll_find m (ab_addr b) odid mid = Some (Inr ?l) \<and> coll_next_at m ?l = Inr (fst c)"
    using c(1) by (intro coll_find_run[OF o bkt(1,2)]) simp
  moreover have "cc_head (chain_cell c q) = am_addr am" for q using am(1) by (cases c) simp
  ultimately have "get_segment_list_mem m (at_addr at) odid mid = Some (Inr (am_addr am))"
    using buffer_at_run[OF o] b bkt(3) chain_cell_in_table[OF o hashKey_less b c(1)]
    by (simp add: get_segment_list_mem_def buffer_fields_of_def array_of_def)
  with b c(1) am show ?thesis
    by (intro exI[of _ b] exI[of _ c] exI[of _ vs] exI[of _ am]) (simp add: stored_at_def)
qed

lemma bucket_split:
  "\<exists>x R. is_chain_cell x \<and> (\<forall>ws. bucket_blocks (b\<lparr>ab_cells := us @ ws\<rparr>) =
     add_mset (last_addr (ab_addr b) us, with_coll_next (first_next ws (end_of (ab_dangling b))) x)
       (R + chain_blocks ws (end_of (ab_dangling b))))"
proof -
  obtain x R where x: "is_chain_cell x"
    and R: "\<And>q. add_mset (ab_addr b, Coll_Head (first_next us q)) (chain_blocks us q) =
       add_mset (last_addr (ab_addr b) us, with_coll_next q x) R"
    using chain_last[of "ab_addr b" us] by blast
  have "bucket_blocks (b\<lparr>ab_cells := us @ ws\<rparr>) =
      add_mset (ab_addr b, Coll_Head (first_next us (first_next ws (end_of (ab_dangling b)))))
        (chain_blocks us (first_next ws (end_of (ab_dangling b)))) + chain_blocks ws (end_of (ab_dangling b))" for ws
    by (simp add: bucket_blocks_def)
  then show ?thesis unfolding R using x by auto
qed

lemma ab_cells_id: "ab_cells b = cs \<Longrightarrow> b\<lparr>ab_cells := cs\<rparr> = b"
  by (cases b) simp

text \<open>The table without the message.\<close>

definition without_message :: "a_table \<Rightarrow> u32 \<Rightarrow> u32 \<Rightarrow> a_bucket \<Rightarrow> a_chain_cell list \<Rightarrow> a_table" where
  "without_message at odid mid b vs = with_bucket at (unat (hashKey odid mid))
     (b\<lparr>ab_cells := a_before odid mid (ab_cells b) @ vs\<rparr>)"

lemma without_message_region:
  assumes st: "stored_at at odid mid b c vs am" and dang: "\<not> ab_dangling b"
  shows "\<exists>x R. is_chain_cell x \<and>
    table_blocks at = add_mset (last_addr (ab_addr b) (a_before odid mid (ab_cells b)), with_coll_next (Some (fst c)) x)
      (add_mset (fst c, Coll_Cell (chain_cell c (first_next vs (Some 0)))) (message_blocks am + R)) \<and>
    table_blocks (without_message at odid mid b vs) =
      add_mset (last_addr (ab_addr b) (a_before odid mid (ab_cells b)), with_coll_next (first_next vs (Some 0)) x) R"
proof -
  let ?us = "a_before odid mid (ab_cells b)" and ?hk = "unat (hashKey odid mid)"
  have b: "at_buckets at ?hk = Some b" and cells: "ab_cells b = ?us @ c # vs"
    and c: "snd (snd (snd c)) = Some am"
    using st before_from[of "ab_cells b" odid mid] by (auto simp: stored_at_def)
  obtain x R where x: "is_chain_cell x" and R: "\<And>ws. bucket_blocks (b\<lparr>ab_cells := ?us @ ws\<rparr>) =
     add_mset (last_addr (ab_addr b) ?us, with_coll_next (first_next ws (Some 0)) x) (R + chain_blocks ws (Some 0))"
    using bucket_split[where us = ?us and b = b] dang by (auto simp: end_of_def)
  have "bucket_blocks b = add_mset (last_addr (ab_addr b) ?us, with_coll_next (Some (fst c)) x)
      (add_mset (fst c, Coll_Cell (chain_cell c (first_next vs (Some 0))))
        (message_blocks am + (R + chain_blocks vs (Some 0))))"
    using R[of "c # vs"] ab_cells_id[OF cells] c by (cases c) (simp add: region_ac)
  moreover have "buffer_fields_of (without_message at odid mid b vs) = buffer_fields_of at"
    unfolding without_message_def using b by (intro buffer_fields_with_bucket) (simp add: array_of_def)
  ultimately show ?thesis
    using x R[of vs] table_bucket[OF hashKey_less b]
    by (intro exI[of _ x] exI[of _ "add_mset (at_addr at, Buffer (buffer_fields_of at))
        (R + chain_blocks vs (Some 0) + other_slots at ?hk)"])
      (simp add: table_blocks_def without_message_def slots_with_bucket[OF hashKey_less] region_ac)
qed

lemma clear_segment_list_run:
  assumes o: "owns m (table_blocks at + F)" and st: "stored_at at odid mid b c vs am"
    and dang: "\<not> ab_dangling b"
  shows "\<exists>m'. clear_segment_list_mem m (at_addr at) odid mid = Some (Inr (0, m')) \<and>
    outcomes m' = outcomes m \<and> owns m' (table_blocks (without_message at odid mid b vs) + F)"
proof -
  let ?us = "a_before odid mid (ab_cells b)" and ?l = "last_addr (ab_addr b) (a_before odid mid (ab_cells b))"
  let ?nx = "first_next vs (Some 0)" and ?T = "table_blocks (without_message at odid mid b vs)"
  have b: "at_buckets at (unat (hashKey odid mid)) = Some b" and from_c: "a_from odid mid (ab_cells b) = c # vs"
    and c: "snd (snd (snd c)) = Some am"
    using st by (auto simp: stored_at_def)
  note bkt = bucket_next_at[OF o hashKey_less b]
  have end_q: "end_of (ab_dangling b) = Some 0" using dang by (simp add: end_of_def)
  obtain p where p: "?nx = Some p" by (cases vs) simp_all
  obtain nx0 where nx0: "first_next (ab_cells b) (Some 0) = Some nx0" by (cases "ab_cells b") simp_all
  obtain x R where x: "is_chain_cell x" and T: "table_blocks at = add_mset (?l, with_coll_next (Some (fst c)) x)
      (add_mset (fst c, Coll_Cell (chain_cell c ?nx)) (message_blocks am + R))"
    "?T = add_mset (?l, with_coll_next ?nx x) R"
    using without_message_region[OF st dang] by blast
  have find: "clear_find m (ab_addr b) nx0 odid mid = Some (Inr (?l, fst c))"
    using from_c nx0 end_q by (intro clear_find_run[OF o bkt(1,2)]) simp_all
  note cell = chain_cell_in_table[OF o hashKey_less b from_c, unfolded end_q p]
  have o1: "owns m (add_mset (?l, with_coll_next (Some (fst c)) x)
      (add_mset (fst c, Coll_Cell (chain_cell c ?nx)) (message_blocks am + R + F)))"
    using o by (simp add: T(1))
  define m1 where "m1 = store m ?l (with_coll_next ?nx x)"
  have o2: "owns m1 (message_blocks am + add_mset (fst c, Coll_Cell (chain_cell c ?nx)) (?T + F))"
    using set_coll_next_run(2)[OF o1 x, of p] unfolding m1_def by (simp add: T(2) p region_ac)
  obtain m2 where m2: "clear_msl_mem m1 (am_addr am) = Some (Inr m2)" "outcomes m2 = outcomes m1"
    "owns m2 (add_mset (fst c, Coll_Cell (chain_cell c ?nx)) (?T + F))"
    using clear_msl_run[OF o2] by blast
  obtain m3 where m3: "free m2 (fst c) = Inr m3" "outcomes m3 = outcomes m2" "owns m3 (?T + F)"
    using owns_free[OF m2(3)] by blast
  have "coll_cell_at m1 (fst c) = Inr (chain_cell c ?nx)" using owns_load(4)[OF o2, of "fst c"] by simp
  moreover have "cc_head (chain_cell c ?nx) = am_addr am" using c by (cases c) simp
  ultimately have "clear_segment_list_mem m (at_addr at) odid mid = Some (Inr (0, m3))"
    using buffer_at_run[OF o] b bkt(1,3) find cell m2(1) m3(1) set_coll_next_run(1)[OF o1 x, of p] end_q nx0
    by (simp add: clear_segment_list_mem_def buffer_fields_of_def array_of_def pointer_set_def
        m1_def[unfolded p, symmetric])
  then show ?thesis using m2(2) m3(2,3) by (simp add: m1_def)
qed

section \<open>A new table\<close>

definition empty_table :: "addr \<Rightarrow> a_table" where
  "empty_table a = \<lparr>at_addr = a, at_count = 0, at_buckets = (\<lambda>_. None), at_cleanup = 0, at_index = 0,
     at_stale = (\<lambda>_. 0)\<rparr>"

lemma slots_empty: "(\<And>i. at_buckets at i = None) \<Longrightarrow> slots_blocks at = {#} \<and> other_slots at hk = {#}"
  unfolding slots_blocks_def other_slots_def by (auto simp: slot_blocks_def intro!: sum.neutral)

lemma empty_table_simps [simp]:
  "at_addr (empty_table a) = a" "at_stale (empty_table a) = (\<lambda>_. 0)" "tails_ok (empty_table a)"
  "buffer_of (empty_table a) = empty_buffer" "at_count (empty_table a) = 0" "at_buckets (empty_table a) i = None"
  "other_slots (empty_table a) hk = {#}"
  "table_blocks (empty_table a) =
     {#(a, Buffer \<lparr>bf_count = 0, bf_hash_array = (\<lambda>_. 0), bf_cleanup = 0, bf_cleanup_start_index = 0\<rparr>)#}"
  using slots_empty[of "empty_table a"]
  by (simp_all add: empty_table_def tails_ok_def buffer_of_def empty_buffer_def table_blocks_def
      buffer_fields_of_def array_of_def fun_eq_iff)

lemma create_segment_buffer_run:
  assumes "owns m F"
  shows "\<exists>a m'. create_segment_buffer_mem m = (a, m') \<and> outcomes m' = snd (create_segment_buffer (outcomes m)) \<and>
    (case fst (create_segment_buffer (outcomes m)) of
       None \<Rightarrow> a = 0 \<and> owns m' F
     | Some buf \<Rightarrow> a \<noteq> 0 \<and> buf = buffer_of (empty_table a) \<and> owns m' (table_blocks (empty_table a) + F))"
proof -
  obtain ok as1 where as1: "malloc (outcomes m) = (ok, as1)" by (cases "malloc (outcomes m)")
  show ?thesis
  proof (cases ok)
    case True
    then have ok: "malloc (outcomes m) = (True, as1)" using as1 by simp
    obtain a m' where "create_segment_buffer_mem m = (a, m')" "a \<noteq> 0" "outcomes m' = as1"
      "owns m' (table_blocks (empty_table a) + F)"
      using owns_new_block[OF assms ok] by (fastforce simp: create_segment_buffer_mem_def)
    then show ?thesis using ok by (simp add: create_segment_buffer_def empty_buffer_def)
  next
    case False
    then show ?thesis
      using new_block_failed[OF assms] as1
      by (auto simp: create_segment_buffer_mem_def create_segment_buffer_def)
  qed
qed

section \<open>Inserting a segment, whatever malloc does\<close>


text \<open>An empty table, and a segment to insert.\<close>

definition sample_blocks :: "(addr \<times> block) list" where
  "sample_blocks =
     [(1, Buffer \<lparr>bf_count = 0, bf_hash_array = (\<lambda>_. 0), bf_cleanup = 0, bf_cleanup_start_index = 0\<rparr>),
      (2, Raw [104]), (3, head_node 0)]"

lemma sample_blocks_owned:
  "owns (memory_of sample_blocks as)
     (table_blocks (empty_table 1) + (add_mset (2, Raw [104]) (option_list_blocks 3 []) + {#}))"
  using owns_memory_of[of sample_blocks as]
  by (simp add: sample_blocks_def option_list_blocks_def add_mset_commute)


end
