(* ===== verification/Cleanup.thy ===== *)
theory Cleanup
  imports Segbuf
begin

text \<open>
  The clean-up of the segmentation buffer: what a pass of \<^verbatim>\<open>cleanup_seg_buff\<close> does to each message,
  which buckets the passes reach, how \<^verbatim>\<open>clear_buffer\<close> frees the table, and the loop of the
  clean-up thread (\<^verbatim>\<open>src/cleanup_worker.c\<close>).
\<close>


section \<open>One bucket\<close>

text \<open>
  What a pass does to a message: the first pass marks it, the second notes the time, and a later
  one drops it when more than \<^verbatim>\<open>EXPIRE_MSG\<close> seconds have gone by since.
\<close>

definition age :: "int \<Rightarrow> message_segment_list \<Rightarrow> message_segment_list option" where
  "age now m =
     (if to_clean_up m = 0 then Some (m\<lparr>to_clean_up := 1\<rparr>)
      else
        (let ts = (if timestamp m = 0 then now else timestamp m) in
         if now - ts > EXPIRE_MSG then None else Some (m\<lparr>timestamp := ts\<rparr>)))"

definition age_cell :: "int \<Rightarrow> collision_list_cell \<Rightarrow> collision_list_cell option" where
  "age_cell now c = map_option (\<lambda>m. c\<lparr>cl_head := Some m\<rparr>) (Option.bind (cl_head c) (age now))"

definition expired :: "int \<Rightarrow> collision_list_cell list \<Rightarrow> nat" where
  "expired now cs = length (filter (\<lambda>c. age_cell now c = None) cs)"

lemma age_ids: "age now m = Some m' \<Longrightarrow> msl_odid m' = msl_odid m \<and> msl_mid m' = msl_mid m"
  by (auto simp: age_def Let_def split: if_splits)

lemma cells_at:
  assumes "distinct (map ids (us @ c # vs))"
  shows "cells_from (cl_odid c) (cl_mid c) (us @ c # vs) = c # vs"
    "cells_before (cl_odid c) (cl_mid c) (us @ c # vs) = us"
proof -
  have c: "is_message (cl_odid c) (cl_mid c) c" by (simp add: is_message_def)
  have us: "\<forall>u\<in>set us. \<not> is_message (cl_odid c) (cl_mid c) u"
    using assms by (auto simp: is_message_ids simp flip: ids_def) (metis imageI)
  show "cells_from (cl_odid c) (cl_mid c) (us @ c # vs) = c # vs"
    "cells_before (cl_odid c) (cl_mid c) (us @ c # vs) = us"
    using us c by (auto simp: cells_from_def cells_before_def dropWhile_append2 takeWhile_append2)
qed

lemma set_bucket_twice [simp]: "set_bucket i b (set_bucket i b' buf) = set_bucket i b buf"
  by (simp add: set_bucket_def)

lemma set_bucket_simps [simp]:
  "hash_array (set_bucket i b buf) i = Some b" "sb_count (set_bucket i b buf) = sb_count buf"
  "cleanup_start_index (set_bucket i b buf) = cleanup_start_index buf"
  by (simp_all add: set_bucket_def)

lemma update_cell_chain:
  assumes "hash_array buf i = Some b" "chain b = us @ c # vs"
  shows "update_cell buf i (length us) m =
    set_bucket i (b\<lparr>chain := us @ c\<lparr>cl_head := Some m\<rparr> # vs\<rparr>) buf"
  using assms by (simp add: update_cell_def)

text \<open>The walk over a well-formed chain, from a position on.\<close>

lemma cleanup_walk_chain:
  assumes "hash_array buf i = Some b" "chain b = us @ cs" "bucket_ok i b"
  shows "cleanup_walk now i (length us) buf =
    Inr ((set_bucket i (b\<lparr>chain := us @ List.map_filter (age_cell now) cs\<rparr>) buf)
      \<lparr>sb_count := sb_count buf - of_nat (expired now cs)\<rparr>)"
  using assms
proof (induction cs arbitrary: us b buf)
  case Nil
  then have "(set_bucket i (b\<lparr>chain := us\<rparr>) buf)\<lparr>sb_count := sb_count buf\<rparr> = buf"
    by (cases b, cases buf) (simp add: set_bucket_def fun_upd_idem)
  with Nil show ?case
    by (subst cleanup_walk.simps)
      (simp add: chain_at_def dangling_at_def bucket_ok_def expired_def map_filter_simps)
next
  case (Cons c cs)
  have at: "chain_at buf i = us @ c # cs" using Cons.prems by (simp add: chain_at_def)
  obtain m where m: "cl_head c = Some m" and hk: "unat (hashKey (cl_odid c) (cl_mid c)) = i"
    using Cons.prems(2,3) by (auto simp: bucket_ok_def cell_ok_def split: option.splits)
  show ?case
  proof (cases "age now m")
    case (Some m')
    let ?c = "c\<lparr>cl_head := Some m'\<rparr>"
    let ?b = "b\<lparr>chain := us @ ?c # cs\<rparr>"
    have "cleanup_walk now i (length us) buf = cleanup_walk now i (Suc (length us)) (set_bucket i ?b buf)"
      using Some m at update_cell_chain[OF Cons.prems(1,2)]
      by (subst cleanup_walk.simps) (auto simp: age_def Let_def split: if_splits)
    also have "\<dots> = cleanup_walk now i (length (us @ [?c])) (set_bucket i ?b buf)" by simp
    also have "\<dots> = Inr ((set_bucket i (?b\<lparr>chain := (us @ [?c]) @ List.map_filter (age_cell now) cs\<rparr>)
        (set_bucket i ?b buf))\<lparr>sb_count := sb_count (set_bucket i ?b buf) - of_nat (expired now cs)\<rparr>)"
      using bucket_ok_replace[OF Cons.prems(3,2) m, of m'] age_ids[OF Some]
      by (intro Cons.IH) simp_all
    moreover have "age_cell now c = Some ?c" using Some m by (simp add: age_cell_def)
    ultimately show ?thesis by (simp add: expired_def map_filter_simps set_bucket_def)
  next
    case None
    let ?m = "if timestamp m = 0 then m\<lparr>timestamp := now\<rparr> else m"
    let ?c = "c\<lparr>cl_head := Some ?m\<rparr>"
    let ?b = "b\<lparr>chain := us @ ?c # cs\<rparr>" and ?b' = "b\<lparr>chain := us @ cs\<rparr>"
    have d: "distinct (map ids (us @ ?c # cs))"
      using Cons.prems(2,3) by (simp add: bucket_ok_def)
    have clr: "clear_segment_list (set_bucket i ?b buf) (cl_odid c) (cl_mid c) = Inr (0, set_bucket i ?b' buf)"
      using cells_at[OF d] hk by (simp add: clear_segment_list_def Let_def)
    have "cleanup_walk now i (length us) buf = cleanup_walk now i (length us)
        ((set_bucket i ?b' buf)\<lparr>sb_count := sb_count buf - 1\<rparr>)"
      using None m at update_cell_chain[OF Cons.prems(1,2), of ?m] clr
      by (subst cleanup_walk.simps)
        (auto simp: age_def Let_def chain_at_set_bucket split: if_splits)
    also have "\<dots> = Inr ((set_bucket i (?b'\<lparr>chain := us @ List.map_filter (age_cell now) cs\<rparr>)
        ((set_bucket i ?b' buf)\<lparr>sb_count := sb_count buf - 1\<rparr>))
        \<lparr>sb_count := sb_count ((set_bucket i ?b' buf)\<lparr>sb_count := sb_count buf - 1\<rparr>) - of_nat (expired now cs)\<rparr>)"
      using Cons.prems(2,3) by (intro Cons.IH) (simp_all add: bucket_ok_def set_bucket_def)
    moreover have "age_cell now c = None" using None m by (simp add: age_cell_def)
    ultimately show ?thesis
      by (simp add: expired_def map_filter_simps set_bucket_def algebra_simps)
  qed
qed


text \<open>A visit of bucket \<open>i\<close>, whatever is in it.\<close>

definition visited_bucket :: "int \<Rightarrow> nat \<Rightarrow> segment_buffer \<Rightarrow> segment_buffer" where
  "visited_bucket now i buf =
     (case hash_array buf i of
        None \<Rightarrow> buf
      | Some b \<Rightarrow> (set_bucket i (b\<lparr>chain := List.map_filter (age_cell now) (chain b)\<rparr>) buf)
          \<lparr>sb_count := sb_count buf - of_nat (expired now (chain b))\<rparr>)"

lemma cleanup_walk_bucket:
  assumes "buckets_ok buf"
  shows "cleanup_walk now i 0 buf = Inr (visited_bucket now i buf)"
proof (cases "hash_array buf i")
  case None
  then show ?thesis
    by (subst cleanup_walk.simps) (simp add: chain_at_def dangling_at_def visited_bucket_def)
next
  case (Some b)
  then have "bucket_ok i b" using assms by (simp add: buckets_ok_def)
  with cleanup_walk_chain[of buf i b "[]" "chain b" now] Some show ?thesis
    by (simp add: visited_bucket_def)
qed

lemma age_cell_props:
  "age_cell now c = Some c' \<Longrightarrow> ids c' = ids c"
  "age_cell now c = Some c' \<Longrightarrow> cell_ok i c \<Longrightarrow> cell_ok i c'"
  by (auto simp: age_cell_def cell_ok_def bind_eq_Some_conv dest!: age_ids split: option.splits)

lemma bucket_ok_aged:
  assumes "bucket_ok i b"
  shows "bucket_ok i (b\<lparr>chain := List.map_filter (age_cell now) (chain b)\<rparr>)"
proof -
  have sub: "x \<in> ids ` set cs" if "x \<in> ids ` set (List.map_filter (age_cell now) cs)" for x cs
    using that by (induction cs) (auto simp: map_filter_simps age_cell_props(1) split: option.splits)
  have "distinct (map ids (List.map_filter (age_cell now) cs))" if "distinct (map ids cs)" for cs
    using that
  proof (induction cs)
    case (Cons c cs)
    then have "ids c \<notin> ids ` set (List.map_filter (age_cell now) cs)" using sub[of "ids c" cs] by auto
    with Cons show ?case
      by (simp add: map_filter_simps age_cell_props(1) split: option.splits)
  qed (simp add: map_filter_simps)
  moreover have "list_all (cell_ok i) cs \<Longrightarrow> list_all (cell_ok i) (List.map_filter (age_cell now) cs)" for cs
    by (induction cs) (auto simp: map_filter_simps age_cell_props(2) split: option.splits)
  ultimately show ?thesis using assms by (simp add: bucket_ok_def)
qed

lemma message_in_aged:
  assumes "distinct (map ids cs)" "list_all (cell_ok i) cs"
  shows "message_in odid mid (List.map_filter (age_cell now) cs) =
    Option.bind (message_in odid mid cs) (age now)"
  using assms
proof (induction cs)
  case Nil
  then show ?case by (simp add: map_filter_simps)
next
  case (Cons c cs)
  obtain m where m: "cl_head c = Some m"
    using Cons.prems(2) by (auto simp: cell_ok_def split: option.splits)
  show ?case
  proof (cases "age_cell now c")
    case None
    have "message_in odid mid cs = None" if "ids c = (odid, mid)"
      using Cons.prems(1) that by (intro message_in_absent) auto
    then show ?thesis using None Cons m by (auto simp: map_filter_simps age_cell_def)
  next
    case (Some c')
    then have "ids c' = ids c" "cl_head c' = age now m"
      using m by (auto simp: age_cell_def ids_def)
    then show ?thesis using Some Cons m by (simp add: map_filter_simps)
  qed
qed

lemma length_aged: "length (List.map_filter (age_cell now) cs) + expired now cs = length cs"
  by (induction cs) (auto simp: map_filter_simps expired_def split: option.splits)


section \<open>A pass\<close>

lemma visited_bucket_props:
  assumes "buckets_ok buf"
  shows "buckets_ok (visited_bucket now i buf)"
    "message_at (visited_bucket now i buf) odid mid =
      (if unat (hashKey odid mid) = i then Option.bind (message_at buf odid mid) (age now)
       else message_at buf odid mid)"
    "j \<noteq> i \<Longrightarrow> hash_array (visited_bucket now i buf) j = hash_array buf j"
    "cleanup_start_index (visited_bucket now i buf) = cleanup_start_index buf"
    "i < SIZE_BUF \<Longrightarrow> sb_count buf = of_nat (stored buf) \<Longrightarrow>
      sb_count (visited_bucket now i buf) = of_nat (stored (visited_bucket now i buf))"
proof -
  have b: "bucket_ok i b" if "hash_array buf i = Some b" for b
    using assms that by (simp add: buckets_ok_def)
  show "buckets_ok (visited_bucket now i buf)"
    using b assms by (auto simp: visited_bucket_def buckets_ok_set bucket_ok_aged split: option.splits)
  show "message_at (visited_bucket now i buf) odid mid =
      (if unat (hashKey odid mid) = i then Option.bind (message_at buf odid mid) (age now)
       else message_at buf odid mid)"
  proof (cases "hash_array buf i")
    case None
    then show ?thesis by (auto simp: visited_bucket_def message_at_def chain_at_def)
  next
    case (Some bu)
    with b have "distinct (map ids (chain bu))" "list_all (cell_ok i) (chain bu)"
      "chain_at buf i = chain bu" by (simp_all add: bucket_ok_def chain_at_def)
    with Some show ?thesis
      by (auto simp: visited_bucket_def message_at_def chain_at_set_bucket message_in_aged)
  qed
  show "j \<noteq> i \<Longrightarrow> hash_array (visited_bucket now i buf) j = hash_array buf j"
    "cleanup_start_index (visited_bucket now i buf) = cleanup_start_index buf"
    by (auto simp: visited_bucket_def set_bucket_def split: option.splits)
  assume i: "i < SIZE_BUF" and cnt: "sb_count buf = of_nat (stored buf)"
  show "sb_count (visited_bucket now i buf) = of_nat (stored (visited_bucket now i buf))"
  proof (cases "hash_array buf i")
    case None
    then show ?thesis using cnt by (simp add: visited_bucket_def)
  next
    case (Some bu)
    let ?b = "bu\<lparr>chain := List.map_filter (age_cell now) (chain bu)\<rparr>"
    have "stored (set_bucket i ?b buf) + expired now (chain bu) = stored buf"
      using stored_set_bucket[OF i, of ?b buf] Some length_aged[of now "chain bu"]
      by (simp add: chain_at_def)
    then have "of_nat (stored buf) = (of_nat (stored (set_bucket i ?b buf)) :: u32) + of_nat (expired now (chain bu))"
      by (metis of_nat_add)
    then show ?thesis using Some cnt by (simp add: visited_bucket_def)
  qed
qed

definition window :: "nat \<Rightarrow> nat \<Rightarrow> nat \<Rightarrow> nat set" where
  "window start count n = (\<lambda>k. (start + k) mod SIZE_BUF) ` {count..<count + n}"

lemma window_Suc:
  "window start count (Suc n) = insert ((start + count) mod SIZE_BUF) (window start (Suc count) n)"
proof -
  have "{count..<count + Suc n} = insert count {Suc count..<Suc count + n}" by auto
  then show ?thesis by (simp add: window_def)
qed

lemma window_new:
  assumes "Suc n \<le> SIZE_BUF"
  shows "(start + count) mod SIZE_BUF \<notin> window start (Suc count) n"
proof
  assume "(start + count) mod SIZE_BUF \<in> window start (Suc count) n"
  then obtain k where k: "(start + count) mod SIZE_BUF = (start + k) mod SIZE_BUF"
      "k \<in> {Suc count..<Suc count + n}"
    unfolding window_def by (rule imageE)
  define d where "d = k - Suc count"
  have "d < n" "k = Suc count + d" using k(2) unfolding d_def atLeastLessThan_iff by linarith+
  with k(1) have d: "d < n" "(start + count) mod SIZE_BUF = (start + (Suc count + d)) mod SIZE_BUF"
    by (simp_all only:)
  have e: "start + (Suc count + d) = start + count + Suc d" by simp
  have "((start + count) mod SIZE_BUF + 0) mod SIZE_BUF = (start + count) mod SIZE_BUF" by simp
  also have "\<dots> = (start + count + Suc d) mod SIZE_BUF" by (rule d(2)[unfolded e])
  also have "\<dots> = ((start + count) mod SIZE_BUF + Suc d) mod SIZE_BUF" by (rule mod_add_left_eq[symmetric])
  finally have "((start + count) mod SIZE_BUF + 0) mod SIZE_BUF =
      ((start + count) mod SIZE_BUF + Suc d) mod SIZE_BUF" .
  from ring_slot_inj[OF _ _ _ this] d(1) assms show False by simp
qed

lemma cleanup_pass_run:
  assumes "buckets_ok buf" "n \<le> SIZE_BUF"
  shows "\<exists>buf'. cleanup_pass now start count n buf = Inr buf' \<and> buckets_ok buf' \<and>
    cleanup_start_index buf' = cleanup_start_index buf \<and>
    (sb_count buf = of_nat (stored buf) \<longrightarrow> sb_count buf' = of_nat (stored buf')) \<and>
    (\<forall>j. j \<notin> window start count n \<longrightarrow> hash_array buf' j = hash_array buf j) \<and>
    (\<forall>odid mid. message_at buf' odid mid =
      (if unat (hashKey odid mid) \<in> window start count n
       then Option.bind (message_at buf odid mid) (age now) else message_at buf odid mid))"
  using assms
proof (induction n arbitrary: count buf)
  case 0
  then show ?case by (simp add: window_def)
next
  case (Suc n)
  let ?i = "(start + count) mod SIZE_BUF"
  let ?b = "visited_bucket now ?i buf"
  note v = visited_bucket_props[OF Suc.prems(1), where now = now and i = ?i]
  have le: "n \<le> SIZE_BUF" using Suc.prems(2) by simp
  from Suc.IH[OF v(1) le, of "Suc count"] obtain buf' where b:
    "cleanup_pass now start (Suc count) n ?b = Inr buf'" "buckets_ok buf'"
    "cleanup_start_index buf' = cleanup_start_index ?b"
    "sb_count ?b = of_nat (stored ?b) \<longrightarrow> sb_count buf' = of_nat (stored buf')"
    "\<forall>j. j \<notin> window start (Suc count) n \<longrightarrow> hash_array buf' j = hash_array ?b j"
    "\<forall>odid mid. message_at buf' odid mid =
      (if unat (hashKey odid mid) \<in> window start (Suc count) n
       then Option.bind (message_at ?b odid mid) (age now) else message_at ?b odid mid)"
    by blast
  have run: "cleanup_pass now start count (Suc n) buf = Inr buf'"
    using b(1) by (simp add: cleanup_walk_bucket[OF Suc.prems(1)])
  have cnt: "sb_count buf = of_nat (stored buf) \<longrightarrow> sb_count buf' = of_nat (stored buf')"
    using b(4) v(5) by simp
  have hash: "\<forall>j. j \<notin> window start count (Suc n) \<longrightarrow> hash_array buf' j = hash_array buf j"
    using b(5) v(3) by (simp add: window_Suc)
  have "message_at buf' odid mid = (if unat (hashKey odid mid) \<in> window start count (Suc n)
      then Option.bind (message_at buf odid mid) (age now) else message_at buf odid mid)" for odid mid
    using b(6) v(2)[where odid = odid and mid = mid] window_new[OF Suc.prems(2), of start count] by (auto simp: window_Suc)
  with run b(2,3) v(4) cnt hash show ?case by auto
qed


lemma cleanup_seg_buff_run:
  assumes "buckets_ok buf" and "sb_count buf = of_nat (stored buf)" and "pass_size \<le> SIZE_BUF"
  shows "\<exists>buf'. cleanup_seg_buff now buf pass_size = Inr buf' \<and> buckets_ok buf' \<and>
    sb_count buf' = of_nat (stored buf') \<and> cleanup buf' = 0 \<and>
    (\<forall>odid mid. message_at buf' odid mid =
      (if unat (hashKey odid mid) \<in> window (unat (cleanup_start_index buf)) 0 pass_size
       then Option.bind (message_at buf odid mid) (age now) else message_at buf odid mid))"
proof -
  obtain buf1 where b: "cleanup_pass now (unat (cleanup_start_index buf)) 0 pass_size buf = Inr buf1"
    "buckets_ok buf1" "sb_count buf1 = of_nat (stored buf1)"
    "\<forall>odid mid. message_at buf1 odid mid =
      (if unat (hashKey odid mid) \<in> window (unat (cleanup_start_index buf)) 0 pass_size
       then Option.bind (message_at buf odid mid) (age now) else message_at buf odid mid)"
    using cleanup_pass_run[OF assms(1,3)] assms(2) by blast
  then show ?thesis
    by (auto simp: cleanup_seg_buff_def buckets_ok_def message_at_def stored_def chain_at_def)
qed

text \<open>
  C19. A clean-up pass of at most one round, on a well-formed table: it does not fault, keeps the
  buckets well formed and the counter exact, and changes only the buckets of its window. There
  every message ages by one step: an unmarked message is marked, a marked one gets the time
  of the pass, and one that was given a time more than three seconds ago is removed. No other
  message is lost or changed.
\<close>

theorem cleanup_ages_messages:
  assumes "buckets_ok buf" and "sb_count buf = of_nat (stored buf)" and "pass_size \<le> SIZE_BUF"
  shows "\<exists>buf'. cleanup_seg_buff now buf pass_size = Inr buf' \<and> buckets_ok buf' \<and>
    sb_count buf' = of_nat (stored buf') \<and> cleanup buf' = 0 \<and>
    (\<forall>odid mid. message_at buf' odid mid =
      (if unat (hashKey odid mid) \<in> window (unat (cleanup_start_index buf)) 0 pass_size
       then Option.bind (message_at buf odid mid) (age now) else message_at buf odid mid))"
  using assms by (rule cleanup_seg_buff_run)

text \<open>A table with one message.\<close>

definition single_buffer :: "message_segment_list \<Rightarrow> segment_buffer" where
  "single_buffer m = set_bucket (unat (hashKey (msl_odid m) (msl_mid m)))
     \<lparr>chain = [\<lparr>cl_odid = msl_odid m, cl_mid = msl_mid m, cl_head = Some m\<rparr>], dangling = False\<rparr>
     (empty_buffer\<lparr>sb_count := 1\<rparr>)"

lemma single_buffer_ok:
  "buckets_ok (single_buffer m)" "sb_count (single_buffer m) = of_nat (stored (single_buffer m))"
  "message_at (single_buffer m) (msl_odid m) (msl_mid m) = Some m"
  "cleanup_start_index (single_buffer m) = 0" "stored (single_buffer m) = 1"
proof -
  let ?hk = "unat (hashKey (msl_odid m) (msl_mid m))"
  show "buckets_ok (single_buffer m)"
    unfolding single_buffer_def by (intro buckets_ok_set) (simp_all add: bucket_ok_def cell_ok_def)
  have "chain_at empty_buffer ?hk = []" by (simp add: chain_at_def empty_buffer_def)
  then show st: "stored (single_buffer m) = 1"
    unfolding single_buffer_def
    using stored_set_bucket[OF hashKey_less, of "msl_odid m" "msl_mid m"
      "\<lparr>chain = [\<lparr>cl_odid = msl_odid m, cl_mid = msl_mid m, cl_head = Some m\<rparr>], dangling = False\<rparr>"
      "empty_buffer\<lparr>sb_count := 1\<rparr>"]
    by simp
  show "sb_count (single_buffer m) = of_nat (stored (single_buffer m))"
    unfolding st by (simp add: single_buffer_def)
  show "message_at (single_buffer m) (msl_odid m) (msl_mid m) = Some m"
    by (simp add: single_buffer_def message_at_def chain_at_set_bucket ids_def)
  show "cleanup_start_index (single_buffer m) = 0" by (simp add: single_buffer_def empty_buffer_def)
qed

lemma sample_msl_ids [simp]: "msl_odid sample_msl = 7" "msl_mid sample_msl = 9"
  by (simp_all add: sample_msl_def)

theorem cleanup_ages_messages_witness:
  "\<exists>buf'. cleanup_seg_buff 100 (single_buffer sample_msl) 500 = Inr buf' \<and>
    message_at buf' 7 9 = Some (sample_msl\<lparr>to_clean_up := 1\<rparr>)"
proof -
  note ok = single_buffer_ok[of sample_msl, simplified]
  have "unat (hashKey 7 9) = 14" by (simp add: hashKey_def)
  then have "unat (hashKey 7 9) \<in> window (unat (cleanup_start_index (single_buffer sample_msl))) 0 500"
    unfolding ok(4) window_def by (intro image_eqI[of _ _ 14]) simp_all
  moreover have "age 100 sample_msl = Some (sample_msl\<lparr>to_clean_up := 1\<rparr>)"
    by (simp add: age_def sample_msl_def)
  ultimately show ?thesis
    using cleanup_ages_messages[OF single_buffer_ok(1,2)[of sample_msl], of 500 100] ok(3) by auto
qed

section \<open>Where the passes go\<close>

fun cleanup_passes :: "int list \<Rightarrow> segment_buffer \<Rightarrow> fault + segment_buffer" where
  "cleanup_passes [] buf = Inr buf"
| "cleanup_passes (now # nows) buf =
     bind_fault (cleanup_seg_buff now buf CLEAN_UP_PASS_SIZE) (cleanup_passes nows)"

lemma window_pass_bound:
  fixes start :: u8
  assumes "4 dvd unat start" "j \<in> window (unat start) 0 CLEAN_UP_PASS_SIZE"
  shows "j < 752"
proof -
  have "unat start < 253"
  proof -
    obtain q where "unat start = 4 * q" using assms(1) by (elim dvdE)
    then show ?thesis using u8_less[of start] by simp
  qed
  then have "unat start \<le> 252" by simp
  then show ?thesis using assms(2) by (auto simp: window_def)
qed

lemma next_start_dvd:
  assumes "4 dvd unat (start :: u8)"
  shows "4 dvd unat (of_nat ((unat start + CLEAN_UP_PASS_SIZE) mod SIZE_BUF) :: u8)"
proof -
  have "(unat start + CLEAN_UP_PASS_SIZE) mod SIZE_BUF = unat start + CLEAN_UP_PASS_SIZE"
    using u8_less[of start] by simp
  moreover have "4 dvd (unat start + CLEAN_UP_PASS_SIZE) mod 256"
    using assms by (simp add: dvd_mod_iff)
  ultimately show ?thesis by (simp only: unat_of_nat) simp
qed

text \<open>
  C23. The start index of the next pass is kept in a byte, so it wraps at 256 instead of at the
  size of the table: started from a fresh table, no sequence of passes ever looks into a bucket from
  752 on. Messages there are never aged and never removed, however old.
\<close>

theorem buckets_never_cleaned:
  assumes "buckets_ok buf" and "4 dvd unat (cleanup_start_index buf)" and "752 \<le> unat (hashKey odid mid)"
  shows "\<exists>buf'. cleanup_passes nows buf = Inr buf' \<and> message_at buf' odid mid = message_at buf odid mid"
  using assms
proof (induction nows arbitrary: buf)
  case Nil
  then show ?case by simp
next
  case (Cons now nows)
  obtain buf1 where b: "cleanup_pass now (unat (cleanup_start_index buf)) 0 CLEAN_UP_PASS_SIZE buf = Inr buf1"
    "buckets_ok buf1" "cleanup_start_index buf1 = cleanup_start_index buf"
    "\<forall>odid mid. message_at buf1 odid mid =
      (if unat (hashKey odid mid) \<in> window (unat (cleanup_start_index buf)) 0 CLEAN_UP_PASS_SIZE
       then Option.bind (message_at buf odid mid) (age now) else message_at buf odid mid)"
    using cleanup_pass_run[OF Cons.prems(1), of CLEAN_UP_PASS_SIZE] by fastforce
  let ?b = "buf1\<lparr>cleanup := 0, cleanup_start_index :=
    of_nat ((unat (cleanup_start_index buf1) + CLEAN_UP_PASS_SIZE) mod SIZE_BUF)\<rparr>"
  have "unat (hashKey odid mid) \<notin> window (unat (cleanup_start_index buf)) 0 CLEAN_UP_PASS_SIZE"
    using window_pass_bound[OF Cons.prems(2), of "unat (hashKey odid mid)"] Cons.prems(3) by linarith
  then have "message_at ?b odid mid = message_at buf odid mid"
    using b(4) by (simp add: message_at_def chain_at_def)
  moreover have "\<exists>buf'. cleanup_passes nows ?b = Inr buf' \<and> message_at buf' odid mid = message_at ?b odid mid"
    using b(2,3) Cons.prems(2,3) next_start_dvd[OF Cons.prems(2)]
    by (intro Cons.IH) (simp_all add: buckets_ok_def)
  ultimately show ?case using b(1) by (simp add: cleanup_seg_buff_def)
qed

theorem buckets_never_cleaned_witness:
  "\<exists>buf'. cleanup_passes [100, 200, 300, 400] (single_buffer (sample_msl\<lparr>msl_mid := 1000\<rparr>)) = Inr buf' \<and>
    message_at buf' 7 1000 = Some (sample_msl\<lparr>msl_mid := 1000\<rparr>)"
proof -
  let ?m = "sample_msl\<lparr>msl_mid := 1000\<rparr>"
  note ok = single_buffer_ok[of ?m]
  have "752 \<le> unat (hashKey 7 1000)" by (simp add: hashKey_def)
  from buckets_never_cleaned[OF ok(1) _ this, of "[100, 200, 300, 400]"] ok(3,4)
  show ?thesis by simp
qed

section \<open>Freeing the table\<close>

lemma clear_cells_bucket:
  assumes "hash_array buf i = Some b" "bucket_ok i b"
  shows "clear_cells buf (chain b) =
    Inr (int (length (chain b)), set_bucket i (b\<lparr>chain := []\<rparr>) buf)"
  using assms
proof (induction "chain b" arbitrary: b buf)
  case Nil
  then have "set_bucket i (b\<lparr>chain := []\<rparr>) buf = buf"
    by (cases b, cases buf) (simp add: set_bucket_def fun_upd_idem)
  with Nil.hyps show ?case by (simp flip: Nil.hyps)
next
  case (Cons c cs)
  let ?b = "b\<lparr>chain := cs\<rparr>"
  have ch: "chain b = c # cs" using Cons.hyps(2) by simp
  obtain m where m: "cl_head c = Some m" "msl_odid m = cl_odid c" "msl_mid m = cl_mid c"
    and hk: "unat (hashKey (cl_odid c) (cl_mid c)) = i"
    using Cons.prems(2) ch by (auto simp: bucket_ok_def cell_ok_def split: option.splits)
  have d: "distinct (map ids ([] @ c # cs))" using Cons.prems(2) ch by (simp add: bucket_ok_def)
  have clr: "clear_segment_list buf (cl_odid c) (cl_mid c) = Inr (0, set_bucket i ?b buf)"
    using cells_at[OF d] hk Cons.prems(1) ch m(1) by (simp add: clear_segment_list_def Let_def)
  have "clear_cells (set_bucket i ?b buf) (chain ?b) =
      Inr (int (length (chain ?b)), set_bucket i (?b\<lparr>chain := []\<rparr>) (set_bucket i ?b buf))"
    using Cons.prems(2) ch by (intro Cons.hyps(1)) (simp_all add: bucket_ok_def)
  then show ?case using m clr by (simp add: ch)
qed

lemma clear_buckets_run:
  assumes "buckets_ok buf"
  shows "\<exists>buf'. clear_buckets i n buf = Inr (int (\<Sum>j\<in>{i..<i + n}. length (chain_at buf j)), buf') \<and>
    (\<forall>j. chain_at buf' j = (if j \<in> {i..<i + n} then [] else chain_at buf j))"
  using assms
proof (induction n arbitrary: i buf)
  case 0
  then show ?case by simp
next
  case (Suc n)
  have iv: "{i..<i + Suc n} = insert i {Suc i..<Suc i + n}" by auto
  show ?case
  proof (cases "hash_array buf i")
    case None
    then have "chain_at buf i = []" by (simp add: chain_at_def)
    with None Suc.IH[OF Suc.prems, of "Suc i"] show ?thesis unfolding iv by auto
  next
    case (Some b)
    then have b: "bucket_ok i b" using Suc.prems by (simp add: buckets_ok_def)
    let ?buf = "set_bucket i (b\<lparr>chain := []\<rparr>) buf"
    have coll: "clear_collision_list buf b = Inr (int (length (chain b)), ?buf)"
      using clear_cells_bucket[OF Some b] b by (simp add: clear_collision_list_def bucket_ok_def)
    have "buckets_ok ?buf" using Suc.prems by (intro buckets_ok_set) (use b in \<open>simp_all add: bucket_ok_def\<close>)
    from Suc.IH[OF this, of "Suc i"] obtain buf' where
      IH: "clear_buckets (Suc i) n ?buf = Inr (int (\<Sum>j\<in>{Suc i..<Suc i + n}. length (chain_at ?buf j)), buf')"
      "\<forall>j. chain_at buf' j = (if j \<in> {Suc i..<Suc i + n} then [] else chain_at ?buf j)" by blast
    have "(\<Sum>j\<in>{Suc i..<Suc i + n}. length (chain_at ?buf j)) =
        (\<Sum>j\<in>{Suc i..<Suc i + n}. length (chain_at buf j))"
      by (rule sum.cong) (simp_all add: chain_at_set_bucket)
    moreover have "chain_at buf i = chain b" using Some by (simp add: chain_at_def)
    ultimately show ?thesis
      unfolding iv using Some coll IH by (auto simp: chain_at_set_bucket)
  qed
qed

text \<open>
  Freeing the table frees every message once: on a well-formed table \<^verbatim>\<open>clear_buffer\<close> does not
  fault, no message is left in any bucket, and the value returned is the number of messages.
\<close>

lemma clear_buffer_run:
  assumes "buckets_ok buf"
  shows "\<exists>buf'. clear_buffer buf = Inr (int (stored buf), buf') \<and> (\<forall>i<SIZE_BUF. chain_at buf' i = [])"
proof -
  have "{0..<0 + SIZE_BUF} = {..<SIZE_BUF}" by auto
  with clear_buckets_run[OF assms, of 0 SIZE_BUF] show ?thesis
    unfolding clear_buffer_def stored_def by auto
qed

end
