(* ===== verification/Memory_Clear.thy ===== *)
theory Memory_Clear
  imports Memory_Table Cleanup
begin

text \<open>
  The two loops that walk over the segmentation buffer and free messages on their way, at the level
  of blocks: \<^verbatim>\<open>clear_buffer\<close>, which frees everything, and \<^verbatim>\<open>cleanup_seg_buff\<close>, which frees the
  messages that expired. Both follow the collision list while they take cells out of it.
\<close>

section \<open>Operations\<close>

text \<open>The loop of \<^verbatim>\<open>clear_collision_list\<close>; the result is the number of cells.\<close>

partial_function (option) clear_cells_mem ::
  "memory \<Rightarrow> addr \<Rightarrow> addr \<Rightarrow> int \<Rightarrow> (fault + (int \<times> memory)) option"
where
  "clear_cells_mem m buf cur res =
     (if cur = 0 then Some (Inr (res, m))
      else
        (case bind_fault (coll_next_at m cur) (\<lambda>temp.
              bind_fault (coll_cell_at m cur) (\<lambda>c.
              bind_fault (msl_head_at m (cc_head c)) (\<lambda>h. Inr (temp, mh_odid h, mh_mid h)))) of
           Inl e \<Rightarrow> Some (Inl e)
         | Inr t \<Rightarrow>
             Option.bind (clear_segment_list_mem m buf (fst (snd t)) (snd (snd t))) (\<lambda>r.
             case r of
               Inl e \<Rightarrow> Some (Inl e)
             | Inr p \<Rightarrow> clear_cells_mem (snd p) buf (fst t) (res + 1))))"

declare clear_cells_mem.simps [code]

definition clear_collision_list_mem ::
  "memory \<Rightarrow> addr \<Rightarrow> addr \<Rightarrow> (fault + (int \<times> memory)) option" where
  "clear_collision_list_mem m buf head =
     bind_run (Some (coll_next_at m head)) (\<lambda>cur.
     bind_run (clear_cells_mem m buf cur 0) (\<lambda>(res, m1).
     bind_run (Some (free m1 head)) (\<lambda>m2. Some (Inr (res, m2)))))"

text \<open>The buckets from \<open>i\<close> on, \<open>n\<close> of them.\<close>

fun clear_buckets_mem ::
  "memory \<Rightarrow> addr \<Rightarrow> nat \<Rightarrow> nat \<Rightarrow> (fault + (int \<times> memory)) option"
where
  "clear_buckets_mem m buf i 0 = Some (Inr (0, m))"
| "clear_buckets_mem m buf i (Suc n) =
     bind_run (Some (buffer_at m buf)) (\<lambda>b.
     bind_run
       (if bf_hash_array b i \<noteq> 0 then clear_collision_list_mem m buf (bf_hash_array b i)
        else Some (Inr (0, m))) (\<lambda>(r, m1).
     bind_run (clear_buckets_mem m1 buf (Suc i) n) (\<lambda>(res, m2). Some (Inr (r + res, m2)))))"

definition clear_buffer_mem :: "memory \<Rightarrow> addr \<Rightarrow> (fault + (int \<times> memory)) option" where
  "clear_buffer_mem m buf =
     bind_run (clear_buckets_mem m buf 0 SIZE_BUF) (\<lambda>(res, m1).
     bind_run (Some (free m1 buf)) (\<lambda>m2. Some (Inr (res, m2))))"

text \<open>\<^verbatim>\<open>buf->count--\<close>\<close>

definition dec_count :: "memory \<Rightarrow> addr \<Rightarrow> fault + memory" where
  "dec_count m buf =
     bind_fault (buffer_at m buf) (\<lambda>b. Inr (store m buf (Buffer (b\<lparr>bf_count := bf_count b - 1\<rparr>))))"

text \<open>The inner loop of \<^verbatim>\<open>cleanup_seg_buff\<close> over the cells of one bucket.\<close>

partial_function (option) cleanup_cells_mem ::
  "int \<Rightarrow> addr \<Rightarrow> memory \<Rightarrow> addr \<Rightarrow> (fault + memory) option"
where
  "cleanup_cells_mem now buf m nx =
     (if nx = 0 then Some (Inr m)
      else
        (case bind_fault (coll_cell_at m nx) (\<lambda>c.
              bind_fault (msl_head_at m (cc_head c)) (\<lambda>h. Inr (c, h))) of
           Inl e \<Rightarrow> Some (Inl e)
         | Inr x \<Rightarrow>
             if mh_to_clean_up (snd x) = 0 then
               (let m1 = store m (cc_head (fst x)) (Msl_Head ((snd x)\<lparr>mh_to_clean_up := 1\<rparr>)) in
                case coll_next_at m1 nx of
                  Inl e \<Rightarrow> Some (Inl e)
                | Inr t \<Rightarrow> cleanup_cells_mem now buf m1 t)
             else
               (case bind_fault (coll_next_at m nx) (\<lambda>t.
                     Inr (t, if mh_timestamp (snd x) = 0
                             then store m (cc_head (fst x)) (Msl_Head ((snd x)\<lparr>mh_timestamp := now\<rparr>))
                             else m)) of
                  Inl e \<Rightarrow> Some (Inl e)
                | Inr y \<Rightarrow>
                    if now - (if mh_timestamp (snd x) = 0 then now else mh_timestamp (snd x)) > EXPIRE_MSG then
                      Option.bind (clear_segment_list_mem (snd y) buf (cc_odid (fst x)) (cc_mid (fst x))) (\<lambda>r.
                      case r of
                        Inl e \<Rightarrow> Some (Inl e)
                      | Inr p \<Rightarrow>
                          (case dec_count (snd p) buf of
                             Inl e \<Rightarrow> Some (Inl e)
                           | Inr m3 \<Rightarrow> cleanup_cells_mem now buf m3 (fst y)))
                    else
                      (case coll_next_at (snd y) nx of
                         Inl e \<Rightarrow> Some (Inl e)
                       | Inr t \<Rightarrow> cleanup_cells_mem now buf (snd y) t))))"

declare cleanup_cells_mem.simps [code]

text \<open>The buckets of a pass, \<open>n\<close> of them from the \<open>k\<close>-th on.\<close>

fun cleanup_pass_mem ::
  "int \<Rightarrow> addr \<Rightarrow> nat \<Rightarrow> nat \<Rightarrow> memory \<Rightarrow> (fault + memory) option"
where
  "cleanup_pass_mem now buf k 0 m = Some (Inr m)"
| "cleanup_pass_mem now buf k (Suc n) m =
     bind_run (Some (buffer_at m buf)) (\<lambda>b.
     let head = bf_hash_array b ((unat (bf_cleanup_start_index b) + k) mod SIZE_BUF) in
     bind_run
       (if head \<noteq> 0
        then bind_run (Some (coll_next_at m head)) (\<lambda>nx. cleanup_cells_mem now buf m nx)
        else Some (Inr m)) (\<lambda>m1. cleanup_pass_mem now buf (Suc k) n m1))"

definition cleanup_seg_buff_mem :: "int \<Rightarrow> memory \<Rightarrow> addr \<Rightarrow> nat \<Rightarrow> (fault + memory) option" where
  "cleanup_seg_buff_mem now m buf cleanup_pass_size =
     bind_run (cleanup_pass_mem now buf 0 cleanup_pass_size m) (\<lambda>m1.
     bind_run (Some (buffer_at m1 buf)) (\<lambda>b.
     Some (Inr (store m1 buf (Buffer (b\<lparr>bf_cleanup := 0, bf_cleanup_start_index :=
       of_nat ((unat (bf_cleanup_start_index b) + CLEAN_UP_PASS_SIZE) mod SIZE_BUF)\<rparr>))))))"

section \<open>Freeing the whole buffer\<close>

text \<open>A cell with its identifiers, and the well-formedness of a bucket, on annotated values.\<close>

lemma bucket_ok_cell:
  assumes "bucket_ok i (bucket_val b)" and "c \<in> set (ab_cells b)"
  shows "\<exists>am. snd (snd (snd c)) = Some am \<and> msl_odid (am_fields am) = cl_odid (cell_of c) \<and>
    msl_mid (am_fields am) = cl_mid (cell_of c) \<and>
    unat (hashKey (cl_odid (cell_of c)) (cl_mid (cell_of c))) = i"
proof -
  have "cell_ok i (cell_of c)"
    using assms by (auto simp: bucket_ok_def bucket_val_def list_all_iff)
  then show ?thesis by (cases c) (auto simp: cell_ok_def list_value_def split: option.splits)
qed

lemma stored_at_split:
  assumes ok: "bucket_ok i (bucket_val b)" and b: "at_buckets at i = Some b"
    and cells: "ab_cells b = us @ c # vs" and am: "snd (snd (snd c)) = Some am"
  shows "stored_at at (cl_odid (cell_of c)) (cl_mid (cell_of c)) b c vs am"
    "a_before (cl_odid (cell_of c)) (cl_mid (cell_of c)) (ab_cells b) = us"
    "unat (hashKey (cl_odid (cell_of c)) (cl_mid (cell_of c))) = i"
proof -
  let ?o = "cl_odid (cell_of c)" and ?m = "cl_mid (cell_of c)"
  show hk: "unat (hashKey ?o ?m) = i" using bucket_ok_cell[OF ok, of c] cells by auto
  have d: "distinct (map ids (map cell_of us @ cell_of c # map cell_of vs))"
    using ok cells by (simp add: bucket_ok_def bucket_val_def)
  have us: "\<not> is_message ?o ?m (cell_of u)" if "u \<in> set us" for u
  proof
    assume "is_message ?o ?m (cell_of u)"
    then have "ids (cell_of u) = ids (cell_of c)" by (simp add: is_message_ids ids_def)
    moreover have "ids (cell_of u) \<in> set (map ids (map cell_of us))" using that by simp
    ultimately show False using d by auto
  qed
  have c: "is_message ?o ?m (cell_of c)" by (simp add: is_message_def)
  show "a_before ?o ?m (ab_cells b) = us"
    unfolding a_before_def cells using us c by (simp add: takeWhile_append2)
  have "a_from ?o ?m (ab_cells b) = c # vs"
    unfolding a_from_def cells using us c by (simp add: dropWhile_append2)
  then show "stored_at at ?o ?m b c vs am" using b hk am by (simp add: stored_at_def)
qed

lemma bucket_ok_tail:
  assumes "bucket_ok i (bucket_val b)" and "ab_cells b = us @ c # vs"
  shows "bucket_ok i (bucket_val (b\<lparr>ab_cells := us @ vs\<rparr>))"
  using assms by (auto simp: bucket_ok_def bucket_val_def)

lemma with_bucket_twice [simp]: "with_bucket (with_bucket at i b) i b' = with_bucket at i b'"
  by (simp add: with_bucket_def)

lemma msl_head_in_table:
  assumes o: "owns m (table_blocks at + F)" and "i < SIZE_BUF" and "at_buckets at i = Some b"
    and "ab_cells b = us @ c # vs" and "snd (snd (snd c)) = Some am"
  shows "msl_head_at m (am_addr am) = Inr (head_fields am)"
proof -
  obtain G where "table_blocks at = message_blocks am + G" using table_known[OF assms(2-5)] by blast
  then show ?thesis using msl_head_at_run[of m am "G + F"] o by (simp add: union_assoc)
qed

lemma clear_cells_run:
  assumes "owns m (table_blocks at + F)" and hk: "i < SIZE_BUF" and "at_buckets at i = Some b"
    and "bucket_ok i (bucket_val b)" and "first_next (ab_cells b) (Some 0) = Some cur"
  shows "\<exists>m'. clear_cells_mem m (at_addr at) cur res = Some (Inr (res + int (length (ab_cells b)), m')) \<and>
    owns m' (table_blocks (with_bucket at i (b\<lparr>ab_cells := []\<rparr>)) + F) \<and> outcomes m' = outcomes m"
  using assms(1,3-)
proof (induction "ab_cells b" arbitrary: m at b cur res)
  case Nil
  have "b\<lparr>ab_cells := []\<rparr> = b" using Nil.hyps by (intro ab_cells_id) simp
  then have "with_bucket at i (b\<lparr>ab_cells := []\<rparr>) = at"
    using with_bucket_same[OF Nil.prems(2)] by (simp only:)
  moreover have "clear_cells_mem m (at_addr at) cur res = Some (Inr (res, m))"
    using Nil by (subst clear_cells_mem.simps) simp
  ultimately show ?case using Nil.prems(1) Nil.hyps by (simp flip: Nil.hyps)
next
  case (Cons c vs)
  have cells: "ab_cells b = [] @ c # vs" using Cons.hyps(2) by simp
  have dang: "\<not> ab_dangling b" using Cons.prems(3) by (simp add: bucket_ok_def bucket_val_def)
  obtain am where am: "snd (snd (snd c)) = Some am" "msl_odid (am_fields am) = cl_odid (cell_of c)"
    "msl_mid (am_fields am) = cl_mid (cell_of c)"
    using bucket_ok_cell[OF Cons.prems(3), of c] cells by auto
  note st = stored_at_split[OF Cons.prems(3,2) cells am(1)]
  let ?o = "cl_odid (cell_of c)" and ?m = "cl_mid (cell_of c)"
  let ?b = "b\<lparr>ab_cells := vs\<rparr>" and ?q = "first_next vs (Some 0)"
  obtain m1 where m1: "clear_segment_list_mem m (at_addr at) ?o ?m = Some (Inr (0, m1))"
    "outcomes m1 = outcomes m" "owns m1 (table_blocks (with_bucket at i ?b) + F)"
    using clear_segment_list_run[OF Cons.prems(1) st(1) dang] st(2,3) by (auto simp: without_message_def)
  obtain nx where nx: "?q = Some nx" by (cases vs) simp_all
  obtain m' where m': "clear_cells_mem m1 (at_addr at) nx (res + 1) =
      Some (Inr (res + 1 + int (length vs), m'))" "outcomes m' = outcomes m1"
    "owns m' (table_blocks (with_bucket at i (b\<lparr>ab_cells := []\<rparr>)) + F)"
    using Cons.hyps(1)[of ?b m1 "with_bucket at i ?b" nx "res + 1"] m1(3) nx
      bucket_ok_tail[OF Cons.prems(3) cells] by auto
  have from_c: "a_from ?o ?m (ab_cells b) = c # vs" and "at_buckets at (unat (hashKey ?o ?m)) = Some b"
    using st(1) by (auto simp: stored_at_def)
  note cell = chain_cell_in_table[OF Cons.prems(1) hashKey_less this(2) from_c]
  have "cc_head (chain_cell c q) = am_addr am" for q using am(1) by (cases c) simp
  moreover have "cur = fst c" using Cons.prems(4) cells by simp
  ultimately have "clear_cells_mem m (at_addr at) cur res = Some (Inr (res + 1 + int (length vs), m'))"
    using cell msl_head_in_table[OF Cons.prems(1) hk Cons.prems(2) cells am(1)] am(2,3) m1(1) m'(1) nx dang
    by (subst clear_cells_mem.simps) (simp add: head_fields_def end_of_def pointer_set_def)
  with m'(2,3) m1(2) show ?case using cells by (simp add: add.assoc)
qed

text \<open>The table after a bucket was freed: the array still holds the address of its header cell.\<close>

definition drop_bucket :: "a_table \<Rightarrow> nat \<Rightarrow> a_bucket \<Rightarrow> a_table" where
  "drop_bucket at i b =
     at\<lparr>at_buckets := (at_buckets at)(i := None), at_stale := (at_stale at)(i := ab_addr b)\<rparr>"

lemma drop_bucket_simps [simp]:
  "at_addr (drop_bucket at i b) = at_addr at"
  "at_buckets (drop_bucket at i b) = (at_buckets at)(i := None)"
  "at_stale (drop_bucket at i b) = (at_stale at)(i := ab_addr b)"
  by (simp_all add: drop_bucket_def)

lemma table_drop_bucket:
  assumes hk: "i < SIZE_BUF" and b: "at_buckets at i = Some b"
  shows "table_blocks (drop_bucket at i b) =
    add_mset (at_addr at, Buffer (buffer_fields_of at)) (other_slots at i)"
proof -
  have "buffer_fields_of (drop_bucket at i b) = buffer_fields_of at"
    using b by (auto simp: buffer_fields_of_def array_of_def drop_bucket_def fun_eq_iff split: option.splits)
  moreover have "other_slots (drop_bucket at i b) i = other_slots at i"
    by (rule other_slots_cong) simp
  moreover have "slot_blocks (drop_bucket at i b) i = {#}" by (simp add: slot_blocks_def)
  ultimately show ?thesis unfolding table_slot[OF hk] by simp
qed

lemma clear_collision_list_run:
  assumes o: "owns m (table_blocks at + F)" and hk: "i < SIZE_BUF" and b: "at_buckets at i = Some b"
    and ok: "bucket_ok i (bucket_val b)"
  shows "\<exists>m'. clear_collision_list_mem m (at_addr at) (ab_addr b) = Some (Inr (int (length (ab_cells b)), m')) \<and>
    owns m' (table_blocks (drop_bucket at i b) + F) \<and> outcomes m' = outcomes m"
proof -
  have dang: "\<not> ab_dangling b" using ok by (simp add: bucket_ok_def bucket_val_def)
  obtain cur where cur: "first_next (ab_cells b) (Some 0) = Some cur" by (cases "ab_cells b") simp_all
  let ?b = "b\<lparr>ab_cells := []\<rparr>"
  obtain m1 where m1: "clear_cells_mem m (at_addr at) cur 0 = Some (Inr (int (length (ab_cells b)), m1))"
    "owns m1 (table_blocks (with_bucket at i ?b) + F)" "outcomes m1 = outcomes m"
    using clear_cells_run[OF o hk b ok cur, of 0] by auto
  have "buffer_fields_of (with_bucket at i ?b) = buffer_fields_of at"
    using b by (intro buffer_fields_with_bucket) (simp add: array_of_def)
  then have "table_blocks (with_bucket at i ?b) = add_mset (ab_addr b, Coll_Head (Some 0))
      (table_blocks (drop_bucket at i b))"
    using dang unfolding table_blocks_def[of "with_bucket at i ?b"] slots_with_bucket[OF hk]
      table_drop_bucket[OF hk b] by (simp add: bucket_blocks_def end_of_def region_ac)
  then have "owns m1 (add_mset (ab_addr b, Coll_Head (Some 0)) (table_blocks (drop_bucket at i b) + F))"
    using m1(2) by simp
  then obtain m2 where "free m1 (ab_addr b) = Inr m2" "owns m2 (table_blocks (drop_bucket at i b) + F)"
    "outcomes m2 = outcomes m1"
    using owns_free by blast
  moreover have "coll_next_at m (ab_addr b) = Inr cur"
    using bucket_next_at(1)[OF o hk b] dang cur by (simp add: end_of_def pointer_set_def)
  ultimately show ?thesis using m1(1,3) by (simp add: clear_collision_list_mem_def)
qed

text \<open>One round of the loop, whether the bucket was ever used or not.\<close>

lemma clear_bucket_run:
  assumes o: "owns m (table_blocks at + F)" and i: "i < SIZE_BUF"
    and ok: "\<forall>b. at_buckets at i = Some b \<longrightarrow> bucket_ok i (bucket_val b)" and stale: "\<forall>j. i \<le> j \<longrightarrow> at_stale at j = 0"
  shows "\<exists>m1 at1. clear_buckets_mem m (at_addr at) i (Suc n) =
      bind_run (clear_buckets_mem m1 (at_addr at1) (Suc i) n)
        (\<lambda>(res, m2). Some (Inr (int (length (chain_at (buffer_of at) i)) + res, m2))) \<and>
    owns m1 (table_blocks at1 + F) \<and> at_addr at1 = at_addr at \<and> outcomes m1 = outcomes m \<and>
    at_buckets at1 = (at_buckets at)(i := None) \<and> (\<forall>j. Suc i \<le> j \<longrightarrow> at_stale at1 j = 0)"
proof (cases "at_buckets at i")
  case None
  then have "length (chain_at (buffer_of at) i) = 0" "bf_hash_array (buffer_fields_of at) i = 0"
    using stale by (simp_all add: chain_at_def buffer_of_def buffer_fields_of_def array_of_def)
  then show ?thesis
    using o None stale buffer_at_run[OF o] by (intro exI[of _ m] exI[of _ at]) auto
next
  case (Some b)
  then obtain m1 where m1: "clear_collision_list_mem m (at_addr at) (ab_addr b) =
      Some (Inr (int (length (ab_cells b)), m1))" "owns m1 (table_blocks (drop_bucket at i b) + F)" "outcomes m1 = outcomes m"
    using clear_collision_list_run[OF o i Some] ok by blast
  have "length (chain_at (buffer_of at) i) = length (ab_cells b)" "bf_hash_array (buffer_fields_of at) i = ab_addr b"
    using Some by (simp_all add: chain_at_def buffer_of_def bucket_val_def buffer_fields_of_def array_of_def)
  then show ?thesis
    using m1 stale buffer_at_run[OF o] bucket_next_at(3)[OF o i Some]
    by (intro exI[of _ m1] exI[of _ "drop_bucket at i b"]) simp
qed

lemma clear_buckets_mem_run:
  assumes "owns m (table_blocks at + F)" and "i + n \<le> SIZE_BUF"
    and "\<forall>j b. at_buckets at j = Some b \<longrightarrow> bucket_ok j (bucket_val b)"
    and "\<forall>j. i \<le> j \<longrightarrow> at_stale at j = 0"
  shows "\<exists>m' at'. clear_buckets_mem m (at_addr at) i n =
      Some (Inr (int (\<Sum>j = i..<i + n. length (chain_at (buffer_of at) j)), m')) \<and>
    owns m' (table_blocks at' + F) \<and> at_addr at' = at_addr at \<and> outcomes m' = outcomes m \<and>
    at_buckets at' = (\<lambda>j. if i \<le> j \<and> j < i + n then None else at_buckets at j)"
  using assms
proof (induction n arbitrary: m at i)
  case 0
  then show ?case by (intro exI[of _ m] exI[of _ at]) (auto simp: fun_eq_iff)
next
  case (Suc n)
  let ?f = "\<lambda>at j. length (chain_at (buffer_of at) j)"
  have i: "i < SIZE_BUF" and le: "Suc i + n \<le> SIZE_BUF" using Suc.prems(2) by linarith+
  have ok: "\<forall>b. at_buckets at i = Some b \<longrightarrow> bucket_ok i (bucket_val b)" using Suc.prems(3) by blast
  obtain m1 at1 where m1: "clear_buckets_mem m (at_addr at) i (Suc n) =
      bind_run (clear_buckets_mem m1 (at_addr at1) (Suc i) n) (\<lambda>(res, m2). Some (Inr (int (?f at i) + res, m2)))"
    "owns m1 (table_blocks at1 + F)" "at_addr at1 = at_addr at" "outcomes m1 = outcomes m"
    "at_buckets at1 = (at_buckets at)(i := None)" "\<forall>j. Suc i \<le> j \<longrightarrow> at_stale at1 j = 0"
    using clear_bucket_run[OF Suc.prems(1) i ok Suc.prems(4), of n] by blast
  have "\<forall>j b. at_buckets at1 j = Some b \<longrightarrow> bucket_ok j (bucket_val b)" using Suc.prems(3) by (simp add: m1(5))
  then obtain m' at' where m': "clear_buckets_mem m1 (at_addr at1) (Suc i) n =
      Some (Inr (int (\<Sum>j = Suc i..<Suc i + n. ?f at1 j), m'))"
    "owns m' (table_blocks at' + F)" "at_addr at' = at_addr at1" "outcomes m' = outcomes m1"
    "at_buckets at' = (\<lambda>j. if Suc i \<le> j \<and> j < Suc i + n then None else at_buckets at1 j)"
    using Suc.IH[OF m1(2) le _ m1(6)] by blast
  have "(\<Sum>j = Suc i..<Suc i + n. ?f at1 j) = (\<Sum>j = Suc i..<Suc i + n. ?f at j)"
    by (rule sum.cong) (auto simp: chain_at_def buffer_of_def m1(5))
  moreover have "(\<Sum>j = i..<i + Suc n. ?f at j) = ?f at i + (\<Sum>j = Suc i..<Suc i + n. ?f at j)"
    by (simp add: sum.atLeast_Suc_lessThan)
  ultimately have run: "clear_buckets_mem m (at_addr at) i (Suc n) = Some (Inr (int (\<Sum>j = i..<i + Suc n. ?f at j), m'))"
    using m1(1) m'(1) by (simp del: sum.op_ivl_Suc of_nat_sum clear_buckets_mem.simps)
  have "at_buckets at' = (\<lambda>j. if i \<le> j \<and> j < i + Suc n then None else at_buckets at j)"
    by (rule ext) (auto simp: m'(5) m1(5))
  with run m'(2-4) m1(3,4) show ?case by auto
qed

text \<open>Freeing a well-formed buffer frees every block of it once, and nothing else.\<close>

lemma clear_buffer_mem_run:
  assumes o: "owns m (table_blocks at + F)" and ok: "buckets_ok (buffer_of at)"
    and null: "at_stale at = (\<lambda>_. 0)"
  shows "\<exists>m'. clear_buffer_mem m (at_addr at) = Some (Inr (int (stored (buffer_of at)), m')) \<and>
    owns m' F \<and> outcomes m' = outcomes m"
proof -
  have "\<forall>j b. at_buckets at j = Some b \<longrightarrow> bucket_ok j (bucket_val b)"
    using ok by (auto simp: buckets_ok_def buffer_of_def)
  then obtain m1 at' where m1: "clear_buckets_mem m (at_addr at) 0 SIZE_BUF =
      Some (Inr (int (\<Sum>j = 0..<SIZE_BUF. length (chain_at (buffer_of at) j)), m1))"
    "owns m1 (table_blocks at' + F)" "at_addr at' = at_addr at" "outcomes m1 = outcomes m"
    "at_buckets at' = (\<lambda>j. if j < SIZE_BUF then None else at_buckets at j)"
    using clear_buckets_mem_run[OF o, of 0 SIZE_BUF] null by auto
  have "slots_blocks at' = {#}"
    unfolding slots_blocks_def by (rule sum.neutral) (simp add: slot_blocks_def m1(5))
  then have "owns m1 (add_mset (at_addr at, Buffer (buffer_fields_of at')) F)"
    using m1(2,3) by (simp add: table_blocks_def)
  then obtain m2 where "free m1 (at_addr at) = Inr m2" "owns m2 F" "outcomes m2 = outcomes m1"
    using owns_free by blast
  then show ?thesis
    using m1(1,4) by (simp add: clear_buffer_mem_def stored_def lessThan_atLeast0)
qed

section \<open>A clean-up pass\<close>

lemma buffer_store_run:
  assumes "owns m (table_blocks at + F)" and "at_addr at' = at_addr at" and "at_buckets at' = at_buckets at"
  shows "owns (store m (at_addr at) (Buffer (buffer_fields_of at'))) (table_blocks at' + F)"
proof -
  have "slots_blocks at' = slots_blocks at"
    unfolding slots_blocks_def by (rule sum.cong) (simp_all add: slot_blocks_def assms(3))
  then show ?thesis
    using owns_store[of m "at_addr at" "Buffer (buffer_fields_of at)"] assms(1,2)
    by (simp add: table_blocks_def)
qed

lemma dec_count_run:
  assumes o: "owns m (table_blocks at + F)"
  shows "\<exists>m'. dec_count m (at_addr at) = Inr m' \<and> outcomes m' = outcomes m \<and>
    owns m' (table_blocks (at\<lparr>at_count := at_count at - 1\<rparr>) + F)"
proof -
  let ?at = "at\<lparr>at_count := at_count at - 1\<rparr>"
  have "buffer_fields_of ?at = (buffer_fields_of at)\<lparr>bf_count := bf_count (buffer_fields_of at) - 1\<rparr>"
    by (auto simp: buffer_fields_of_def array_of_def fun_eq_iff split: option.splits)
  then have "dec_count m (at_addr at) = Inr (store m (at_addr at) (Buffer (buffer_fields_of ?at)))"
    using buffer_at_run[OF o] by (simp add: dec_count_def)
  then show ?thesis using buffer_store_run[OF o, of ?at] by simp
qed

text \<open>Changing fields of the header cell of a message in the table.\<close>

lemma message_store_run:
  assumes o: "owns m (table_blocks at + F)" and i: "i < SIZE_BUF" and b: "at_buckets at i = Some b"
    and cells: "ab_cells b = us @ c # vs" and am: "snd (snd (snd c)) = Some am"
  shows "owns (store m (am_addr am) (Msl_Head (head_fields (am\<lparr>am_fields := f\<rparr>))))
    (table_blocks (with_bucket at i (with_message b us c vs (am\<lparr>am_fields := f\<rparr>))) + F)"
proof -
  obtain G where G: "table_blocks at = message_blocks am + G"
    "\<And>am'. am_addr am' = am_addr am \<Longrightarrow>
      table_blocks (with_bucket at i (with_message b us c vs am')) = message_blocks am' + G"
    using table_known[OF i b cells am] by blast
  have "owns m (message_blocks am + (G + F))" using o by (simp add: G(1) union_assoc)
  from head_store_run[OF this, of "am\<lparr>am_fields := f\<rparr>"] show ?thesis
    by (simp add: G(2) union_assoc)
qed

text \<open>What the loop reads at a cell of the list.\<close>

lemma cell_reads:
  assumes o: "owns m (table_blocks at + F)" and i: "i < SIZE_BUF" and b: "at_buckets at i = Some b"
    and ok: "bucket_ok i (bucket_val b)" and cells: "ab_cells b = us @ c # vs"
    and am: "snd (snd (snd c)) = Some am"
  shows "fst c \<noteq> 0" "coll_cell_at m (fst c) = Inr (chain_cell c (first_next vs (Some 0)))"
    "coll_next_at m (fst c) = pointer_set (first_next vs (Some 0))"
    "msl_head_at m (am_addr am) = Inr (head_fields am)" "cc_head (chain_cell c q) = am_addr am"
proof -
  have q: "end_of (ab_dangling b) = Some 0" using ok by (simp add: bucket_ok_def bucket_val_def end_of_def)
  note st = stored_at_split[OF ok b cells am]
  have from_c: "a_from (cl_odid (cell_of c)) (cl_mid (cell_of c)) (ab_cells b) = c # vs"
    and b': "at_buckets at (unat (hashKey (cl_odid (cell_of c)) (cl_mid (cell_of c)))) = Some b"
    using st(1) by (auto simp: stored_at_def)
  from chain_cell_in_table[OF o hashKey_less b' from_c]
  show "fst c \<noteq> 0" "coll_cell_at m (fst c) = Inr (chain_cell c (first_next vs (Some 0)))"
    "coll_next_at m (fst c) = pointer_set (first_next vs (Some 0))"
    using q by simp_all
  show "msl_head_at m (am_addr am) = Inr (head_fields am)"
    by (rule msl_head_in_table[OF o i b cells am])
  show "cc_head (chain_cell c q) = am_addr am" using am by (cases c) simp
qed

text \<open>Ageing a message changes only the two fields of the clean-up.\<close>

lemma list_value_fields:
  "list_value (am\<lparr>am_fields := (am_fields am)\<lparr>to_clean_up := t\<rparr>\<rparr>) = (list_value am)\<lparr>to_clean_up := t\<rparr>"
  "list_value (am\<lparr>am_fields := (am_fields am)\<lparr>timestamp := ts\<rparr>\<rparr>) = (list_value am)\<lparr>timestamp := ts\<rparr>"
  "to_clean_up (list_value am) = to_clean_up (am_fields am)"
  "timestamp (list_value am) = timestamp (am_fields am)"
  by (simp_all add: list_value_def)

lemma bucket_ok_with_message:
  assumes "bucket_ok i (bucket_val b)" and "ab_cells b = us @ c # vs" and "snd (snd (snd c)) = Some am"
    and "msl_odid (list_value am') = msl_odid (list_value am)" and "msl_mid (list_value am') = msl_mid (list_value am)"
  shows "bucket_ok i (bucket_val (with_message b us c vs am'))"
  using assms by (cases c) (auto simp: bucket_ok_def bucket_val_def with_message_def cell_ok_def ids_def)

text \<open>One cell that stays: its message got other fields, and the loop goes on behind it.\<close>

definition aged_cell :: "a_chain_cell \<Rightarrow> a_message \<Rightarrow> a_chain_cell" where
  "aged_cell c am = (fst c, fst (snd c), fst (snd (snd c)), Some am)"

lemma next_with_message:
  assumes "owns m (table_blocks (with_bucket at i (with_message b us c vs am')) + F)" and i: "i < SIZE_BUF"
    and ok: "bucket_ok i (bucket_val b)" and cells: "ab_cells b = us @ c # vs" and am: "snd (snd (snd c)) = Some am"
    and "msl_odid (list_value am') = msl_odid (list_value am)" and "msl_mid (list_value am') = msl_mid (list_value am)"
    and "first_next vs (Some 0) = Some nx"
  shows "coll_next_at m (fst c) = Inr nx"
proof -
  let ?b = "with_message b us c vs am'"
  have "bucket_ok i (bucket_val ?b)" by (rule bucket_ok_with_message[OF ok cells am assms(6,7)])
  moreover have "ab_cells ?b = us @ aged_cell c am' # vs" by (simp add: with_message_def aged_cell_def)
  ultimately show ?thesis
    using cell_reads(3)[OF assms(1) i, of ?b us "aged_cell c am'" vs am'] assms(8)
    by (simp add: aged_cell_def pointer_set_def)
qed

lemma cleanup_cells_keep:
  assumes o: "owns m (table_blocks at + F)" and i: "i < SIZE_BUF" and b: "at_buckets at i = Some b"
    and ok: "bucket_ok i (bucket_val b)" and cells: "ab_cells b = us @ c # vs"
    and am: "snd (snd (snd c)) = Some am" and age: "age now (list_value am) = Some m'"
    and nx: "first_next vs (Some 0) = Some nx"
  shows "\<exists>m1 am'. cleanup_cells_mem now (at_addr at) m (fst c) = cleanup_cells_mem now (at_addr at) m1 nx \<and>
    list_value am' = m' \<and> tail_ok am' = tail_ok am \<and> outcomes m1 = outcomes m \<and>
    owns m1 (table_blocks (with_bucket at i (with_message b us c vs am')) + F)"
proof -
  note r = cell_reads[OF o i b ok cells am]
  let ?f = "am_fields am"
  show ?thesis
  proof (cases "to_clean_up ?f = 0")
    case True
    let ?am = "am\<lparr>am_fields := ?f\<lparr>to_clean_up := 1\<rparr>\<rparr>"
    let ?m = "store m (am_addr am) (Msl_Head (head_fields ?am))"
    let ?b = "with_message b us c vs ?am"
    have o1: "owns ?m (table_blocks (with_bucket at i ?b) + F)"
      by (rule message_store_run[OF o i b cells am])
    have "head_fields ?am = (head_fields am)\<lparr>mh_to_clean_up := 1\<rparr>" "mh_to_clean_up (head_fields am) = 0"
      using True by (simp_all add: head_fields_def)
    moreover have "coll_next_at ?m (fst c) = Inr nx"
      by (rule next_with_message[OF o1 i ok cells am _ _ nx]) (simp_all add: list_value_def)
    ultimately have "cleanup_cells_mem now (at_addr at) m (fst c) = cleanup_cells_mem now (at_addr at) ?m nx"
      using r by (subst cleanup_cells_mem.simps) (simp add: Let_def)
    moreover have "list_value ?am = m'"
      using age True by (simp add: age_def list_value_fields)
    ultimately show ?thesis
      using o1 by (intro exI[of _ ?m] exI[of _ ?am]) (simp add: tail_ok_def)
  next
    case False
    let ?ts = "if timestamp ?f = 0 then now else timestamp ?f"
    let ?am = "am\<lparr>am_fields := ?f\<lparr>timestamp := ?ts\<rparr>\<rparr>"
    let ?m = "if timestamp ?f = 0 then store m (am_addr am) (Msl_Head (head_fields ?am)) else m"
    let ?b = "with_message b us c vs ?am"
    have aged: "\<not> now - ?ts > EXPIRE_MSG" "list_value ?am = m'"
      using age False by (auto simp: age_def list_value_fields Let_def split: if_splits)
    have same: "with_bucket at i ?b = at" if "timestamp ?f \<noteq> 0"
    proof -
      have "?am = am" using that by (cases am) simp
      then have "with_message b us c vs ?am = b\<lparr>ab_cells := us @ c # vs\<rparr>"
        using am by (cases c) (simp add: with_message_def)
      then have "?b = b" using ab_cells_id[OF cells] by (simp only:)
      then show ?thesis using with_bucket_same[OF b] by (simp only:)
    qed
    have o1: "owns ?m (table_blocks (with_bucket at i ?b) + F)"
    proof (cases "timestamp ?f = 0")
      case True
      then show ?thesis using message_store_run[OF o i b cells am, of "?f\<lparr>timestamp := ?ts\<rparr>"] by simp
    next
      case False
      have "?m = m" using False by simp
      then show ?thesis unfolding same[OF False] using o by (simp only:)
    qed
    have "head_fields ?am = (head_fields am)\<lparr>mh_timestamp := ?ts\<rparr>" "mh_to_clean_up (head_fields am) \<noteq> 0"
      "mh_timestamp (head_fields am) = timestamp ?f"
      using False by (simp_all add: head_fields_def)
    moreover have "coll_next_at ?m (fst c) = Inr nx"
      by (rule next_with_message[OF o1 i ok cells am _ _ nx]) (simp_all add: list_value_def)
    moreover have "coll_next_at m (fst c) = Inr nx" using r(3) nx by (simp add: pointer_set_def)
    ultimately have "cleanup_cells_mem now (at_addr at) m (fst c) = cleanup_cells_mem now (at_addr at) ?m nx"
      using r aged(1) by (subst cleanup_cells_mem.simps) auto
    then show ?thesis
      using o1 aged(2) by (intro exI[of _ ?m] exI[of _ ?am]) (simp add: tail_ok_def)
  qed
qed

text \<open>One cell that goes.\<close>

lemma cleanup_cells_drop:
  assumes o: "owns m (table_blocks at + F)" and i: "i < SIZE_BUF" and b: "at_buckets at i = Some b"
    and ok: "bucket_ok i (bucket_val b)" and cells: "ab_cells b = us @ c # vs"
    and am: "snd (snd (snd c)) = Some am" and age: "age now (list_value am) = None"
    and nx: "first_next vs (Some 0) = Some nx"
  shows "\<exists>m1. cleanup_cells_mem now (at_addr at) m (fst c) = cleanup_cells_mem now (at_addr at) m1 nx \<and>
    outcomes m1 = outcomes m \<and>
    owns m1 (table_blocks ((with_bucket at i (b\<lparr>ab_cells := us @ vs\<rparr>))\<lparr>at_count := at_count at - 1\<rparr>) + F)"
proof -
  note r = cell_reads[OF o i b ok cells am]
  let ?f = "am_fields am" and ?o = "cl_odid (cell_of c)" and ?m = "cl_mid (cell_of c)"
  have old: "to_clean_up ?f \<noteq> 0" "timestamp ?f \<noteq> 0" "now - timestamp ?f > EXPIRE_MSG"
    using age by (auto simp: age_def list_value_fields Let_def split: if_splits)
  have dang: "\<not> ab_dangling b" using ok by (simp add: bucket_ok_def bucket_val_def)
  note st = stored_at_split[OF ok b cells am]
  let ?at = "with_bucket at i (b\<lparr>ab_cells := us @ vs\<rparr>)"
  obtain m1 where m1: "clear_segment_list_mem m (at_addr at) ?o ?m = Some (Inr (0, m1))"
    "outcomes m1 = outcomes m" "owns m1 (table_blocks ?at + F)"
    using clear_segment_list_run[OF o st(1) dang] st(2,3) by (auto simp: without_message_def)
  obtain m2 where m2: "dec_count m1 (at_addr ?at) = Inr m2" "outcomes m2 = outcomes m1"
    "owns m2 (table_blocks (?at\<lparr>at_count := at_count ?at - 1\<rparr>) + F)"
    using dec_count_run[OF m1(3)] by blast
  have "mh_to_clean_up (head_fields am) \<noteq> 0" "mh_timestamp (head_fields am) = timestamp ?f"
    using old(1) by (simp_all add: head_fields_def)
  then have "cleanup_cells_mem now (at_addr at) m (fst c) = cleanup_cells_mem now (at_addr at) m2 nx"
    using r old m1(1) m2(1) nx by (subst cleanup_cells_mem.simps) (simp add: pointer_set_def)
  then show ?thesis using m1(2) m2(2,3) by (intro exI[of _ m2]) simp
qed

text \<open>The walk over the rest \<open>cs\<close> of a bucket.\<close>

text \<open>What one visited cell leaves: a table whose bucket \<open>i\<close> has the cells \<open>us1\<close> instead of the ones up to the visited one.\<close>

definition cells_left :: "memory \<Rightarrow> a_table \<Rightarrow> memory \<Rightarrow> a_table \<Rightarrow> nat \<Rightarrow> a_chain_cell list \<Rightarrow>
    a_chain_cell list \<Rightarrow> region \<Rightarrow> bool" where
  "cells_left m at m1 at1 i us1 vs F \<longleftrightarrow> owns m1 (table_blocks at1 + F) \<and> outcomes m1 = outcomes m \<and>
     at_addr at1 = at_addr at \<and> at_stale at1 = at_stale at \<and> tails_ok at1 \<and>
     (\<exists>b1. at_buckets at1 i = Some b1 \<and> bucket_ok i (bucket_val b1) \<and> ab_cells b1 = us1 @ vs)"

lemma cleanup_cells_kept:
  assumes "owns m (table_blocks at + F)" and i: "i < SIZE_BUF" and b: "at_buckets at i = Some b"
    and ok: "bucket_ok i (bucket_val b)" and c: "ab_cells b = us @ c # vs" and t: "first_next vs (Some 0) = Some t"
    and am: "snd (snd (snd c)) = Some am" "msl_odid (am_fields am) = cl_odid (cell_of c)"
      "msl_mid (am_fields am) = cl_mid (cell_of c)"
    and aged: "age now (list_value am) = Some m'" and tails: "tails_ok at"
  shows "\<exists>m1 at1 us1. cleanup_cells_mem now (at_addr at) m (fst c) = cleanup_cells_mem now (at_addr at) m1 t \<and>
    cells_left m at m1 at1 i us1 vs F \<and>
    cleanup_walk now i (length us) (buffer_of at) = cleanup_walk now i (length us1) (buffer_of at1)"
proof -
  obtain m1 am' where m1: "cleanup_cells_mem now (at_addr at) m (fst c) = cleanup_cells_mem now (at_addr at) m1 t"
    "list_value am' = m'" "outcomes m1 = outcomes m" "tail_ok am' = tail_ok am"
    "owns m1 (table_blocks (with_bucket at i (with_message b us c vs am')) + F)"
    using cleanup_cells_keep[OF assms(1) i b ok c am(1) aged t] by blast
  let ?b = "with_message b us c vs am'" and ?at = "with_bucket at i (with_message b us c vs am')"
  have ok': "bucket_ok i (bucket_val ?b)"
    using age_ids[OF aged] m1(2) by (intro bucket_ok_with_message[OF ok c am(1)]) simp_all
  have cells: "ab_cells ?b = (us @ [aged_cell c am']) @ vs"
    by (simp add: with_message_def aged_cell_def)
  have "bucket_tails b" using b tails by (simp add: tails_ok_def)
  then have "bucket_tails ?b" using c am m1(4) by (auto simp: bucket_tails_def with_message_def)
  then have "tails_ok ?at" by (rule tails_with_bucket[OF tails])
  then have left: "cells_left m at m1 ?at i (us @ [aged_cell c am']) vs F"
    using m1(3,5) ok' cells by (simp add: cells_left_def)
  have ha: "hash_array (buffer_of at) i = Some (bucket_val b)"
    "chain (bucket_val b) = map cell_of us @ map cell_of (c # vs)"
    using b c by (simp_all add: buffer_of_def bucket_val_def)
  have "cleanup_walk now i (length us) (buffer_of at) =
      cleanup_walk now i (length (us @ [aged_cell c am'])) (buffer_of ?at)"
    using cleanup_walk_chain[of "buffer_of ?at" i "bucket_val ?b" "map cell_of (us @ [aged_cell c am'])"
        "map cell_of vs" now] ok' cells cleanup_walk_chain[OF ha ok, of now] aged m1(2) am
    by (cases c) (simp add: buffer_of_with_bucket age_cell_def expired_def map_filter_simps
        bucket_val_def aged_cell_def with_message_def)
  then show ?thesis using m1(1) left by blast
qed

lemma cleanup_cells_dropped:
  assumes "owns m (table_blocks at + F)" and i: "i < SIZE_BUF" and b: "at_buckets at i = Some b"
    and ok: "bucket_ok i (bucket_val b)" and c: "ab_cells b = us @ c # vs" and t: "first_next vs (Some 0) = Some t"
    and am: "snd (snd (snd c)) = Some am" "msl_odid (am_fields am) = cl_odid (cell_of c)"
      "msl_mid (am_fields am) = cl_mid (cell_of c)"
    and aged: "age now (list_value am) = None" and tails: "tails_ok at"
  shows "\<exists>m1 at1. cleanup_cells_mem now (at_addr at) m (fst c) = cleanup_cells_mem now (at_addr at) m1 t \<and>
    cells_left m at m1 at1 i us vs F \<and>
    cleanup_walk now i (length us) (buffer_of at) = cleanup_walk now i (length us) (buffer_of at1)"
proof -
  let ?b = "b\<lparr>ab_cells := us @ vs\<rparr>"
  let ?at = "(with_bucket at i ?b)\<lparr>at_count := at_count at - 1\<rparr>"
  obtain m1 where m1: "cleanup_cells_mem now (at_addr at) m (fst c) = cleanup_cells_mem now (at_addr at) m1 t"
    "outcomes m1 = outcomes m" "owns m1 (table_blocks ?at + F)"
    using cleanup_cells_drop[OF assms(1) i b ok c am(1) aged t] by blast
  have ok': "bucket_ok i (bucket_val ?b)" by (rule bucket_ok_tail[OF ok c])
  have "bucket_tails b" using b tails by (simp add: tails_ok_def)
  then have "bucket_tails ?b" using c by (simp add: bucket_tails_def)
  then have "tails_ok ?at" using tails by (auto simp: tails_ok_def)
  then have left: "cells_left m at m1 ?at i us vs F"
    using m1(2,3) ok' by (simp add: cells_left_def)
  have ha: "hash_array (buffer_of at) i = Some (bucket_val b)"
    "chain (bucket_val b) = map cell_of us @ map cell_of (c # vs)"
    using b c by (simp_all add: buffer_of_def bucket_val_def)
  have "buffer_of ?at = (set_bucket i (bucket_val ?b) (buffer_of at))\<lparr>sb_count := sb_count (buffer_of at) - 1\<rparr>"
    by (auto simp: buffer_of_def set_bucket_def)
  then have "cleanup_walk now i (length us) (buffer_of at) = cleanup_walk now i (length us) (buffer_of ?at)"
    using cleanup_walk_chain[of "buffer_of ?at" i "bucket_val ?b" "map cell_of us" "map cell_of vs" now]
      ok' cleanup_walk_chain[OF ha ok, of now] aged am
    by (cases c) (simp add: age_cell_def expired_def map_filter_simps bucket_val_def set_bucket_def)
  then show ?thesis using m1(1) left by blast
qed

lemma cleanup_cells_run:
  assumes "owns m (table_blocks at + F)" and i: "i < SIZE_BUF" and "at_buckets at i = Some b"
    and "bucket_ok i (bucket_val b)" and "ab_cells b = us @ cs" and "first_next cs (Some 0) = Some nx"
    and "tails_ok at"
  shows "\<exists>m' at'. cleanup_cells_mem now (at_addr at) m nx = Some (Inr m') \<and>
    owns m' (table_blocks at' + F) \<and> at_addr at' = at_addr at \<and> at_stale at' = at_stale at \<and> tails_ok at' \<and>
    outcomes m' = outcomes m \<and>
    cleanup_walk now i (length us) (buffer_of at) = Inr (buffer_of at')"
  using assms(1,3-)
proof (induction cs arbitrary: m at b us nx)
  case Nil
  have "cleanup_walk now i (length us) (buffer_of at) = Inr (buffer_of at)"
    using Nil.prems(2-4) by (subst cleanup_walk.simps)
      (auto simp: chain_at_def buffer_of_def bucket_val_def dangling_at_def bucket_ok_def)
  moreover have "nx = 0" using Nil.prems(5) by simp
  ultimately show ?case
    using Nil.prems(1,6) by (intro exI[of _ m] exI[of _ at]) (simp add: cleanup_cells_mem.simps)
next
  case (Cons c vs)
  obtain am where am: "snd (snd (snd c)) = Some am" "msl_odid (am_fields am) = cl_odid (cell_of c)"
    "msl_mid (am_fields am) = cl_mid (cell_of c)"
    using bucket_ok_cell[OF Cons.prems(3), of c] Cons.prems(4) by auto
  have nx: "nx = fst c" using Cons.prems(5) by simp
  obtain t where t: "first_next vs (Some 0) = Some t" by (cases vs) simp_all
  note here = Cons.prems(1) i Cons.prems(2,3,4) t am
  obtain m1 at1 us1 where m1: "cleanup_cells_mem now (at_addr at) m nx = cleanup_cells_mem now (at_addr at) m1 t"
    "cells_left m at m1 at1 i us1 vs F"
    "cleanup_walk now i (length us) (buffer_of at) = cleanup_walk now i (length us1) (buffer_of at1)"
    unfolding nx using cleanup_cells_dropped[OF here _ Cons.prems(6)] cleanup_cells_kept[OF here _ Cons.prems(6)]
    by (cases "age now (list_value am)") blast+
  obtain b1 where b1: "owns m1 (table_blocks at1 + F)" "at_buckets at1 i = Some b1" "bucket_ok i (bucket_val b1)"
    "ab_cells b1 = us1 @ vs" "tails_ok at1" and same: "outcomes m1 = outcomes m" "at_addr at1 = at_addr at" "at_stale at1 = at_stale at"
    using m1(2) by (auto simp: cells_left_def)
  from Cons.IH[OF b1(1-4) t b1(5)] m1(1,3) same show ?case by auto
qed

lemma cleanup_bucket_run:
  assumes o: "owns m (table_blocks at + F)" and ok: "buckets_ok (buffer_of at)"
    and null: "at_stale at = (\<lambda>_. 0)" and tails: "tails_ok at" and i: "i < SIZE_BUF"
  shows "\<exists>m' at'. (if array_of at i \<noteq> 0
      then bind_run (Some (coll_next_at m (array_of at i))) (\<lambda>nx. cleanup_cells_mem now (at_addr at) m nx)
      else Some (Inr m)) = Some (Inr m') \<and>
    owns m' (table_blocks at' + F) \<and> at_addr at' = at_addr at \<and> at_stale at' = at_stale at \<and> tails_ok at' \<and>
    outcomes m' = outcomes m \<and> cleanup_walk now i 0 (buffer_of at) = Inr (buffer_of at')"
proof (cases "at_buckets at i")
  case None
  then have "array_of at i = 0" using null by (simp add: array_of_def)
  moreover have "cleanup_walk now i 0 (buffer_of at) = Inr (buffer_of at)"
    using None cleanup_walk_bucket[OF ok, of now i] by (simp add: visited_bucket_def buffer_of_def)
  ultimately show ?thesis using o tails by (intro exI[of _ m] exI[of _ at]) simp
next
  case (Some b)
  have okb: "bucket_ok i (bucket_val b)" using ok Some by (auto simp: buckets_ok_def buffer_of_def)
  obtain nx where nx: "first_next (ab_cells b) (Some 0) = Some nx" by (cases "ab_cells b") simp_all
  have "coll_next_at m (ab_addr b) = Inr nx" "ab_addr b \<noteq> 0"
    using bucket_next_at[OF o i Some] okb nx
    by (simp_all add: bucket_ok_def bucket_val_def end_of_def pointer_set_def)
  moreover have "array_of at i = ab_addr b" using Some by (simp add: array_of_def)
  ultimately show ?thesis
    using cleanup_cells_run[OF o i Some okb _ nx tails, of "[]" now] by auto
qed

lemma visited_bucket_index:
  "cleanup_start_index (visited_bucket now i buf) = cleanup_start_index buf"
  by (simp add: visited_bucket_def split: option.splits)

lemma cleanup_pass_mem_run:
  assumes "owns m (table_blocks at + F)" and "buckets_ok (buffer_of at)" and "at_stale at = (\<lambda>_. 0)"
    and "tails_ok at"
  shows "\<exists>m' at'. cleanup_pass_mem now (at_addr at) k n m = Some (Inr m') \<and>
    owns m' (table_blocks at' + F) \<and> at_addr at' = at_addr at \<and> at_stale at' = at_stale at \<and> tails_ok at' \<and>
    outcomes m' = outcomes m \<and>
    cleanup_pass now (unat (at_index at)) k n (buffer_of at) = Inr (buffer_of at')"
  using assms
proof (induction n arbitrary: m at k)
  case 0
  then show ?case by (intro exI[of _ m] exI[of _ at]) simp
next
  case (Suc n)
  let ?i = "(unat (at_index at) + k) mod SIZE_BUF"
  have i: "?i < SIZE_BUF" by (rule mod_less_divisor) simp
  obtain m1 at1 where m1: "(if array_of at ?i \<noteq> 0
      then bind_run (Some (coll_next_at m (array_of at ?i))) (\<lambda>nx. cleanup_cells_mem now (at_addr at) m nx)
      else Some (Inr m)) = Some (Inr m1)" "owns m1 (table_blocks at1 + F)" "at_addr at1 = at_addr at"
    "at_stale at1 = at_stale at \<and> tails_ok at1" "outcomes m1 = outcomes m"
    "cleanup_walk now ?i 0 (buffer_of at) = Inr (buffer_of at1)"
    using cleanup_bucket_run[OF Suc.prems i] by blast
  have vis: "buffer_of at1 = visited_bucket now ?i (buffer_of at)"
    using m1(6) cleanup_walk_bucket[OF Suc.prems(2), of now ?i] by (simp only: sum.inject)
  have ok1: "buckets_ok (buffer_of at1)" unfolding vis by (rule visited_bucket_props(1)[OF Suc.prems(2)])
  have idx: "at_index at1 = at_index at"
    using arg_cong[OF vis, of cleanup_start_index] by (simp add: visited_bucket_index buffer_of_def)
  have null1: "at_stale at1 = (\<lambda>_. 0)" using m1(4) Suc.prems(3) by simp
  obtain m' at' where m': "cleanup_pass_mem now (at_addr at1) (Suc k) n m1 = Some (Inr m')"
    "owns m' (table_blocks at' + F)" "at_addr at' = at_addr at1" "at_stale at' = at_stale at1 \<and> tails_ok at'"
    "outcomes m' = outcomes m1"
    "cleanup_pass now (unat (at_index at1)) (Suc k) n (buffer_of at1) = Inr (buffer_of at')"
    using Suc.IH[OF m1(2) ok1 null1, of "Suc k"] m1(4) by blast
  have "cleanup_pass_mem now (at_addr at) k (Suc n) m = Some (Inr m')"
    using buffer_at_run[OF Suc.prems(1)] m1(1,3) m'(1)
    by (cases "array_of at ?i = 0") (simp_all add: buffer_fields_of_def Let_def)
  moreover have "cleanup_pass now (unat (at_index at)) k (Suc n) (buffer_of at) = Inr (buffer_of at')"
    using m1(6) m'(6) idx by simp
  ultimately show ?case using m' m1(3-5) by (intro exI[of _ m'] exI[of _ at']) simp
qed

text \<open>A clean-up pass on the blocks does what it does on the values and frees what it takes out.\<close>

lemma cleanup_seg_buff_mem_run:
  assumes o: "owns m (table_blocks at + F)" and ok: "buckets_ok (buffer_of at)"
    and null: "at_stale at = (\<lambda>_. 0)" and tails: "tails_ok at"
  shows "\<exists>m' at'. cleanup_seg_buff_mem now m (at_addr at) n = Some (Inr m') \<and>
    owns m' (table_blocks at' + F) \<and> at_addr at' = at_addr at \<and> at_stale at' = at_stale at \<and> tails_ok at' \<and>
    outcomes m' = outcomes m \<and> cleanup_seg_buff now (buffer_of at) n = Inr (buffer_of at')"
proof -
  obtain m1 at1 where m1: "cleanup_pass_mem now (at_addr at) 0 n m = Some (Inr m1)"
    "owns m1 (table_blocks at1 + F)" "at_addr at1 = at_addr at" "at_stale at1 = at_stale at \<and> tails_ok at1"
    "outcomes m1 = outcomes m" "cleanup_pass now (unat (at_index at)) 0 n (buffer_of at) = Inr (buffer_of at1)"
    using cleanup_pass_mem_run[OF o ok null tails] by blast
  let ?x = "of_nat ((unat (at_index at1) + CLEAN_UP_PASS_SIZE) mod SIZE_BUF) :: u8"
  let ?at = "at1\<lparr>at_cleanup := 0, at_index := ?x\<rparr>"
  have "buffer_fields_of ?at = (buffer_fields_of at1)\<lparr>bf_cleanup := 0, bf_cleanup_start_index := ?x\<rparr>"
    by (auto simp: buffer_fields_of_def array_of_def fun_eq_iff split: option.splits)
  moreover have "bf_cleanup_start_index (buffer_fields_of at1) = at_index at1"
    by (simp add: buffer_fields_of_def)
  ultimately have "cleanup_seg_buff_mem now m (at_addr at) n =
      Some (Inr (store m1 (at_addr at1) (Buffer (buffer_fields_of ?at))))"
    using buffer_at_run[OF m1(2)] m1(1,3) by (simp add: cleanup_seg_buff_mem_def)
  moreover have "cleanup_seg_buff now (buffer_of at) n = Inr (buffer_of ?at)"
    using m1(6) by (simp add: cleanup_seg_buff_def buffer_of_def)
  ultimately show ?thesis
    using buffer_store_run[OF m1(2), of ?at] m1(3-5)
    by (intro exI exI[of _ ?at]) (auto simp: tails_ok_def)
qed

text \<open>
  C14. A clean-up pass, on the blocks. On a well-formed table the pass that follows the pointers
  does what \<open>cleanup_seg_buff\<close> of \<open>Segbuf\<close> does on the values: it takes out the
  expired messages, frees their cells, payloads and options and nothing else, never reads a
  cell it has freed, and leaves exactly the blocks of the new table.
\<close>

theorem cleanup_memory:
  assumes "owns m (table_blocks at + F)" and "buckets_ok (buffer_of at)" and "at_stale at = (\<lambda>_. 0)" and "tails_ok at"
  shows "\<exists>m' at'. cleanup_seg_buff_mem now m (at_addr at) n = Some (Inr m') \<and>
    cleanup_seg_buff now (buffer_of at) n = Inr (buffer_of at') \<and> at_addr at' = at_addr at \<and> tails_ok at' \<and>
    owns m' (table_blocks at' + F)"
  using cleanup_seg_buff_mem_run[OF assms] by blast

text \<open>A table with one message, which expired.\<close>

definition old_message :: a_message where
  "old_message = \<lparr>am_addr = 4, am_fields = (new_msl 7 9)\<lparr>current_size := 1, total_payload_byte_size := 1,
       to_clean_up := 1, timestamp := 90\<rparr>,
     am_cells = [(5, 6, \<lparr>seqnum = 0, content = [104], content_size = 1\<rparr>)], am_options = Some (7, []), am_tail = 7\<rparr>"

definition old_bucket :: a_bucket where
  "old_bucket = \<lparr>ab_addr = 2, ab_cells = [(3, 7, 9, Some old_message)], ab_dangling = False\<rparr>"

definition old_table :: a_table where
  "old_table = with_bucket ((empty_table 1)\<lparr>at_count := 1\<rparr>) 14 old_bucket"

definition old_blocks :: "(addr \<times> block) list" where
  "old_blocks =
     [(1, Buffer (buffer_fields_of old_table)), (2, Coll_Head (Some 3)),
      (3, Coll_Cell \<lparr>cc_odid = 7, cc_mid = 9, cc_head = 4, cc_next = Some 0\<rparr>),
      (4, Msl_Head (head_fields old_message)),
      (5, Msl_Cell \<lparr>mc_seqnum = 0, mc_content = 6, mc_content_size = 1, mc_next = 0\<rparr>), (6, Raw [104]), (7, head_node 0)]"

lemma old_table_ok:
  "table_blocks old_table = mset old_blocks" "at_addr old_table = 1" "at_stale old_table = (\<lambda>_. 0)" "tails_ok old_table"
  "buckets_ok (buffer_of old_table)"
proof -
  have "message_blocks old_message = {#(4, Msl_Head (head_fields old_message)),
      (5, Msl_Cell \<lparr>mc_seqnum = 0, mc_content = 6, mc_content_size = 1, mc_next = 0\<rparr>), (6, Raw [104]), (7, head_node 0)#}"
    by (simp add: message_blocks_def am_option_blocks_def option_list_blocks_def old_message_def)
  moreover have "am_addr old_message = 4" by (simp add: old_message_def)
  ultimately have "bucket_blocks old_bucket = mset (tl old_blocks)"
    by (simp add: bucket_blocks_def old_bucket_def old_blocks_def end_of_def)
  moreover have "other_slots ((empty_table 1)\<lparr>at_count := 1\<rparr>) 14 = {#}"
    using slots_empty[of "(empty_table 1)\<lparr>at_count := 1\<rparr>"] by (simp add: empty_table_def)
  ultimately have "slots_blocks old_table = mset (tl old_blocks)"
    unfolding old_table_def using slots_with_bucket[of 14] by simp
  moreover have "at_addr old_table = 1" by (simp add: old_table_def empty_table_def)
  ultimately show "table_blocks old_table = mset old_blocks" by (simp add: table_blocks_def old_blocks_def)
  show "at_addr old_table = 1" "at_stale old_table = (\<lambda>_. 0)" by (simp_all add: old_table_def empty_table_def)
  show "tails_ok old_table"
    by (auto simp: old_table_def empty_table_def tails_ok_def bucket_tails_def old_bucket_def tail_ok_def old_message_def
        split: if_splits)
  have "unat (hashKey 7 9) = 14" by (simp add: hashKey_def)
  then have "bucket_ok 14 (bucket_val old_bucket)"
    by (simp add: bucket_ok_def bucket_val_def old_bucket_def cell_ok_def list_value_def old_message_def new_msl_def)
  then show "buckets_ok (buffer_of old_table)"
    unfolding old_table_def by (auto simp: buckets_ok_def buffer_of_def empty_table_def split: if_splits)
qed

theorem cleanup_memory_witness:
  "\<exists>m' at'. cleanup_seg_buff_mem 100 (memory_of old_blocks []) 1 500 = Some (Inr m') \<and>
    cleanup_seg_buff 100 (buffer_of old_table) 500 = Inr (buffer_of at') \<and> owns m' (table_blocks at')"
proof -
  have "owns (memory_of old_blocks []) (table_blocks old_table + {#})"
    using owns_memory_of[of old_blocks "[]"] by (simp add: old_table_ok(1)) (simp add: old_blocks_def)
  from cleanup_memory[OF this old_table_ok(5,3,4), of 100 500] show ?thesis
    by (auto simp: old_table_ok(2))
qed

end
