(* ===== verification/Queue.thy ===== *)
theory Queue
  imports Prelude
begin

text \<open>
  The bounded FIFO queue of \<^verbatim>\<open>src/unyte_udp_queue.c\<close>: a ring buffer of \<^verbatim>\<open>void *\<close> guarded by
  a mutex and two counting semaphores. The part of each operation between
  \<^verbatim>\<open>pthread_mutex_lock\<close> and \<^verbatim>\<open>pthread_mutex_unlock\<close> is a definition of its own
  (\<open>*_section\<close>), which tells which semaphore the operation posts afterwards; the operation
  itself is \<open>sem_wait\<close>, the section, \<open>sem_post\<close>. An operation that would wait on a semaphore
  whose value is 0 is \<open>None\<close>.

  Indices, sizes and semaphore values are natural numbers: the callers pass 32-bit sizes, and
  the indices stay below the size.
\<close>

section \<open>Data\<close>

text \<open>A slot of the ring: the contents \<^verbatim>\<open>malloc\<close> left there, or a pointer that was stored.\<close>

datatype 'a slot = Uninit | Stored "'a option"

record 'a unyte_udp_queue =
  q_head :: nat
  q_tail :: nat
  q_size :: nat
  q_empty :: nat
  q_full :: nat
  q_data :: "'a slot list"

datatype semaphore = Sem_Empty | Sem_Full

section \<open>Operations\<close>

definition unyte_udp_queue_init :: "nat \<Rightarrow> allocs \<Rightarrow> 'a unyte_udp_queue option \<times> allocs" where
  "unyte_udp_queue_init n as =
     (let (ok1, as1) = malloc as in
      if \<not> ok1 then (None, as1)
      else let (ok2, as2) = malloc as1 in
        if \<not> ok2 then (None, as2)
        else (Some \<lparr>q_head = 0, q_tail = 0, q_size = n, q_empty = n, q_full = 0,
                    q_data = replicate n Uninit\<rparr>, as2))"

definition sem_post :: "semaphore \<Rightarrow> 'a unyte_udp_queue \<Rightarrow> 'a unyte_udp_queue" where
  "sem_post s q = (case s of
     Sem_Empty \<Rightarrow> q\<lparr>q_empty := Suc (q_empty q)\<rparr>
   | Sem_Full \<Rightarrow> q\<lparr>q_full := Suc (q_full q)\<rparr>)"

definition sem_wait :: "semaphore \<Rightarrow> 'a unyte_udp_queue \<Rightarrow> 'a unyte_udp_queue option" where
  "sem_wait s q = (case s of
     Sem_Empty \<Rightarrow> (if q_empty q = 0 then None else Some (q\<lparr>q_empty := q_empty q - 1\<rparr>))
   | Sem_Full \<Rightarrow> (if q_full q = 0 then None else Some (q\<lparr>q_full := q_full q - 1\<rparr>)))"

text \<open>\<^verbatim>\<open>queue->data[i]\<close> as a value, and \<^verbatim>\<open>queue->data[i] = p\<close>.\<close>

definition slot_get :: "'a unyte_udp_queue \<Rightarrow> nat \<Rightarrow> fault + 'a option" where
  "slot_get q i =
     (if i < length (q_data q)
      then (case q_data q ! i of Uninit \<Rightarrow> Inl Uninit_Read | Stored p \<Rightarrow> Inr p)
      else Inl Out_Of_Bounds)"

definition slot_set :: "'a unyte_udp_queue \<Rightarrow> nat \<Rightarrow> 'a option \<Rightarrow> fault + 'a unyte_udp_queue" where
  "slot_set q i p =
     (if i < length (q_data q) then Inr (q\<lparr>q_data := (q_data q)[i := Stored p]\<rparr>)
      else Inl Out_Of_Bounds)"

text \<open>\<^verbatim>\<open>(i + 1) % queue->size\<close>.\<close>

definition next_index :: "'a unyte_udp_queue \<Rightarrow> nat \<Rightarrow> fault + nat" where
  "next_index q i = (if q_size q = 0 then Inl Div_By_Zero else Inr (Suc i mod q_size q))"

definition read_section ::
  "'a unyte_udp_queue \<Rightarrow> fault + ('a option \<times> semaphore \<times> 'a unyte_udp_queue)" where
  "read_section q =
     (if q_tail q = q_head q then Inr (None, Sem_Full, q)
      else
        bind_fault (slot_get q (q_tail q)) (\<lambda>handle.
        bind_fault (slot_set q (q_tail q) None) (\<lambda>q1.
        bind_fault (next_index q1 (q_tail q1)) (\<lambda>t.
        Inr (handle, Sem_Empty, q1\<lparr>q_tail := t\<rparr>)))))"

text \<open>The common tail of both writes: store at the head and advance it.\<close>

definition put_head :: "'a unyte_udp_queue \<Rightarrow> 'a option \<Rightarrow> fault + 'a unyte_udp_queue" where
  "put_head q handle =
     bind_fault (slot_set q (q_head q) handle) (\<lambda>q1.
     bind_fault (next_index q1 (q_head q1)) (\<lambda>h.
     Inr (q1\<lparr>q_head := h\<rparr>)))"

definition write_section ::
  "'a unyte_udp_queue \<Rightarrow> 'a option \<Rightarrow> fault + (int \<times> semaphore \<times> 'a unyte_udp_queue)" where
  "write_section q handle =
     bind_fault (next_index q (q_head q)) (\<lambda>h.
     if h = q_tail q then Inr (-1, Sem_Empty, q)
     else bind_fault (put_head q handle) (\<lambda>q1. Inr (0, Sem_Full, q1)))"

text \<open>
  The destructive write frees the oldest element when the ring is full. Freeing a slot that
  was never stored to is a bad free.
\<close>

definition destructive_section ::
  "'a unyte_udp_queue \<Rightarrow> 'a option \<Rightarrow> fault + (int \<times> semaphore \<times> 'a unyte_udp_queue)" where
  "destructive_section q handle =
     bind_fault (next_index q (q_head q)) (\<lambda>h.
     if h = q_tail q then
       (case slot_get q (q_tail q) of
          Inl Uninit_Read \<Rightarrow> Inl Bad_Free
        | Inl e \<Rightarrow> Inl e
        | Inr _ \<Rightarrow>
            bind_fault (put_head q handle) (\<lambda>q1.
            bind_fault (next_index q1 (q_tail q1)) (\<lambda>t.
            Inr (1, Sem_Empty, q1\<lparr>q_tail := t\<rparr>))))
     else bind_fault (put_head q handle) (\<lambda>q1. Inr (0, Sem_Full, q1)))"

definition unyte_udp_queue_read ::
  "'a unyte_udp_queue \<Rightarrow> (fault + ('a option \<times> 'a unyte_udp_queue)) option" where
  "unyte_udp_queue_read q = (case sem_wait Sem_Full q of
     None \<Rightarrow> None
   | Some q1 \<Rightarrow> Some (bind_fault (read_section q1) (\<lambda>(p, s, q2). Inr (p, sem_post s q2))))"

definition unyte_udp_queue_write ::
  "'a unyte_udp_queue \<Rightarrow> 'a option \<Rightarrow> (fault + (int \<times> 'a unyte_udp_queue)) option" where
  "unyte_udp_queue_write q handle = (case sem_wait Sem_Empty q of
     None \<Rightarrow> None
   | Some q1 \<Rightarrow> Some (bind_fault (write_section q1 handle) (\<lambda>(r, s, q2). Inr (r, sem_post s q2))))"

definition unyte_udp_queue_destructive_write ::
  "'a unyte_udp_queue \<Rightarrow> 'a option \<Rightarrow> (fault + (int \<times> 'a unyte_udp_queue)) option" where
  "unyte_udp_queue_destructive_write q handle = (case sem_wait Sem_Empty q of
     None \<Rightarrow> None
   | Some q1 \<Rightarrow>
       Some (bind_fault (destructive_section q1 handle) (\<lambda>(r, s, q2). Inr (r, sem_post s q2))))"

text \<open>Despite its name: 1 when the queue is not empty, 0 when it is.\<close>

definition is_udp_queue_empty :: "'a unyte_udp_queue \<Rightarrow> int" where
  "is_udp_queue_empty q = (if q_full q = 0 then 0 else 1)"

lemmas queue_op_defs =
  unyte_udp_queue_read_def unyte_udp_queue_write_def unyte_udp_queue_destructive_write_def
  read_section_def write_section_def destructive_section_def put_head_def
  sem_post_def sem_wait_def slot_get_def slot_set_def next_index_def

section \<open>The ring as a list\<close>

definition q_used :: "'a unyte_udp_queue \<Rightarrow> nat" where
  "q_used q = ring_used (q_size q) (q_head q) (q_tail q)"

fun slot_value :: "'a slot \<Rightarrow> 'a option" where
  "slot_value Uninit = None"
| "slot_value (Stored p) = p"

definition q_slot :: "'a unyte_udp_queue \<Rightarrow> nat \<Rightarrow> 'a slot" where
  "q_slot q i = q_data q ! ((q_tail q + i) mod q_size q)"

definition q_list :: "'a unyte_udp_queue \<Rightarrow> 'a option list" where
  "q_list q = map (\<lambda>i. slot_value (q_slot q i)) [0..<q_used q]"

text \<open>The part of the invariant that the mutex protects.\<close>

definition ring_ok :: "'a unyte_udp_queue \<Rightarrow> bool" where
  "ring_ok q \<longleftrightarrow>
     q_head q < q_size q \<and> q_tail q < q_size q \<and> length (q_data q) = q_size q \<and>
     (\<forall>i < q_used q. q_slot q i \<noteq> Uninit)"

text \<open>With no operation under way the semaphores count the used and the free slots.\<close>

definition queue_inv :: "'a unyte_udp_queue \<Rightarrow> bool" where
  "queue_inv q \<longleftrightarrow> ring_ok q \<and> q_full q = q_used q \<and> q_empty q = q_size q - q_used q"

text \<open>One slot always stays free.\<close>

definition q_capacity :: "'a unyte_udp_queue \<Rightarrow> nat" where
  "q_capacity q = q_size q - 1"

section \<open>Sections refine list operations\<close>

lemma length_q_list [simp]: "length (q_list q) = q_used q"
  by (simp add: q_list_def)

lemma q_list_nth: "i < q_used q \<Longrightarrow> q_list q ! i = slot_value (q_slot q i)"
  by (simp add: q_list_def)

lemma ring_ok_used_less: "ring_ok q \<Longrightarrow> q_used q < q_size q"
  by (simp add: ring_ok_def q_used_def ring_used_less)

lemma ring_ok_full_iff:
  "ring_ok q \<Longrightarrow> Suc (q_head q) mod q_size q = q_tail q \<longleftrightarrow> q_used q = q_capacity q"
  using ring_ok_used_less[of q]
  by (auto simp: ring_ok_def q_used_def q_capacity_def ring_full_iff)

lemma ring_ok_empty_iff: "ring_ok q \<Longrightarrow> q_tail q = q_head q \<longleftrightarrow> q_list q = []"
  using ring_used_0_iff[of "q_head q" "q_size q" "q_tail q"]
  by (simp add: ring_ok_def q_used_def q_list_def)

lemma Suc_tail_slot: "(Suc t mod n + i) mod n = (t + Suc i) mod (n::nat)"
  by (simp add: mod_add_left_eq)

text \<open>Storing at the head leaves every used slot as it is.\<close>

lemma head_slot_fresh:
  assumes "ring_ok q" "i < q_used q"
  shows "(q_tail q + i) mod q_size q \<noteq> q_head q"
proof
  assume "(q_tail q + i) mod q_size q = q_head q"
  also have "q_head q = (q_tail q + q_used q) mod q_size q"
    using assms(1) by (simp add: ring_ok_def q_used_def ring_head_slot)
  finally have "i = q_used q"
    using assms ring_ok_used_less[OF assms(1)]
    by (intro ring_slot_inj[of i "q_size q" "q_used q" "q_tail q"]) (auto simp: ring_ok_def)
  with assms(2) show False by simp
qed

lemma put_head_room:
  assumes ok: "ring_ok q" and room: "q_used q < q_capacity q"
  obtains q' where "put_head q p = Inr q'" "ring_ok q'" "q_list q' = q_list q @ [p]"
    "q_size q' = q_size q" "q_full q' = q_full q" "q_empty q' = q_empty q"
proof
  let ?n = "q_size q"
  let ?q = "q\<lparr>q_data := (q_data q)[q_head q := Stored p], q_head := Suc (q_head q) mod ?n\<rparr>"
  from ok have b: "q_head q < ?n" "q_tail q < ?n" "length (q_data q) = ?n"
    by (simp_all add: ring_ok_def)
  have used: "q_used ?q = Suc (q_used q)"
    using b room by (simp add: q_used_def q_capacity_def ring_used_Suc_head)
  have old: "q_slot ?q i = q_slot q i" if "i < q_used q" for i
    using head_slot_fresh[OF ok that] by (simp add: q_slot_def)
  have new: "q_slot ?q (q_used q) = Stored p"
    using b by (simp add: q_slot_def q_used_def ring_head_slot)
  show "put_head q p = Inr ?q"
    using b by (simp add: put_head_def slot_set_def next_index_def)
  show "ring_ok ?q"
    using ok b used old new unfolding ring_ok_def by (auto simp: less_Suc_eq)
  show "q_list ?q = q_list q @ [p]"
    using used old new by (simp add: q_list_def)
qed simp_all

lemma read_section_nonempty:
  assumes ok: "ring_ok q" and ne: "q_list q = p # ps"
  obtains q' where "read_section q = Inr (p, Sem_Empty, q')" "ring_ok q'" "q_list q' = ps"
    "q_size q' = q_size q" "q_full q' = q_full q" "q_empty q' = q_empty q"
proof
  let ?n = "q_size q"
  let ?q = "q\<lparr>q_data := (q_data q)[q_tail q := Stored None], q_tail := Suc (q_tail q) mod ?n\<rparr>"
  from ok have b: "q_head q < ?n" "q_tail q < ?n" "length (q_data q) = ?n"
    by (simp_all add: ring_ok_def)
  from ne have lu: "q_used q = Suc (length ps)"
    using length_q_list[of q] by simp
  have th: "q_tail q \<noteq> q_head q"
    using ring_ok_empty_iff[OF ok] ne by simp
  have used: "q_used ?q = length ps"
    using b th lu ring_used_Suc_tail[of "q_head q" ?n "q_tail q"] by (simp add: q_used_def)
  have shift: "q_slot ?q i = q_slot q (Suc i)" if "i < length ps" for i
  proof -
    have "(q_tail q + Suc i) mod ?n \<noteq> (q_tail q + 0) mod ?n"
      using ring_slot_inj[of "Suc i" ?n 0 "q_tail q"] b that lu ring_ok_used_less[OF ok] by auto
    then show ?thesis
      using b by (simp add: q_slot_def Suc_tail_slot del: add_Suc_right)
  qed
  have first: "q_data q ! q_tail q = Stored p"
  proof -
    have "q_slot q 0 \<noteq> Uninit" "slot_value (q_slot q 0) = p"
      using ok lu ne q_list_nth[of 0 q] by (auto simp: ring_ok_def)
    then show ?thesis
      using b by (cases "q_slot q 0") (auto simp: q_slot_def)
  qed
  show "read_section q = Inr (p, Sem_Empty, ?q)"
    using b th first by (simp add: read_section_def slot_get_def slot_set_def next_index_def)
  show "ring_ok ?q"
    using ok b used shift lu unfolding ring_ok_def by auto
  show "q_list ?q = ps"
  proof (rule nth_equalityI)
    fix i assume "i < length (q_list ?q)"
    then have i: "i < length ps" using used by simp
    then have "q_list ?q ! i = slot_value (q_slot q (Suc i))"
      using used shift by (simp add: q_list_nth)
    also have "\<dots> = q_list q ! Suc i" using i lu by (simp add: q_list_nth)
    also have "\<dots> = ps ! i" using ne by simp
    finally show "q_list ?q ! i = ps ! i" .
  qed (simp add: used)
qed simp_all

lemma destructive_section_full:
  assumes ok: "ring_ok q" and full: "q_used q = q_capacity q" and two: "2 \<le> q_size q"
  obtains q' where "destructive_section q p = Inr (1, Sem_Empty, q')" "ring_ok q'"
    "q_list q' = tl (q_list q) @ [p]"
    "q_size q' = q_size q" "q_full q' = q_full q" "q_empty q' = q_empty q"
proof
  let ?n = "q_size q"
  let ?q = "q\<lparr>q_data := (q_data q)[q_head q := Stored p], q_head := Suc (q_head q) mod ?n,
              q_tail := Suc (q_tail q) mod ?n\<rparr>"
  from ok have b: "q_head q < ?n" "q_tail q < ?n" "length (q_data q) = ?n"
    by (simp_all add: ring_ok_def)
  have ht: "Suc (q_head q) mod ?n = q_tail q"
    using ring_ok_full_iff[OF ok] full by simp
  have lu: "Suc (q_used q) = ?n" "0 < q_used q"
    using full two by (simp_all add: q_capacity_def)
  have used: "q_used ?q = q_used q"
    using b ht lu two by (auto simp: q_used_def ring_used_def Suc_mod_ring split: if_splits)
  have slot0: "q_slot q 0 \<noteq> Uninit"
    using ok lu by (simp add: ring_ok_def)
  have shift: "q_slot ?q i = q_slot q (Suc i)" if "Suc i < q_used q" for i
    using head_slot_fresh[OF ok that] by (simp add: q_slot_def Suc_tail_slot del: add_Suc_right)
  have new: "q_slot ?q (q_used q - 1) = Stored p"
  proof -
    have "(Suc (q_tail q) mod ?n + (q_used q - 1)) mod ?n = (q_tail q + Suc (q_used q - 1)) mod ?n"
      by (rule Suc_tail_slot)
    also have "\<dots> = q_head q"
      using b lu by (simp add: q_used_def ring_head_slot)
    finally show ?thesis using b by (simp add: q_slot_def)
  qed
  have slots: "q_slot ?q i = (if Suc i < q_used q then q_slot q (Suc i) else Stored p)"
    if "i < q_used q" for i
    using shift[of i] new that by (cases "Suc i < q_used q") (auto simp: not_less le_Suc_eq)
  have "slot_get q (q_tail q) \<noteq> Inl e" for e
    using slot0 b by (auto simp: slot_get_def q_slot_def split: slot.splits)
  then obtain x where "slot_get q (q_tail q) = Inr x" by (cases "slot_get q (q_tail q)") auto
  then show "destructive_section q p = Inr (1, Sem_Empty, ?q)"
    using b ht by (simp add: destructive_section_def put_head_def slot_set_def next_index_def)
  show "ring_ok ?q"
    using ok b used slots unfolding ring_ok_def by auto
  show "q_list ?q = tl (q_list q) @ [p]"
  proof (rule nth_equalityI)
    fix i assume "i < length (q_list ?q)"
    then have i: "i < q_used q" using used by simp
    then have "q_list ?q ! i = (if Suc i < q_used q then q_list q ! Suc i else p)"
      using used slots[OF i] by (simp add: q_list_nth)
    also have "\<dots> = (tl (q_list q) @ [p]) ! i"
      using i by (auto simp: nth_append nth_tl)
    finally show "q_list ?q ! i = (tl (q_list q) @ [p]) ! i" .
  qed (use used lu in simp)
qed simp_all

lemma write_section_room:
  assumes "ring_ok q" "q_used q < q_capacity q"
  shows "write_section q p = bind_fault (put_head q p) (\<lambda>q1. Inr (0, Sem_Full, q1))"
    and "destructive_section q p = bind_fault (put_head q p) (\<lambda>q1. Inr (0, Sem_Full, q1))"
  using assms ring_ok_full_iff[OF assms(1)]
  by (auto simp: write_section_def destructive_section_def next_index_def ring_ok_def)

lemma write_section_full:
  assumes "ring_ok q" "q_used q = q_capacity q"
  shows "write_section q p = Inr (-1, Sem_Empty, q)"
  using assms ring_ok_full_iff[OF assms(1)]
  by (auto simp: write_section_def next_index_def ring_ok_def)

section \<open>The abstract queue\<close>

text \<open>
  What the header promises: a list of at most \<open>cap\<close> elements. A write to a full queue drops
  the new element and returns -1; a destructive write drops the oldest element and returns 1.
\<close>

definition fifo_write :: "nat \<Rightarrow> 'e list \<Rightarrow> 'e \<Rightarrow> int \<times> 'e list" where
  "fifo_write cap xs x = (if length xs < cap then (0, xs @ [x]) else (-1, xs))"

definition fifo_destructive_write :: "nat \<Rightarrow> 'e list \<Rightarrow> 'e \<Rightarrow> int \<times> 'e list" where
  "fifo_destructive_write cap xs x =
     (if length xs < cap then (0, xs @ [x]) else (1, tl xs @ [x]))"

section \<open>Operations preserve the invariant and refine the abstract queue\<close>

lemma queue_inv_ring: "queue_inv q \<Longrightarrow> ring_ok q"
  by (simp add: queue_inv_def)

lemma ring_ok_sems [simp]:
  "ring_ok (q\<lparr>q_full := a\<rparr>) = ring_ok q" "ring_ok (q\<lparr>q_empty := a\<rparr>) = ring_ok q"
  "q_list (q\<lparr>q_full := a\<rparr>) = q_list q" "q_list (q\<lparr>q_empty := a\<rparr>) = q_list q"
  "q_used (q\<lparr>q_full := a\<rparr>) = q_used q" "q_used (q\<lparr>q_empty := a\<rparr>) = q_used q"
  "q_capacity (q\<lparr>q_full := a\<rparr>) = q_capacity q" "q_capacity (q\<lparr>q_empty := a\<rparr>) = q_capacity q"
  by (simp_all add: ring_ok_def q_list_def q_slot_def q_used_def q_capacity_def)

lemma q_used_of_list: "length (q_list q) = n \<Longrightarrow> q_used q = n"
  by simp

lemma queue_inv_init:
  assumes "0 < n"
  shows "\<exists>q. unyte_udp_queue_init n [] = (Some q, []) \<and> queue_inv q \<and> q_list q = [] \<and>
    q_size q = n"
  using assms
  by (simp add: unyte_udp_queue_init_def queue_inv_def ring_ok_def q_used_def ring_used_def
      q_list_def)

lemma write_ops_room:
  assumes inv: "queue_inv q" and room: "q_used q < q_capacity q"
  obtains q' where
    "unyte_udp_queue_write q p = Some (Inr (0, q'))"
    "unyte_udp_queue_destructive_write q p = Some (Inr (0, q'))"
    "queue_inv q'" "q_list q' = q_list q @ [p]" "q_size q' = q_size q"
proof -
  let ?q = "q\<lparr>q_empty := q_empty q - 1\<rparr>"
  have ok: "ring_ok ?q" and room': "q_used ?q < q_capacity ?q"
    using inv room by (simp_all add: queue_inv_ring)
  obtain q1 where q1: "put_head ?q p = Inr q1" "ring_ok q1" "q_list q1 = q_list ?q @ [p]"
      "q_size q1 = q_size ?q" "q_full q1 = q_full ?q" "q_empty q1 = q_empty ?q"
    using put_head_room[OF ok room'] by metis
  have u1: "q_used q1 = Suc (q_used q)"
    using q1(3) length_q_list[of q1] by simp
  have e: "q_empty q \<noteq> 0"
    using inv room by (simp add: queue_inv_def q_capacity_def)
  show thesis
  proof (rule that[of "sem_post Sem_Full q1"])
    show "unyte_udp_queue_write q p = Some (Inr (0, sem_post Sem_Full q1))"
      and "unyte_udp_queue_destructive_write q p = Some (Inr (0, sem_post Sem_Full q1))"
      using e write_section_room[OF ok room', of p] q1(1)
      by (simp_all add: unyte_udp_queue_write_def unyte_udp_queue_destructive_write_def
          sem_wait_def)
    show "queue_inv (sem_post Sem_Full q1)"
      using q1 u1 inv by (simp add: queue_inv_def sem_post_def)
  qed (use q1 in \<open>simp_all add: sem_post_def\<close>)
qed

lemma write_full:
  assumes inv: "queue_inv q" and full: "q_used q = q_capacity q"
  shows "unyte_udp_queue_write q p = Some (Inr (-1, q))"
proof -
  have "write_section (q\<lparr>q_empty := q_empty q - 1\<rparr>) p
      = Inr (-1, Sem_Empty, q\<lparr>q_empty := q_empty q - 1\<rparr>)"
    using inv full by (intro write_section_full) (simp_all add: queue_inv_ring)
  moreover have "q_empty q = 1"
    using inv full ring_ok_used_less[of q] by (simp add: queue_inv_def q_capacity_def)
  ultimately show ?thesis
    by (simp add: unyte_udp_queue_write_def sem_wait_def sem_post_def)
qed

lemma destructive_write_full:
  assumes inv: "queue_inv q" and full: "q_used q = q_capacity q" and two: "2 \<le> q_size q"
  obtains q' where "unyte_udp_queue_destructive_write q p = Some (Inr (1, q'))"
    "queue_inv q'" "q_list q' = tl (q_list q) @ [p]" "q_size q' = q_size q"
proof -
  let ?q = "q\<lparr>q_empty := q_empty q - 1\<rparr>"
  have ok: "ring_ok ?q" and full': "q_used ?q = q_capacity ?q" and two': "2 \<le> q_size ?q"
    using inv full two by (simp_all add: queue_inv_ring)
  obtain q1 where q1: "destructive_section ?q p = Inr (1, Sem_Empty, q1)" "ring_ok q1"
      "q_list q1 = tl (q_list ?q) @ [p]"
      "q_size q1 = q_size ?q" "q_full q1 = q_full ?q" "q_empty q1 = q_empty ?q"
    using destructive_section_full[OF ok full' two'] by metis
  have u1: "q_used q1 = q_used q"
    using q1(3) length_q_list[of q1] full two by (simp add: q_capacity_def)
  have e: "q_empty q = 1"
    using inv full ring_ok_used_less[of q] by (simp add: queue_inv_def q_capacity_def)
  show thesis
  proof (rule that[of "sem_post Sem_Empty q1"])
    show "unyte_udp_queue_destructive_write q p = Some (Inr (1, sem_post Sem_Empty q1))"
      using e q1(1) by (simp add: unyte_udp_queue_destructive_write_def sem_wait_def)
    show "queue_inv (sem_post Sem_Empty q1)"
      using q1 u1 inv e by (simp add: queue_inv_def sem_post_def)
  qed (use q1 in \<open>simp_all add: sem_post_def\<close>)
qed

lemma read_nonempty:
  assumes inv: "queue_inv q" and ne: "q_list q = p # ps"
  obtains q' where "unyte_udp_queue_read q = Some (Inr (p, q'))"
    "queue_inv q'" "q_list q' = ps" "q_size q' = q_size q"
proof -
  let ?q = "q\<lparr>q_full := q_full q - 1\<rparr>"
  have ok: "ring_ok ?q" and ne': "q_list ?q = p # ps"
    using inv ne by (simp_all add: queue_inv_ring)
  obtain q1 where q1: "read_section ?q = Inr (p, Sem_Empty, q1)" "ring_ok q1" "q_list q1 = ps"
      "q_size q1 = q_size ?q" "q_full q1 = q_full ?q" "q_empty q1 = q_empty ?q"
    using read_section_nonempty[OF ok ne'] by metis
  have u1: "Suc (q_used q1) = q_used q"
    using q1(3) ne length_q_list[of q1] length_q_list[of q] by simp
  show thesis
  proof (rule that[of "sem_post Sem_Empty q1"])
    show "unyte_udp_queue_read q = Some (Inr (p, sem_post Sem_Empty q1))"
      using inv u1 q1(1) by (simp add: unyte_udp_queue_read_def sem_wait_def queue_inv_def)
    show "queue_inv (sem_post Sem_Empty q1)"
      using q1 u1 inv ring_ok_used_less[of q] by (auto simp: queue_inv_def sem_post_def)
  qed (use q1 in \<open>simp_all add: sem_post_def\<close>)
qed

lemma read_empty: "queue_inv q \<Longrightarrow> q_list q = [] \<Longrightarrow> unyte_udp_queue_read q = None"
  by (simp add: unyte_udp_queue_read_def sem_wait_def queue_inv_def q_list_def)

section \<open>The interface the workers rely on\<close>

text \<open>
  The contract between the queue and the threads that use it. \<open>contents\<close> is the abstract
  list; \<open>enqueue\<close> and \<open>dequeue\<close> are the operations as the code returns them.
\<close>

locale fifo_queue =
  fixes invar :: "'q \<Rightarrow> bool"
    and contents :: "'q \<Rightarrow> 'e list"
    and capacity :: "'q \<Rightarrow> nat"
    and enqueue :: "'q \<Rightarrow> 'e \<Rightarrow> (fault + (int \<times> 'q)) option"
    and dequeue :: "'q \<Rightarrow> (fault + ('e \<times> 'q)) option"
    and nonempty :: "'q \<Rightarrow> int"
  assumes enqueue_law: "invar q \<Longrightarrow> \<exists>q'. enqueue q x =
        Some (Inr (fst (fifo_write (capacity q) (contents q) x), q')) \<and>
      invar q' \<and> contents q' = snd (fifo_write (capacity q) (contents q) x) \<and>
      capacity q' = capacity q"
    and dequeue_law: "invar q \<Longrightarrow> contents q = x # xs \<Longrightarrow>
      \<exists>q'. dequeue q = Some (Inr (x, q')) \<and> invar q' \<and> contents q' = xs \<and>
        capacity q' = capacity q"
    and dequeue_blocks: "invar q \<Longrightarrow> contents q = [] \<Longrightarrow> dequeue q = None"
    and nonempty_law: "invar q \<Longrightarrow> nonempty q = (if contents q = [] then 0 else 1)"

text \<open>Clients: offering a list of elements, and reading until the queue reports it is empty.\<close>

fun offer_all ::
  "('q \<Rightarrow> 'e \<Rightarrow> (fault + (int \<times> 'q)) option) \<Rightarrow> 'q \<Rightarrow> 'e list \<Rightarrow> (fault + (int list \<times> 'q)) option"
where
  "offer_all enq q [] = Some (Inr ([], q))"
| "offer_all enq q (x # xs) =
     (case enq q x of
        None \<Rightarrow> None
      | Some (Inl e) \<Rightarrow> Some (Inl e)
      | Some (Inr (r, q1)) \<Rightarrow>
          (case offer_all enq q1 xs of
             None \<Rightarrow> None
           | Some (Inl e) \<Rightarrow> Some (Inl e)
           | Some (Inr (rs, q2)) \<Rightarrow> Some (Inr (r # rs, q2))))"

text \<open>
  The drain loops of \<^verbatim>\<open>unyte_udp_free_collector\<close>: every element that is read is freed at once by
  \<open>fr\<close>; the result is the list of freed elements, in order.
\<close>

partial_function (option) drain ::
  "('q \<Rightarrow> int) \<Rightarrow> ('q \<Rightarrow> (fault + ('e \<times> 'q)) option) \<Rightarrow> ('e \<Rightarrow> fault + int) \<Rightarrow> 'e list \<Rightarrow> 'q \<Rightarrow>
    (fault + ('e list \<times> 'q)) option"
where
  "drain ne deq fr freed q =
     (if ne q \<noteq> 0 then
        Option.bind (deq q) (\<lambda>r. case r of
            Inl e \<Rightarrow> Some (Inl e)
          | Inr p \<Rightarrow>
              (case fr (fst p) of
                 Inl e \<Rightarrow> Some (Inl e)
               | Inr _ \<Rightarrow> drain ne deq fr (freed @ [fst p]) (snd p)))
      else Some (Inr (freed, q)))"

declare drain.simps [code]

context fifo_queue
begin

lemma offer_all_run:
  assumes "invar q"
  shows "\<exists>rs q'. offer_all enqueue q xs = Some (Inr (rs, q')) \<and> invar q' \<and>
    capacity q' = capacity q \<and>
    contents q' = contents q @ take (capacity q - length (contents q)) xs \<and>
    rs = replicate (min (length xs) (capacity q - length (contents q))) 0 @
         replicate (length xs - (capacity q - length (contents q))) (-1)"
  using assms
proof (induction xs arbitrary: q)
  case Nil
  then show ?case by simp
next
  case (Cons x xs)
  obtain q1 where q1: "enqueue q x = Some (Inr (fst (fifo_write (capacity q) (contents q) x), q1))"
    "invar q1" "contents q1 = snd (fifo_write (capacity q) (contents q) x)"
    "capacity q1 = capacity q"
    using enqueue_law[OF Cons.prems, of x] by blast
  obtain rs q2 where q2: "offer_all enqueue q1 xs = Some (Inr (rs, q2))" "invar q2"
    "capacity q2 = capacity q1"
    "contents q2 = contents q1 @ take (capacity q1 - length (contents q1)) xs"
    "rs = replicate (min (length xs) (capacity q1 - length (contents q1))) 0 @
          replicate (length xs - (capacity q1 - length (contents q1))) (-1)"
    using Cons.IH[OF q1(2)] by blast
  show ?case
  proof (cases "length (contents q) < capacity q")
    case True
    then obtain k where k: "capacity q - length (contents q) = Suc k"
      by (metis Suc_diff_Suc)
    then have "capacity q - Suc (length (contents q)) = k"
      "Suc (length xs + length (contents q)) - capacity q = length xs - k"
      by arith+
    with True k show ?thesis using q1 q2 by (simp add: fifo_write_def)
  next
    case False
    then show ?thesis using q1 q2 by (simp add: fifo_write_def)
  qed
qed

lemma drain_run:
  assumes "invar q" "\<forall>x\<in>set (contents q). \<exists>n. fr x = Inr n"
  shows "\<exists>q'. drain nonempty dequeue fr freed q = Some (Inr (freed @ contents q, q')) \<and>
    invar q' \<and> contents q' = [] \<and> capacity q' = capacity q"
  using assms
proof (induction "contents q" arbitrary: q freed)
  case Nil
  then show ?case by (simp add: drain.simps nonempty_law)
next
  case (Cons x xs)
  obtain q1 where q1: "dequeue q = Some (Inr (x, q1))" "invar q1" "contents q1 = xs"
    "capacity q1 = capacity q"
    using dequeue_law[OF Cons.prems(1), of x xs] Cons.hyps(2) by auto
  have "nonempty q \<noteq> 0"
    using nonempty_law[OF Cons.prems(1)] Cons.hyps(2) by (auto split: if_splits)
  moreover obtain n where "fr x = Inr n"
    using Cons.prems(2) Cons.hyps(2) by (metis list.set_intros(1))
  ultimately have "drain nonempty dequeue fr freed q = drain nonempty dequeue fr (freed @ [x]) q1"
    by (simp add: drain.simps[of _ _ _ _ q] q1)
  moreover have "\<forall>y\<in>set (contents q1). \<exists>n. fr y = Inr n"
    using Cons.prems(2) Cons.hyps(2) q1(3) by (metis list.set_intros(2))
  ultimately show ?case
    using Cons.hyps(1)[of q1 "freed @ [x]"] q1 Cons.hyps(2)[symmetric] by simp
qed

end

lemma used_le_capacity: "ring_ok q \<Longrightarrow> q_used q \<le> q_capacity q"
  using ring_ok_used_less[of q] by (simp add: q_capacity_def)

lemma queue_write_law:
  assumes "queue_inv q"
  shows "\<exists>q'. unyte_udp_queue_write q x =
      Some (Inr (fst (fifo_write (q_capacity q) (q_list q) x), q')) \<and>
    queue_inv q' \<and> q_list q' = snd (fifo_write (q_capacity q) (q_list q) x) \<and>
    q_capacity q' = q_capacity q"
proof (cases "q_used q < q_capacity q")
  case True
  obtain q' where "unyte_udp_queue_write q x = Some (Inr (0, q'))" "queue_inv q'"
    "q_list q' = q_list q @ [x]" "q_size q' = q_size q"
    by (rule write_ops_room[OF assms True, of x])
  with True show ?thesis by (simp add: fifo_write_def q_capacity_def)
next
  case False
  with assms have "q_used q = q_capacity q"
    using used_le_capacity[of q] by (simp add: queue_inv_ring)
  with assms show ?thesis by (simp add: write_full fifo_write_def)
qed

interpretation ring: fifo_queue queue_inv q_list q_capacity unyte_udp_queue_write
  unyte_udp_queue_read is_udp_queue_empty
proof
  fix q :: "'a unyte_udp_queue" and x xs
  assume inv: "queue_inv q"
  show "\<exists>q'. unyte_udp_queue_write q x =
      Some (Inr (fst (fifo_write (q_capacity q) (q_list q) x), q')) \<and>
    queue_inv q' \<and> q_list q' = snd (fifo_write (q_capacity q) (q_list q) x) \<and>
    q_capacity q' = q_capacity q"
    by (rule queue_write_law[OF inv])
  show "\<exists>q'. unyte_udp_queue_read q = Some (Inr (x, q')) \<and> queue_inv q' \<and>
      q_list q' = xs \<and> q_capacity q' = q_capacity q" if "q_list q = x # xs"
    by (rule read_nonempty[OF inv that]) (simp add: q_capacity_def)
  show "unyte_udp_queue_read q = None" if "q_list q = []"
    by (rule read_empty[OF inv that])
  show "is_udp_queue_empty q = (if q_list q = [] then 0 else 1)"
    using inv length_q_list[of q]
    by (auto simp: is_udp_queue_empty_def queue_inv_def simp del: length_q_list)
qed

lemma write_room_or_full:
  assumes "queue_inv q"
  shows "\<exists>q'. unyte_udp_queue_write q x =
      Some (Inr (if length (q_list q) < q_size q - 1 then 0 else -1, q')) \<and>
    queue_inv q' \<and> q_size q' = q_size q \<and>
    q_list q' = (if length (q_list q) < q_size q - 1 then q_list q @ [x] else q_list q)"
proof (cases "q_used q < q_capacity q")
  case True
  obtain q' where "unyte_udp_queue_write q x = Some (Inr (0, q'))" "queue_inv q'"
    "q_list q' = q_list q @ [x]" "q_size q' = q_size q"
    by (rule write_ops_room[OF assms True, of x])
  with True show ?thesis by (simp add: q_capacity_def)
next
  case False
  with assms have "q_used q = q_capacity q"
    using used_le_capacity[of q] by (simp add: queue_inv_ring)
  with assms show ?thesis by (simp add: write_full q_capacity_def)
qed

lemma destructive_room_or_full:
  assumes "queue_inv q" and "2 \<le> q_size q"
  shows "\<exists>q'. unyte_udp_queue_destructive_write q x =
      Some (Inr (if length (q_list q) < q_size q - 1 then 0 else 1, q')) \<and>
    queue_inv q' \<and> q_size q' = q_size q \<and>
    q_list q' = (if length (q_list q) < q_size q - 1 then q_list q else tl (q_list q)) @ [x]"
proof (cases "q_used q < q_capacity q")
  case True
  obtain q' where "unyte_udp_queue_destructive_write q x = Some (Inr (0, q'))" "queue_inv q'"
    "q_list q' = q_list q @ [x]" "q_size q' = q_size q"
    by (rule write_ops_room[OF assms(1) True, of x])
  with True show ?thesis by (simp add: q_capacity_def)
next
  case False
  with assms have "q_used q = q_capacity q"
    using used_le_capacity[of q] by (simp add: queue_inv_ring)
  then obtain q' where "unyte_udp_queue_destructive_write q x = Some (Inr (1, q'))"
    "queue_inv q'" "q_list q' = tl (q_list q) @ [x]" "q_size q' = q_size q"
    by (rule destructive_write_full[OF assms(1) _ assms(2)])
  with False show ?thesis by (simp add: q_capacity_def)
qed

section \<open>Properties\<close>

text \<open>
  C15. A write to a queue at rest never blocks and never faults: it appends the handle and
  returns 0 while the queue holds fewer than \<open>size - 1\<close> elements, and otherwise returns -1
  and leaves the queue as it is. The invariant is kept.
\<close>

theorem queue_write_refines:
  assumes "queue_inv q"
  shows "\<exists>q'. unyte_udp_queue_write q x =
      Some (Inr (if length (q_list q) < q_size q - 1 then 0 else -1, q')) \<and>
    queue_inv q' \<and> q_size q' = q_size q \<and>
    q_list q' = (if length (q_list q) < q_size q - 1 then q_list q @ [x] else q_list q)"
  using assms by (rule write_room_or_full)

theorem queue_write_refines_witness:
  "\<exists>q'. unyte_udp_queue_write
      (\<lparr>q_head = 1, q_tail = 0, q_size = 2, q_empty = 1, q_full = 1,
        q_data = [Stored (Some 7), Uninit]\<rparr> :: nat unyte_udp_queue) (Some 8) = Some (Inr (-1, q')) \<and>
    queue_inv q' \<and> q_list q' = [Some 7]"
proof -
  let ?q = "\<lparr>q_head = 1, q_tail = 0, q_size = 2, q_empty = 1, q_full = 1,
    q_data = [Stored (Some 7), Uninit]\<rparr> :: nat unyte_udp_queue"
  have "queue_inv ?q" and l: "q_list ?q = [Some 7]"
    by (simp_all add: queue_inv_def ring_ok_def q_used_def ring_used_def q_slot_def q_list_def)
  from queue_write_refines[OF this(1), of "Some 8", unfolded l] show ?thesis
    by auto
qed

text \<open>
  C16. A read of a queue at rest returns the oldest handle and removes it; on an empty queue it
  waits on the semaphore. In particular the branch that returns \<^verbatim>\<open>NULL\<close> for an empty ring is
  never taken.
\<close>

theorem queue_read_refines:
  assumes "queue_inv q"
  shows "case q_list q of
      [] \<Rightarrow> unyte_udp_queue_read q = None
    | p # ps \<Rightarrow> \<exists>q'. unyte_udp_queue_read q = Some (Inr (p, q')) \<and> queue_inv q' \<and>
        q_list q' = ps \<and> q_size q' = q_size q"
proof (cases "q_list q")
  case Nil
  then show ?thesis using read_empty[OF assms] by simp
next
  case (Cons p ps)
  obtain q' where "unyte_udp_queue_read q = Some (Inr (p, q'))" "queue_inv q'" "q_list q' = ps"
    "q_size q' = q_size q"
    by (rule read_nonempty[OF assms Cons])
  with Cons show ?thesis by simp
qed

theorem queue_read_refines_witness:
  "\<exists>q'. unyte_udp_queue_read
      (\<lparr>q_head = 0, q_tail = 2, q_size = 3, q_empty = 2, q_full = 1,
        q_data = [Uninit, Uninit, Stored (Some 5)]\<rparr> :: nat unyte_udp_queue)
      = Some (Inr (Some 5, q')) \<and> q_list q' = []"
proof -
  let ?q = "\<lparr>q_head = 0, q_tail = 2, q_size = 3, q_empty = 2, q_full = 1,
    q_data = [Uninit, Uninit, Stored (Some 5)]\<rparr> :: nat unyte_udp_queue"
  have "queue_inv ?q" and l: "q_list ?q = [Some 5]"
    by (simp_all add: queue_inv_def ring_ok_def q_used_def ring_used_def q_slot_def q_list_def
        less_Suc_eq)
  from queue_read_refines[OF this(1), unfolded l] show ?thesis
    by auto
qed

text \<open>
  C17. A destructive write to a queue of at least two slots always stores the new handle. On a
  full queue it drops exactly the oldest handle and returns 1.
\<close>

theorem queue_destructive_write_refines:
  assumes "queue_inv q" and "2 \<le> q_size q"
  shows "\<exists>q'. unyte_udp_queue_destructive_write q x =
      Some (Inr (if length (q_list q) < q_size q - 1 then 0 else 1, q')) \<and>
    queue_inv q' \<and> q_size q' = q_size q \<and>
    q_list q' = (if length (q_list q) < q_size q - 1 then q_list q else tl (q_list q)) @ [x]"
  using assms by (rule destructive_room_or_full)

theorem queue_destructive_write_refines_witness:
  "\<exists>q'. unyte_udp_queue_destructive_write
      (\<lparr>q_head = 1, q_tail = 0, q_size = 2, q_empty = 1, q_full = 1,
        q_data = [Stored (Some 7), Uninit]\<rparr> :: nat unyte_udp_queue) (Some 8) = Some (Inr (1, q')) \<and>
    queue_inv q' \<and> q_list q' = [Some 8]"
proof -
  let ?q = "\<lparr>q_head = 1, q_tail = 0, q_size = 2, q_empty = 1, q_full = 1,
    q_data = [Stored (Some 7), Uninit]\<rparr> :: nat unyte_udp_queue"
  have inv: "queue_inv ?q" and l: "q_list ?q = [Some 7]" and two: "2 \<le> q_size ?q"
    by (simp_all add: queue_inv_def ring_ok_def q_used_def ring_used_def q_slot_def q_list_def)
  from queue_destructive_write_refines[OF inv two, of "Some 8", unfolded l] show ?thesis
    by auto
qed

end
