(* ===== verification/Monitoring.thy ===== *)
theory Monitoring
  imports Queue
begin

text \<open>
  The per-thread traffic counters and the monitoring thread of \<^verbatim>\<open>src/monitoring_worker.c\<close>.

  A hash table of ten chains maps an observation domain to its counters; each chain starts with
  a header element, which is left out. The array \<^verbatim>\<open>active_odids\<close> indexes the domains in the
  table: it is the list of its allocated entries, \<open>None\<close> where nothing was written yet, of which
  the first \<^verbatim>\<open>active_odids_length\<close> are in use. Its sizes are natural numbers. A function that
  returns a pointer to a counter returns its value, and \<open>store_counter\<close> writes through that
  pointer. The thread identifier of a fresh table is a placeholder until
  the thread sets it. The accesses of several threads to one table, which the code does not synchronise, are
  taken one after the other.
\<close>

section \<open>Data\<close>

abbreviation ODID_COUNTERS :: nat where "ODID_COUNTERS \<equiv> 10"
abbreviation ACTIVE_ODIDS :: nat where "ACTIVE_ODIDS \<equiv> 500"
abbreviation ODID_TIME_TO_LIVE :: int where "ODID_TIME_TO_LIVE \<equiv> 4"

datatype thread_type = PARSER_WORKER | LISTENER_WORKER

record active_odid =
  ao_odid :: u32
  ao_active :: int

record odid_counter =
  oc_odid :: u32
  segments_received :: u32
  segments_dropped :: u32
  segments_reordered :: u32
  last_message_id :: u32

record seg_counters =
  thread_id :: nat
  odid_counters :: "nat \<Rightarrow> odid_counter list"
  sc_type :: "thread_type option"
  active_odids :: "active_odid option list"
  active_odids_length :: nat
  active_odids_max_length :: nat

record sum_counter =
  sum_thread_id :: nat
  sum_odid :: u32
  sum_last_message_id :: u32
  sum_received :: u32
  sum_dropped :: u32
  sum_reordered :: u32
  sum_type :: "thread_type option"

section \<open>Operations\<close>

definition hash_key :: "u32 \<Rightarrow> u32" where
  "hash_key odid = odid mod of_nat ODID_COUNTERS"

definition new_odid_counter :: "u32 \<Rightarrow> odid_counter" where
  "new_odid_counter odid = \<lparr>oc_odid = odid, segments_received = 0, segments_dropped = 0,
     segments_reordered = 0, last_message_id = 0\<rparr>"

definition reinit_odid_counters :: "odid_counter \<Rightarrow> odid_counter" where
  "reinit_odid_counters c =
     c\<lparr>last_message_id := 0, segments_received := 0, segments_dropped := 0, segments_reordered := 0\<rparr>"

definition init_active_odid_index :: "seg_counters \<Rightarrow> allocs \<Rightarrow> int \<times> seg_counters \<times> allocs" where
  "init_active_odid_index c as =
     (let (ok, as1) = malloc as in
      if \<not> ok then (-1, c, as1)
      else (0, c\<lparr>active_odids := replicate ACTIVE_ODIDS None, active_odids_length := 0,
                  active_odids_max_length := ACTIVE_ODIDS\<rparr>, as1))"

definition resize_active_odid_index :: "seg_counters \<Rightarrow> allocs \<Rightarrow> int \<times> seg_counters \<times> allocs" where
  "resize_active_odid_index c as =
     (let (ok, as1) = malloc as in
      if \<not> ok then (-1, c, as1)
      else
        (0, c\<lparr>active_odids := active_odids c @ replicate ACTIVE_ODIDS None,
              active_odids_max_length := active_odids_max_length c + ACTIVE_ODIDS\<rparr>, as1))"

text \<open>The counters of one thread as \<^verbatim>\<open>malloc\<close> and the inner loop of the initialisation leave them.\<close>

definition fresh_counters :: seg_counters where
  "fresh_counters = \<lparr>thread_id = 0, odid_counters = (\<lambda>_. []), sc_type = None, active_odids = [],
     active_odids_length = 0, active_odids_max_length = 0\<rparr>"

fun init_counters :: "nat \<Rightarrow> allocs \<Rightarrow> seg_counters list option \<times> allocs" where
  "init_counters 0 as = (Some [], as)"
| "init_counters (Suc n) as =
     (let (ok, as1) = malloc as in
      if \<not> ok then (None, as1)
      else
        (let (r, c, as2) = init_active_odid_index fresh_counters as1 in
         if r < 0 then (None, as2)
         else (let (cs, as3) = init_counters n as2 in (map_option (Cons c) cs, as3))))"

definition unyte_udp_init_counters :: "nat \<Rightarrow> allocs \<Rightarrow> seg_counters list option \<times> allocs" where
  "unyte_udp_init_counters nb_threads as =
     (let (ok, as1) = malloc as in
      if \<not> ok then (None, as1) else init_counters nb_threads as1)"

definition bucket_of :: "seg_counters \<Rightarrow> u32 \<Rightarrow> odid_counter list" where
  "bucket_of c odid = odid_counters c (unat (hash_key odid))"

definition set_counters :: "u32 \<Rightarrow> odid_counter list \<Rightarrow> seg_counters \<Rightarrow> seg_counters" where
  "set_counters odid cs c = c\<lparr>odid_counters := (odid_counters c)(unat (hash_key odid) := cs)\<rparr>"

text \<open>The walk along the chain to the first counter of the domain.\<close>

fun find_counter :: "u32 \<Rightarrow> odid_counter list \<Rightarrow> odid_counter option" where
  "find_counter odid [] = None"
| "find_counter odid (c # cs) = (if oc_odid c = odid then Some c else find_counter odid cs)"

fun replace_counter :: "odid_counter \<Rightarrow> odid_counter list \<Rightarrow> odid_counter list" where
  "replace_counter new [] = []"
| "replace_counter new (c # cs) =
     (if oc_odid c = oc_odid new then new # cs else c # replace_counter new cs)"

definition store_counter :: "odid_counter \<Rightarrow> seg_counters \<Rightarrow> seg_counters" where
  "store_counter new c =
     set_counters (oc_odid new) (replace_counter new (bucket_of c (oc_odid new))) c"

definition write_active :: "seg_counters \<Rightarrow> nat \<Rightarrow> active_odid \<Rightarrow> fault + seg_counters" where
  "write_active c i a =
     (if i < length (active_odids c) then Inr (c\<lparr>active_odids := (active_odids c)[i := Some a]\<rparr>)
      else Inl Out_Of_Bounds)"

definition read_active :: "seg_counters \<Rightarrow> nat \<Rightarrow> fault + active_odid" where
  "read_active c i =
     (if i < length (active_odids c)
      then (case active_odids c ! i of None \<Rightarrow> Inl Uninit_Read | Some a \<Rightarrow> Inr a)
      else Inl Out_Of_Bounds)"

text \<open>When the resizing fails the code goes on and uses the next entry all the same.\<close>

definition get_odid_counter ::
  "seg_counters \<Rightarrow> u32 \<Rightarrow> allocs \<Rightarrow> fault + (odid_counter option \<times> seg_counters \<times> allocs)" where
  "get_odid_counter c odid as =
     (case find_counter odid (bucket_of c odid) of
        Some x \<Rightarrow> Inr (Some x, c, as)
      | None \<Rightarrow>
          (let (ok, as1) = malloc as in
           if \<not> ok then Inr (None, c, as1)
           else
             (let c1 = set_counters odid (bucket_of c odid @ [new_odid_counter odid]) c;
                  (c2, as2) =
                    (if active_odids_length c1 + 1 \<ge> active_odids_max_length c1
                     then snd (resize_active_odid_index c1 as1) else (c1, as1)) in
              bind_fault (write_active c2 (active_odids_length c2) \<lparr>ao_odid = odid, ao_active = 0\<rparr>)
                (\<lambda>c3. Inr (Some (new_odid_counter odid),
                  c3\<lparr>active_odids_length := active_odids_length c3 + 1\<rparr>, as2)))))"

text \<open>
  Removing from the chain: after an element has been unlinked the walk goes on from the one that
  took its place, without looking at it.
\<close>

fun unlink_counter :: "u32 \<Rightarrow> odid_counter list \<Rightarrow> odid_counter list" where
  "unlink_counter odid [] = []"
| "unlink_counter odid (c # cs) =
     (if oc_odid c = odid then (case cs of [] \<Rightarrow> [] | d # ds \<Rightarrow> d # unlink_counter odid ds)
      else c # unlink_counter odid cs)"

text \<open>The inner loop: every later entry is copied over entry \<open>i\<close>, so the last one stays.\<close>

fun move_entries :: "nat \<Rightarrow> nat \<Rightarrow> nat \<Rightarrow> seg_counters \<Rightarrow> fault + seg_counters" where
  "move_entries i p 0 c = Inr c"
| "move_entries i p (Suc n) c =
     bind_fault (read_active c p) (\<lambda>a.
     bind_fault (write_active c i a) (move_entries i (Suc p) n))"

fun remove_active :: "u32 \<Rightarrow> nat \<Rightarrow> nat \<Rightarrow> seg_counters \<Rightarrow> fault + seg_counters" where
  "remove_active odid i 0 c = Inr c"
| "remove_active odid i (Suc n) c =
     bind_fault (read_active c i) (\<lambda>a.
     if ao_odid a = odid then
       bind_fault (move_entries i (Suc i) n c) (\<lambda>c1.
       Inr (c1\<lparr>active_odids_length := active_odids_length c1 - 1\<rparr>))
     else remove_active odid (Suc i) n c)"

definition remove_odid_counter :: "seg_counters \<Rightarrow> u32 \<Rightarrow> fault + seg_counters" where
  "remove_odid_counter c odid =
     (let c1 = set_counters odid (unlink_counter odid (bucket_of c odid)) c in
      remove_active odid 0 (active_odids_length c1) c1)"

definition unyte_udp_update_dropped_segment ::
  "seg_counters \<Rightarrow> u32 \<Rightarrow> u32 \<Rightarrow> allocs \<Rightarrow> fault + (seg_counters \<times> allocs)" where
  "unyte_udp_update_dropped_segment c last_odid last_mid as =
     bind_fault (get_odid_counter c last_odid as) (\<lambda>(x, c1, as1).
     case x of
       None \<Rightarrow> Inr (c1, as1)
     | Some x \<Rightarrow>
         Inr (store_counter (x\<lparr>segments_dropped := segments_dropped x + 1,
                               last_message_id := last_mid\<rparr>) c1, as1))"

definition unyte_udp_update_received_segment ::
  "seg_counters \<Rightarrow> u32 \<Rightarrow> u32 \<Rightarrow> allocs \<Rightarrow> fault + (seg_counters \<times> allocs)" where
  "unyte_udp_update_received_segment c last_odid last_mid as =
     bind_fault (get_odid_counter c last_odid as) (\<lambda>(x, c1, as1).
     case x of
       None \<Rightarrow> Inr (c1, as1)
     | Some x \<Rightarrow>
         (let x1 = x\<lparr>segments_received := segments_received x + 1\<rparr>;
              x2 = (if last_mid < last_message_id x1
                    then x1\<lparr>segments_reordered := segments_reordered x1 + 1\<rparr>
                    else x1\<lparr>last_message_id := last_mid\<rparr>) in
          Inr (store_counter x2 c1, as1)))"

definition odid_counter_has_values :: "odid_counter option \<Rightarrow> bool" where
  "odid_counter_has_values x =
     (case x of
        None \<Rightarrow> False
      | Some c \<Rightarrow> \<not> (last_message_id c = 0 \<and> segments_received c = 0 \<and>
          segments_dropped c = 0 \<and> segments_reordered c = 0))"

definition get_summary ::
  "odid_counter option \<Rightarrow> nat \<Rightarrow> thread_type option \<Rightarrow> allocs \<Rightarrow> sum_counter option \<times> allocs" where
  "get_summary x th_id type as =
     (case x of
        None \<Rightarrow> (None, as)
      | Some c \<Rightarrow>
          (let (ok, as1) = malloc as in
           if \<not> ok then (None, as1)
           else
             (Some \<lparr>sum_thread_id = th_id, sum_odid = oc_odid c,
                    sum_last_message_id = last_message_id c, sum_received = segments_received c,
                    sum_dropped = segments_dropped c, sum_reordered = segments_reordered c,
                    sum_type = type\<rparr>, as1)))"

section \<open>The monitoring pass\<close>

type_synonym monitor_state = "seg_counters \<times> sum_counter unyte_udp_queue \<times> allocs"

text \<open>
  Send a summary of the counter and reset it. A summary that could not be allocated is not
  sent and the counter is kept.
\<close>

definition send_summary ::
  "odid_counter option \<Rightarrow> seg_counters \<Rightarrow> sum_counter unyte_udp_queue \<Rightarrow> allocs \<Rightarrow>
    (fault + monitor_state) option" where
  "send_summary x c q as =
     (let (s, as1) = get_summary x (thread_id c) (sc_type c) as in
      case (s, x) of
        (Some _, Some y) \<Rightarrow>
          bind_run (unyte_udp_queue_destructive_write q s) (\<lambda>(_, q1).
          Some (Inr (store_counter (reinit_odid_counters y) c, q1, as1)))
      | _ \<Rightarrow> Some (Inr (c, q, as1)))"

definition set_active :: "seg_counters \<Rightarrow> nat \<Rightarrow> (int \<Rightarrow> int) \<Rightarrow> fault + seg_counters" where
  "set_active c y f =
     bind_fault (read_active c y) (\<lambda>a. write_active c y (a\<lparr>ao_active := f (ao_active a)\<rparr>))"

definition monitor_odid :: "nat \<Rightarrow> monitor_state \<Rightarrow> (fault + monitor_state) option" where
  "monitor_odid y st =
     (case st of (c, q, as) \<Rightarrow>
      bind_run (Some (read_active c y)) (\<lambda>a.
      bind_run (Some (get_odid_counter c (ao_odid a) as)) (\<lambda>(x, c1, as1).
      if odid_counter_has_values x then
        bind_run (send_summary x c1 q as1) (\<lambda>(c2, q1, as2).
        bind_run (Some (set_active c2 y (\<lambda>_. 0))) (\<lambda>c3. Some (Inr (c3, q1, as2))))
      else
        bind_run (Some (read_active c1 y)) (\<lambda>a1.
        if ao_active a1 = ODID_TIME_TO_LIVE then
          bind_run (Some (remove_odid_counter c1 (ao_odid a1))) (\<lambda>c2. Some (Inr (c2, q, as1)))
        else
          bind_run (send_summary x c1 q as1) (\<lambda>(c2, q1, as2).
          bind_run (Some (set_active c2 y (\<lambda>n. n + 1))) (\<lambda>c3. Some (Inr (c3, q1, as2))))))))"

text \<open>The loop over the entries of one table; the number of entries is read once, before it.\<close>

fun monitor_odids :: "nat \<Rightarrow> nat \<Rightarrow> monitor_state \<Rightarrow> (fault + monitor_state) option" where
  "monitor_odids y 0 st = Some (Inr st)"
| "monitor_odids y (Suc n) st = bind_run (monitor_odid y st) (monitor_odids (Suc y) n)"

definition monitor_counters :: "monitor_state \<Rightarrow> (fault + monitor_state) option" where
  "monitor_counters st = monitor_odids 0 (active_odids_length (fst st)) st"

text \<open>One round of the thread: the tables of all threads, one after the other.\<close>

fun monitoring_round ::
  "seg_counters list \<Rightarrow> sum_counter unyte_udp_queue \<Rightarrow> allocs \<Rightarrow>
    (fault + (seg_counters list \<times> sum_counter unyte_udp_queue \<times> allocs)) option"
where
  "monitoring_round [] q as = Some (Inr ([], q, as))"
| "monitoring_round (c # cs) q as =
     bind_run (monitor_counters (c, q, as)) (\<lambda>(c1, q1, as1).
     bind_run (monitoring_round cs q1 as1) (\<lambda>(cs1, q2, as2). Some (Inr (c1 # cs1, q2, as2))))"

section \<open>The tables as maps\<close>

definition counter_of :: "seg_counters \<Rightarrow> u32 \<Rightarrow> odid_counter option" where
  "counter_of c odid = find_counter odid (bucket_of c odid)"

definition active_list :: "seg_counters \<Rightarrow> u32 list" where
  "active_list c = map (\<lambda>a. case a of None \<Rightarrow> 0 | Some e \<Rightarrow> ao_odid e)
     (take (active_odids_length c) (active_odids c))"

text \<open>
  The index array has room, its used entries are written and name each domain of the table
  once; each chain holds domains of its hash, once each.
\<close>

definition chains_ok :: "seg_counters \<Rightarrow> bool" where
  "chains_ok c \<longleftrightarrow> (\<forall>h. distinct (map oc_odid (odid_counters c h)) \<and>
     list_all (\<lambda>x. unat (hash_key (oc_odid x)) = h) (odid_counters c h))"

definition index_ok :: "seg_counters \<Rightarrow> bool" where
  "index_ok c \<longleftrightarrow> length (active_odids c) = active_odids_max_length c \<and>
     active_odids_length c < active_odids_max_length c \<and>
     list_all (\<lambda>a. a \<noteq> None) (take (active_odids_length c) (active_odids c))"

definition counters_ok :: "seg_counters \<Rightarrow> bool" where
  "counters_ok c \<longleftrightarrow> chains_ok c \<and> index_ok c \<and> distinct (active_list c) \<and>
     (\<forall>odid. odid \<in> set (active_list c) \<longleftrightarrow> counter_of c odid \<noteq> None)"

lemma find_counter_iff: "find_counter odid cs = None \<longleftrightarrow> odid \<notin> oc_odid ` set cs"
  by (induction cs) auto

lemma find_counter_odid: "find_counter odid cs = Some x \<Longrightarrow> oc_odid x = odid"
  by (induction cs) (auto split: if_splits)

lemma find_counter_append:
  "find_counter odid (xs @ ys) =
    (case find_counter odid xs of None \<Rightarrow> find_counter odid ys | Some x \<Rightarrow> Some x)"
  by (induction xs) auto

lemma find_replace:
  "find_counter odid (replace_counter new cs) =
    (if odid = oc_odid new \<and> find_counter odid cs \<noteq> None then Some new else find_counter odid cs)"
  by (induction cs) auto

lemma map_replace [simp]: "map oc_odid (replace_counter new cs) = map oc_odid cs"
  by (induction cs) auto

lemma unlink_distinct:
  "distinct (map oc_odid cs) \<Longrightarrow> unlink_counter odid cs = filter (\<lambda>x. oc_odid x \<noteq> odid) cs"
proof (induction odid cs rule: unlink_counter.induct)
  case (2 odid c cs)
  show ?case
  proof (cases "oc_odid c = odid")
    case True
    have none: "unlink_counter odid ds = ds" if "\<forall>x\<in>set ds. oc_odid x \<noteq> odid" for ds
      using that by (induction ds) auto
    have "\<forall>x\<in>set cs. oc_odid x \<noteq> odid" using 2(3) True by (auto simp: image_iff)
    then have "filter (\<lambda>x. oc_odid x \<noteq> odid) cs = cs" "unlink_counter odid (c # cs) = cs"
      using True none by (auto simp: filter_id_conv split: list.splits)
    then show ?thesis using True by simp
  next
    case False
    then show ?thesis using 2 by simp
  qed
qed simp

lemma find_filter:
  "find_counter odid (filter (\<lambda>x. oc_odid x \<noteq> d) cs) = (if odid = d then None else find_counter odid cs)"
  by (induction cs) auto

lemma bucket_set:
  "bucket_of (set_counters d cs c) odid = (if hash_key odid = hash_key d then cs else bucket_of c odid)"
  by (simp add: bucket_of_def set_counters_def word_unat_eq_iff)

lemma bucket_cong: "hash_key a = hash_key b \<Longrightarrow> bucket_of c a = bucket_of c b"
  by (simp add: bucket_of_def)

lemma set_counters_simps [simp]:
  "active_odids (set_counters d cs c) = active_odids c"
  "active_odids_length (set_counters d cs c) = active_odids_length c"
  "active_odids_max_length (set_counters d cs c) = active_odids_max_length c"
  "active_list (set_counters d cs c) = active_list c" "index_ok (set_counters d cs c) = index_ok c"
  "thread_id (set_counters d cs c) = thread_id c" "sc_type (set_counters d cs c) = sc_type c"
  by (simp_all add: set_counters_def active_list_def index_ok_def)

lemma chains_ok_set:
  assumes "chains_ok c" "distinct (map oc_odid cs)"
    and "list_all (\<lambda>x. unat (hash_key (oc_odid x)) = unat (hash_key d)) cs"
  shows "chains_ok (set_counters d cs c)"
  using assms by (simp add: chains_ok_def set_counters_def)

lemma chain_props:
  assumes "chains_ok c"
  shows "distinct (map oc_odid (bucket_of c d))"
    "list_all (\<lambda>x. unat (hash_key (oc_odid x)) = unat (hash_key d)) (bucket_of c d)"
  using assms by (simp_all add: chains_ok_def bucket_of_def)

lemma counter_of_store:
  "counter_of (store_counter x c) odid =
    (if odid = oc_odid x \<and> counter_of c odid \<noteq> None then Some x else counter_of c odid)"
proof (cases "hash_key odid = hash_key (oc_odid x)")
  case True
  then show ?thesis
    using bucket_cong[OF True, of c] by (auto simp: counter_of_def store_counter_def bucket_set find_replace)
next
  case False
  then show ?thesis by (auto simp: counter_of_def store_counter_def bucket_set)
qed

lemma store_counter_ok:
  assumes "counters_ok c"
  shows "counters_ok (store_counter x c)"
proof -
  have "list_all (\<lambda>y. unat (hash_key (oc_odid y)) = unat (hash_key d)) (replace_counter x cs)"
    if "list_all (\<lambda>y. unat (hash_key (oc_odid y)) = unat (hash_key d)) cs" for d cs
    using that by (induction cs) auto
  then have "chains_ok (store_counter x c)"
    using assms unfolding store_counter_def counters_ok_def
    by (intro chains_ok_set) (simp_all add: chain_props)
  moreover have "active_list (store_counter x c) = active_list c" "index_ok (store_counter x c) = index_ok c"
    by (simp_all add: store_counter_def)
  ultimately show ?thesis using assms by (auto simp: counters_ok_def counter_of_store)
qed

section \<open>Finding or making a counter\<close>

lemma get_odid_counter_known:
  "counter_of c odid = Some x \<Longrightarrow> get_odid_counter c odid as = Inr (Some x, c, as)"
  by (simp add: get_odid_counter_def counter_of_def)

lemma get_odid_counter_new:
  assumes ok: "counters_ok c" and none: "counter_of c odid = None"
  shows "\<exists>c'. get_odid_counter c odid [] = Inr (Some (new_odid_counter odid), c', []) \<and> counters_ok c' \<and>
    active_list c' = active_list c @ [odid] \<and> thread_id c' = thread_id c \<and> sc_type c' = sc_type c \<and>
    (\<forall>d. counter_of c' d = (if d = odid then Some (new_odid_counter odid) else counter_of c d)) \<and>
    length (active_odids c) \<le> length (active_odids c') \<and>
    (\<forall>k<length (active_odids c). active_odids c' ! k =
      (if k = active_odids_length c then Some \<lparr>ao_odid = odid, ao_active = 0\<rparr> else active_odids c ! k))"
proof -
  let ?c1 = "set_counters odid (bucket_of c odid @ [new_odid_counter odid]) c"
  let ?c2 = "if active_odids_length c + 1 \<ge> active_odids_max_length c
    then ?c1\<lparr>active_odids := active_odids c @ replicate ACTIVE_ODIDS None,
      active_odids_max_length := active_odids_max_length c + ACTIVE_ODIDS\<rparr> else ?c1"
  let ?e = "\<lparr>ao_odid = odid, ao_active = 0\<rparr>"
  let ?c4 = "?c2\<lparr>active_odids := (active_odids ?c2)[active_odids_length c := Some ?e],
    active_odids_length := active_odids_length c + 1\<rparr>"
  have idx: "index_ok c" using ok by (simp add: counters_ok_def)
  then have len: "length (active_odids c) = active_odids_max_length c"
    "active_odids_length c < length (active_odids c)" "active_odids_length c < length (active_odids ?c2)"
    by (auto simp: index_ok_def)
  have run: "get_odid_counter c odid [] = Inr (Some (new_odid_counter odid), ?c4, [])"
    using none len
    by (simp add: get_odid_counter_def counter_of_def[symmetric] resize_active_odid_index_def write_active_def)
  have arr: "take (Suc (active_odids_length c)) (active_odids ?c4) =
      take (active_odids_length c) (active_odids c) @ [Some ?e]"
    using len by (auto simp: take_Suc_conv_app_nth)
  have act: "active_list ?c4 = active_list c @ [odid]"
    unfolding active_list_def using arr by simp
  have chn: "odid_counters ?c4 = odid_counters ?c1" by simp
  have cnt: "counter_of ?c4 d = (if d = odid then Some (new_odid_counter odid) else counter_of c d)" for d
  proof -
    have "bucket_of ?c4 d = bucket_of ?c1 d" by (simp add: bucket_of_def)
    then have "counter_of ?c4 d = counter_of ?c1 d" by (simp add: counter_of_def)
    also have "\<dots> = (if d = odid then Some (new_odid_counter odid) else counter_of c d)"
    proof (cases "hash_key d = hash_key odid")
      case True
      then show ?thesis
        using none bucket_cong[OF True, of c]
        by (auto simp: counter_of_def bucket_set find_counter_append new_odid_counter_def
            split: option.splits)
    next
      case False
      then show ?thesis by (auto simp: counter_of_def bucket_set)
    qed
    finally show ?thesis .
  qed
  have "chains_ok ?c1"
    using ok none
    by (intro chains_ok_set)
      (auto simp: counters_ok_def chain_props counter_of_def find_counter_iff new_odid_counter_def)
  then have "chains_ok ?c4" unfolding chains_ok_def chn .
  moreover have "index_ok ?c4"
    using idx len arr by (auto simp: index_ok_def)
  moreover have "distinct (active_list ?c4)"
    using ok none unfolding act by (simp add: counters_ok_def)
  ultimately have "counters_ok ?c4"
    using ok none cnt act by (auto simp: counters_ok_def)
  moreover have "\<forall>k<length (active_odids c). active_odids ?c4 ! k =
      (if k = active_odids_length c then Some ?e else active_odids c ! k)"
    using len by (auto simp: nth_append nth_list_update)
  moreover have "length (active_odids c) \<le> length (active_odids ?c4)" by simp
  ultimately show ?thesis using run act cnt by (intro exI[of _ ?c4]) simp
qed

lemma get_odid_counter_total:
  assumes "counters_ok c"
  obtains x c' where "get_odid_counter c odid [] = Inr (Some x, c', [])" "counters_ok c'"
    "x = (case counter_of c odid of None \<Rightarrow> new_odid_counter odid | Some y \<Rightarrow> y)" "oc_odid x = odid"
    "\<And>d. counter_of c' d = (if d = odid then Some x else counter_of c d)"
proof (cases "counter_of c odid")
  case None
  then show thesis using that get_odid_counter_new[OF assms None] by (auto simp: new_odid_counter_def)
next
  case (Some y)
  then have "oc_odid y = odid" by (simp add: counter_of_def find_counter_odid)
  then show thesis using that get_odid_counter_known[OF Some] Some assms by auto
qed

section \<open>Counting\<close>

definition count_received :: "u32 \<Rightarrow> odid_counter \<Rightarrow> odid_counter" where
  "count_received mid x =
     x\<lparr>segments_received := segments_received x + 1,
       segments_reordered := segments_reordered x + (if mid < last_message_id x then 1 else 0),
       last_message_id := max (last_message_id x) mid\<rparr>"

definition known_counter :: "odid_counter option \<Rightarrow> u32 \<Rightarrow> odid_counter" where
  "known_counter x odid = (case x of None \<Rightarrow> new_odid_counter odid | Some y \<Rightarrow> y)"

lemma update_counts:
  assumes "counters_ok c"
  shows "(\<exists>c'. unyte_udp_update_received_segment c odid mid [] = Inr (c', []) \<and> counters_ok c' \<and>
      counter_of c' odid = Some (count_received mid (known_counter (counter_of c odid) odid)) \<and>
      (\<forall>d. d \<noteq> odid \<longrightarrow> counter_of c' d = counter_of c d)) \<and>
    (\<exists>c'. unyte_udp_update_dropped_segment c odid mid [] = Inr (c', []) \<and> counters_ok c' \<and>
      counter_of c' odid = Some ((known_counter (counter_of c odid) odid)
        \<lparr>segments_dropped := segments_dropped (known_counter (counter_of c odid) odid) + 1,
         last_message_id := mid\<rparr>) \<and>
      (\<forall>d. d \<noteq> odid \<longrightarrow> counter_of c' d = counter_of c d))"
proof -
  obtain x c' where g: "get_odid_counter c odid [] = Inr (Some x, c', [])" "counters_ok c'"
    "x = (case counter_of c odid of None \<Rightarrow> new_odid_counter odid | Some y \<Rightarrow> y)" "oc_odid x = odid"
    "\<And>d. counter_of c' d = (if d = odid then Some x else counter_of c d)"
    using get_odid_counter_total[OF assms] by metis
  have x: "known_counter (counter_of c odid) odid = x" using g(3) by (simp add: known_counter_def)
  let ?r = "count_received mid x"
  have "unyte_udp_update_received_segment c odid mid [] = Inr (store_counter ?r c', [])"
    using g(1) by (auto simp: unyte_udp_update_received_segment_def count_received_def max_def
        Let_def not_less order.strict_implies_order)
  moreover have "oc_odid ?r = odid" using g(4) by (simp add: count_received_def)
  ultimately have rec: "\<exists>c'. unyte_udp_update_received_segment c odid mid [] = Inr (c', []) \<and> counters_ok c' \<and>
      counter_of c' odid = Some ?r \<and> (\<forall>d. d \<noteq> odid \<longrightarrow> counter_of c' d = counter_of c d)"
    using g(2,5) by (auto simp: store_counter_ok counter_of_store)
  let ?d = "x\<lparr>segments_dropped := segments_dropped x + 1, last_message_id := mid\<rparr>"
  have "unyte_udp_update_dropped_segment c odid mid [] = Inr (store_counter ?d c', [])"
    using g(1) by (simp add: unyte_udp_update_dropped_segment_def)
  then have "\<exists>c'. unyte_udp_update_dropped_segment c odid mid [] = Inr (c', []) \<and> counters_ok c' \<and>
      counter_of c' odid = Some ?d \<and> (\<forall>d. d \<noteq> odid \<longrightarrow> counter_of c' d = counter_of c d)"
    using g(2,4,5) by (auto simp: store_counter_ok counter_of_store)
  with rec show ?thesis unfolding x by blast
qed

text \<open>
  C27. Counting a segment updates exactly the counter of its observation domain, which is made
  when there is none: a received segment adds one to the received segments, and to the
  reordered ones when its message number is below the highest seen so far; a dropped one adds one to
  the dropped segments and sets the message number. With no failed allocation nothing faults, however
  many domains there are, and the index array stays exact.
\<close>

theorem update_counts_one_domain:
  assumes "counters_ok c"
  shows "(\<exists>c'. unyte_udp_update_received_segment c odid mid [] = Inr (c', []) \<and> counters_ok c' \<and>
      counter_of c' odid = Some (count_received mid (known_counter (counter_of c odid) odid)) \<and>
      (\<forall>d. d \<noteq> odid \<longrightarrow> counter_of c' d = counter_of c d)) \<and>
    (\<exists>c'. unyte_udp_update_dropped_segment c odid mid [] = Inr (c', []) \<and> counters_ok c' \<and>
      counter_of c' odid = Some ((known_counter (counter_of c odid) odid)
        \<lparr>segments_dropped := segments_dropped (known_counter (counter_of c odid) odid) + 1,
         last_message_id := mid\<rparr>) \<and>
      (\<forall>d. d \<noteq> odid \<longrightarrow> counter_of c' d = counter_of c d))"
  using assms by (rule update_counts)

section \<open>Removing a domain\<close>

lemma move_entries_last:
  assumes "i < p" "p + n \<le> length (active_odids c)"
    and "\<forall>k<n. active_odids c ! (p + k) \<noteq> None"
  shows "move_entries i p n c = Inr (if n = 0 then c
    else c\<lparr>active_odids := (active_odids c)[i := active_odids c ! (p + n - 1)]\<rparr>)"
  using assms
proof (induction n arbitrary: p c)
  case 0
  then show ?case by simp
next
  case (Suc n)
  obtain a where a: "active_odids c ! p = Some a" using Suc.prems(3) by force
  let ?c = "c\<lparr>active_odids := (active_odids c)[i := Some a]\<rparr>"
  have step: "move_entries i p (Suc n) c = move_entries i (Suc p) n ?c"
    using Suc.prems a by (simp add: read_active_def write_active_def)
  have nth: "active_odids ?c ! q = active_odids c ! q" if "i < q" for q
    using that by simp
  have "move_entries i (Suc p) n ?c = Inr (if n = 0 then ?c
      else ?c\<lparr>active_odids := (active_odids ?c)[i := active_odids ?c ! (Suc p + n - 1)]\<rparr>)"
    using Suc.prems by (intro Suc.IH) (auto simp: nth dest: spec[of _ "Suc _"])
  then show ?case using step a Suc.prems(1) by auto
qed

definition swap_remove :: "nat \<Rightarrow> 'a list \<Rightarrow> 'a list" where
  "swap_remove j xs = take (length xs - 1) (xs[j := xs ! (length xs - 1)])"

lemma swap_remove_last: "swap_remove (length us) (us @ [x]) = us"
  by (simp add: swap_remove_def)

lemma swap_remove_middle: "swap_remove (length us) (us @ x # ws @ [l]) = us @ l # ws"
proof -
  have "(us @ x # ws @ [l]) ! (length (us @ x # ws @ [l]) - 1) = l"
    by (metis last_conv_nth append_is_Nil_conv last_append last_ConsR last_snoc list.distinct(1) not_Cons_self2)
  then show ?thesis by (simp add: swap_remove_def)
qed

lemma swap_remove_props:
  assumes "distinct xs" "j < length xs"
  shows "distinct (swap_remove j xs)" "set (swap_remove j xs) = set xs - {xs ! j}"
proof -
  obtain us vs where xs: "xs = us @ xs ! j # vs" "j = length us"
    using assms(2) id_take_nth_drop[of j xs] by (metis length_take min.absorb2 order_less_imp_le)
  have "distinct (swap_remove j xs) \<and> set (swap_remove j xs) = set xs - {xs ! j}"
  proof (cases vs rule: rev_cases)
    case Nil
    with xs have e: "xs = us @ [xs ! j]" by simp
    have "swap_remove j xs = us" using swap_remove_last[of us "xs ! j"] e xs(2) by simp
    moreover have "distinct (us @ [xs ! j])" "set xs = set (us @ [xs ! j])" using assms(1) e by simp_all
    ultimately show ?thesis by auto
  next
    case (snoc ws l)
    with xs have e: "xs = us @ xs ! j # ws @ [l]" by simp
    have "swap_remove j xs = us @ l # ws" using swap_remove_middle[of us "xs ! j" ws l] e xs(2) by simp
    moreover have "distinct (us @ xs ! j # ws @ [l])" "set xs = set (us @ xs ! j # ws @ [l])"
      using assms(1) e by simp_all
    ultimately show ?thesis by auto
  qed
  then show "distinct (swap_remove j xs)" "set (swap_remove j xs) = set xs - {xs ! j}" by simp_all
qed

text \<open>Entry \<open>j\<close> is the first one of the domain.\<close>

lemma remove_active_at:
  assumes "i \<le> j" "j < i + n" "i + n \<le> length (active_odids c)"
    and "\<forall>k<i + n. active_odids c ! k \<noteq> None"
    and "ao_odid (the (active_odids c ! j)) = odid"
    and "\<forall>k. i \<le> k \<longrightarrow> k < j \<longrightarrow> ao_odid (the (active_odids c ! k)) \<noteq> odid"
  shows "remove_active odid i n c = Inr (c\<lparr>active_odids := (active_odids c)[j := active_odids c ! (i + n - 1)],
    active_odids_length := active_odids_length c - 1\<rparr>)"
  using assms
proof (induction n arbitrary: i)
  case 0
  then show ?case by simp
next
  case (Suc n)
  obtain a where a: "active_odids c ! i = Some a" using Suc.prems(4) by force
  have rd: "read_active c i = Inr a" using a Suc.prems(3) by (simp add: read_active_def)
  show ?case
  proof (cases "i = j")
    case True
    have "move_entries i (Suc i) n c = Inr (if n = 0 then c
        else c\<lparr>active_odids := (active_odids c)[i := active_odids c ! (Suc i + n - 1)]\<rparr>)"
      using Suc.prems(3,4) by (intro move_entries_last) auto
    moreover have "c\<lparr>active_odids := (active_odids c)[i := Some a], active_odids_length := m\<rparr> =
        c\<lparr>active_odids_length := m\<rparr>" for m
    proof -
      have "(active_odids c)[i := Some a] = active_odids c" by (metis a list_update_id)
      then show ?thesis by (cases c) simp
    qed
    ultimately show ?thesis using rd a Suc.prems(5) True by (cases "n = 0") simp_all
  next
    case False
    then have "ao_odid a \<noteq> odid" using Suc.prems(1,6) a by (metis le_neq_implies_less option.sel order_refl)
    moreover have "remove_active odid (Suc i) n c =
        Inr (c\<lparr>active_odids := (active_odids c)[j := active_odids c ! (Suc i + n - 1)],
          active_odids_length := active_odids_length c - 1\<rparr>)"
      using Suc.prems False by (intro Suc.IH) auto
    ultimately show ?thesis using rd by simp
  qed
qed

lemma active_list_nth:
  assumes "index_ok c" "k < active_odids_length c"
  shows "active_odids c ! k \<noteq> None \<and> active_list c ! k = ao_odid (the (active_odids c ! k))"
proof -
  have "active_odids c ! k \<noteq> None" "k < length (active_odids c)"
    using assms by (simp_all add: index_ok_def list_all_length)
  then show ?thesis using assms(2) by (auto simp: active_list_def)
qed

lemma length_active_list: "index_ok c \<Longrightarrow> length (active_list c) = active_odids_length c"
  by (simp add: index_ok_def active_list_def)

lemma remove_odid_counter_run:
  assumes "counters_ok c" and "counter_of c odid \<noteq> None"
  shows "\<exists>c'. remove_odid_counter c odid = Inr c' \<and> counters_ok c' \<and>
    active_odids_length c' + 1 = active_odids_length c \<and>
    (\<forall>d. counter_of c' d = (if d = odid then None else counter_of c d)) \<and>
    length (active_odids c') = length (active_odids c) \<and>
    (\<forall>k<length (active_odids c). active_odids c ! k \<noteq> None \<longrightarrow> active_odids c' ! k \<noteq> None)"
proof -
  let ?n = "active_odids_length c" and ?a = "active_odids c"
  have ok: "chains_ok c" "index_ok c" "distinct (active_list c)"
    "\<And>d. d \<in> set (active_list c) \<longleftrightarrow> counter_of c d \<noteq> None"
    using assms(1) by (simp_all add: counters_ok_def)
  note len = length_active_list[OF ok(2)]
  obtain j where j: "j < ?n" "active_list c ! j = odid"
    using assms(2) ok(4)[of odid] len by (auto simp: in_set_conv_nth)
  let ?c1 = "set_counters odid (unlink_counter odid (bucket_of c odid)) c"
  let ?c2 = "?c1\<lparr>active_odids := ?a[j := ?a ! (?n - 1)], active_odids_length := ?n - 1\<rparr>"
  have "remove_active odid 0 ?n ?c1 = Inr (?c1\<lparr>active_odids := (active_odids ?c1)[j := active_odids ?c1 ! (0 + ?n - 1)],
      active_odids_length := active_odids_length ?c1 - 1\<rparr>)"
  proof (rule remove_active_at)
    show "\<forall>k. 0 \<le> k \<longrightarrow> k < j \<longrightarrow> ao_odid (the (active_odids ?c1 ! k)) \<noteq> odid"
      using j ok(2,3) len active_list_nth[OF ok(2)]
      by (metis nth_eq_iff_index_eq order.strict_trans order_less_irrefl set_counters_simps(1))
  qed (use j ok(2) active_list_nth[OF ok(2)] in \<open>auto simp: index_ok_def\<close>)
  then have run: "remove_odid_counter c odid = Inr ?c2" by (simp add: remove_odid_counter_def)
  have act: "active_list ?c2 = swap_remove j (active_list c)"
  proof -
    have "?n - 1 < length ?a" "min (length ?a) ?n = ?n" using ok(2) by (auto simp: index_ok_def)
    then show ?thesis
      unfolding active_list_def swap_remove_def
      using j(1) by (simp add: take_map[symmetric] take_update_swap map_update min_def)
  qed
  have cnt: "counter_of ?c2 d = (if d = odid then None else counter_of c d)" for d
  proof (cases "hash_key d = hash_key odid")
    case True
    then show ?thesis
      using bucket_cong[OF True, of c] unlink_distinct[OF chain_props(1)[OF ok(1)]]
      by (simp add: counter_of_def bucket_of_def set_counters_def find_filter)
  next
    case False
    then have "bucket_of ?c2 d = bucket_of c d" "d \<noteq> odid"
      by (auto simp: bucket_of_def set_counters_def dest: word_unat_eq_iff[THEN iffD2])
    then show ?thesis by (simp add: counter_of_def)
  qed
  have "chains_ok ?c1"
    using chain_props[OF ok(1), of odid] ok(1)
    by (intro chains_ok_set) (auto simp: unlink_distinct distinct_map_filter list_all_iff)
  then have "chains_ok ?c2" by (simp add: chains_ok_def)
  moreover have "index_ok ?c2"
    using ok(2) j(1) active_list_nth[OF ok(2)]
    by (auto simp: index_ok_def list_all_length nth_list_update)
  ultimately have "counters_ok ?c2"
    using swap_remove_props[OF ok(3), of j] len j ok(4) cnt act by (auto simp: counters_ok_def)
  moreover have "?a ! (?n - 1) \<noteq> None" using active_list_nth[OF ok(2), of "?n - 1"] j(1) by simp
  then have "active_odids ?c2 ! k \<noteq> None" if "k < length ?a" "?a ! k \<noteq> None" for k
    using that by (cases "k = j") simp_all
  ultimately show ?thesis using run cnt j(1) by (intro exI[of _ ?c2]) simp
qed

text \<open>
  C28. Removing an observation domain drops its counter and its entry of the index array, and
  nothing else: the last entry takes the place of the removed one. Nothing faults and the index
  array stays exact.
\<close>

theorem remove_odid_counter_exact:
  assumes "counters_ok c" and "counter_of c odid \<noteq> None"
  shows "\<exists>c'. remove_odid_counter c odid = Inr c' \<and> counters_ok c' \<and>
    active_odids_length c' + 1 = active_odids_length c \<and>
    (\<forall>d. counter_of c' d = (if d = odid then None else counter_of c d))"
  using remove_odid_counter_run[OF assms] by blast

section \<open>A monitoring pass\<close>

definition summary_of :: "seg_counters \<Rightarrow> odid_counter \<Rightarrow> sum_counter" where
  "summary_of c x = \<lparr>sum_thread_id = thread_id c, sum_odid = oc_odid x,
     sum_last_message_id = last_message_id x, sum_received = segments_received x,
     sum_dropped = segments_dropped x, sum_reordered = segments_reordered x, sum_type = sc_type c\<rparr>"

definition reported :: "seg_counters \<Rightarrow> u32 \<Rightarrow> sum_counter option" where
  "reported c odid = map_option (summary_of c) (counter_of c odid)"

text \<open>Entry \<open>y\<close> is not about to be given up.\<close>

definition lively :: "seg_counters \<Rightarrow> nat \<Rightarrow> bool" where
  "lively c y \<longleftrightarrow> odid_counter_has_values (counter_of c (active_list c ! y)) \<or>
     ao_active (the (active_odids c ! y)) \<noteq> ODID_TIME_TO_LIVE"

lemma store_counter_fields [simp]:
  "active_odids (store_counter x c) = active_odids c"
  "active_odids_length (store_counter x c) = active_odids_length c"
  "active_list (store_counter x c) = active_list c"
  "thread_id (store_counter x c) = thread_id c" "sc_type (store_counter x c) = sc_type c"
  by (simp_all add: store_counter_def)

lemma set_active_entry:
  assumes "counters_ok c" "y < length (active_odids c)" "active_odids c ! y \<noteq> None"
  shows "\<exists>c'. set_active c y f = Inr c' \<and> counters_ok c' \<and> active_list c' = active_list c \<and>
    active_odids_length c' = active_odids_length c \<and> counter_of c' = counter_of c \<and>
    thread_id c' = thread_id c \<and> sc_type c' = sc_type c \<and>
    (\<forall>k. k \<noteq> y \<longrightarrow> active_odids c' ! k = active_odids c ! k) \<and>
    length (active_odids c') = length (active_odids c) \<and> active_odids c' ! y \<noteq> None"
proof -
  have idx: "index_ok c" using assms(1) by (simp add: counters_ok_def)
  obtain a where a: "active_odids c ! y = Some a" "y < length (active_odids c)"
    using assms(2,3) by blast
  let ?e = "a\<lparr>ao_active := f (ao_active a)\<rparr>"
  let ?c = "c\<lparr>active_odids := (active_odids c)[y := Some ?e]\<rparr>"
  have run: "set_active c y f = Inr ?c"
    using a by (simp add: set_active_def read_active_def write_active_def)
  have cnt: "counter_of ?c = counter_of c" by (intro ext) (simp add: counter_of_def bucket_of_def)
  have act: "active_list ?c = active_list c"
  proof (rule nth_equalityI)
    show "length (active_list ?c) = length (active_list c)" by (simp add: active_list_def)
    fix k assume "k < length (active_list ?c)"
    then show "active_list ?c ! k = active_list c ! k"
      using a by (cases "k = y") (simp_all add: active_list_def)
  qed
  have "index_ok ?c"
    using idx a(2) by (auto simp: index_ok_def list_all_length nth_list_update)
  then have "counters_ok ?c"
    using assms(1) act cnt by (simp add: counters_ok_def chains_ok_def)
  with run act cnt a(2) show ?thesis by auto
qed

lemma send_summary_room:
  assumes "queue_inv q" "q_used q < q_capacity q" "x = Some y"
  shows "\<exists>q'. send_summary x c q [] = Some (Inr (store_counter (reinit_odid_counters y) c, q', [])) \<and>
    queue_inv q' \<and> q_size q' = q_size q \<and> q_list q' = q_list q @ [Some (summary_of c y)]"
proof -
  obtain q' where "unyte_udp_queue_destructive_write q (Some (summary_of c y)) = Some (Inr (0, q'))"
    "queue_inv q'" "q_list q' = q_list q @ [Some (summary_of c y)]" "q_size q' = q_size q"
    by (rule write_ops_room[OF assms(1,2), of "Some (summary_of c y)"])
  then show ?thesis
    using assms(3) by (simp add: send_summary_def get_summary_def summary_of_def)
qed

lemma monitor_odid_report:
  assumes ok: "counters_ok c" and y: "y < active_odids_length c" and live: "lively c y"
    and q: "queue_inv q" "q_used q < q_capacity q"
  shows "\<exists>c' q'. monitor_odid y (c, q, []) = Some (Inr (c', q', [])) \<and> counters_ok c' \<and>
    queue_inv q' \<and> q_size q' = q_size q \<and> q_list q' = q_list q @ [reported c (active_list c ! y)] \<and>
    active_list c' = active_list c \<and> active_odids_length c' = active_odids_length c \<and>
    thread_id c' = thread_id c \<and> sc_type c' = sc_type c \<and>
    (\<forall>k. k \<noteq> y \<longrightarrow> active_odids c' ! k = active_odids c ! k) \<and>
    (\<forall>d. counter_of c' d = (if d = active_list c ! y then map_option reinit_odid_counters (counter_of c d)
       else counter_of c d))"
proof -
  let ?d = "active_list c ! y"
  have idx: "index_ok c" using ok by (simp add: counters_ok_def)
  obtain a where a: "active_odids c ! y = Some a" "ao_odid a = ?d" "read_active c y = Inr a"
    using active_list_nth[OF idx y] idx y by (auto simp: index_ok_def read_active_def)
  have "?d \<in> set (active_list c)" using y length_active_list[OF idx] by simp
  then obtain x where x: "counter_of c ?d = Some x" using ok by (auto simp: counters_ok_def)
  have xd: "oc_odid x = ?d" using x by (simp add: counter_of_def find_counter_odid)
  let ?c1 = "store_counter (reinit_odid_counters x) c"
  obtain q' where q': "send_summary (Some x) c q [] = Some (Inr (?c1, q', []))" "queue_inv q'"
    "q_size q' = q_size q" "q_list q' = q_list q @ [Some (summary_of c x)]"
    using send_summary_room[OF q refl] by blast
  have c1: "counters_ok ?c1" "y < length (active_odids ?c1)" "active_odids ?c1 ! y \<noteq> None"
    using ok y idx a(1) by (simp_all add: store_counter_ok index_ok_def)
  have cnt: "counter_of ?c1 d = (if d = ?d then map_option reinit_odid_counters (counter_of c d)
      else counter_of c d)" for d
    using x xd by (simp add: counter_of_store reinit_odid_counters_def)
  let ?f = "if odid_counter_has_values (Some x) then (\<lambda>_. 0) else (\<lambda>n. n + 1)"
  obtain c' where c': "set_active ?c1 y ?f = Inr c'" "counters_ok c'" "active_list c' = active_list ?c1"
    "active_odids_length c' = active_odids_length ?c1" "counter_of c' = counter_of ?c1"
    "thread_id c' = thread_id ?c1" "sc_type c' = sc_type ?c1"
    "\<forall>k. k \<noteq> y \<longrightarrow> active_odids c' ! k = active_odids ?c1 ! k"
    using set_active_entry[OF c1, of ?f] by blast
  have "monitor_odid y (c, q, []) = Some (Inr (c', q', []))"
    using live x a q'(1) c'(1) get_odid_counter_known[OF x, of "[]"]
    by (auto simp: monitor_odid_def lively_def split: if_splits)
  moreover have "reported c ?d = Some (summary_of c x)" using x by (simp add: reported_def)
  ultimately show ?thesis using c' q' cnt by simp
qed

lemma monitor_odids_report:
  assumes "counters_ok c" "y + n = active_odids_length c" "\<forall>k. y \<le> k \<longrightarrow> k < y + n \<longrightarrow> lively c k"
    and "queue_inv q" "q_used q + n \<le> q_capacity q"
  shows "\<exists>c' q'. monitor_odids y n (c, q, []) = Some (Inr (c', q', [])) \<and> counters_ok c' \<and>
    queue_inv q' \<and> q_list q' = q_list q @ map (reported c) (drop y (active_list c)) \<and>
    active_list c' = active_list c \<and>
    (\<forall>d. counter_of c' d = (if d \<in> set (drop y (active_list c))
       then map_option reinit_odid_counters (counter_of c d) else counter_of c d))"
  using assms
proof (induction n arbitrary: y c q)
  case 0
  then have "drop y (active_list c) = []" by (simp add: counters_ok_def length_active_list)
  with 0 show ?case by simp
next
  case (Suc n)
  have idx: "index_ok c" and dis: "distinct (active_list c)" using Suc.prems(1) by (simp_all add: counters_ok_def)
  have y: "y < active_odids_length c" "y < length (active_list c)"
    using Suc.prems(2) length_active_list[OF idx] by simp_all
  let ?d = "active_list c ! y"
  have rest: "drop y (active_list c) = ?d # drop (Suc y) (active_list c)"
    using y(2) by (simp add: Cons_nth_drop_Suc)
  then have new: "?d \<notin> set (drop (Suc y) (active_list c))"
    using dis distinct_drop[OF dis, of y] by simp
  obtain c1 q1 where s: "monitor_odid y (c, q, []) = Some (Inr (c1, q1, []))" "counters_ok c1"
    "queue_inv q1" "q_size q1 = q_size q" "q_list q1 = q_list q @ [reported c ?d]"
    "active_list c1 = active_list c" "active_odids_length c1 = active_odids_length c"
    "thread_id c1 = thread_id c" "sc_type c1 = sc_type c"
    "\<forall>k. k \<noteq> y \<longrightarrow> active_odids c1 ! k = active_odids c ! k"
    "\<forall>d. counter_of c1 d = (if d = ?d then map_option reinit_odid_counters (counter_of c d)
       else counter_of c d)"
    using monitor_odid_report[OF Suc.prems(1) y(1) _ Suc.prems(4)] Suc.prems(3,5) by auto
  have later: "active_list c ! k \<noteq> ?d" if "y < k" "k < y + Suc n" for k
    using that dis y(2) Suc.prems(2) length_active_list[OF idx] by (simp add: nth_eq_iff_index_eq)
  have live: "\<forall>k. Suc y \<le> k \<longrightarrow> k < Suc y + n \<longrightarrow> lively c1 k"
    using Suc.prems(3) s(6,10,11) later by (auto simp: lively_def)
  have used: "q_used q1 + n \<le> q_capacity q1"
    using Suc.prems(5) s(4,5) length_q_list[of q1] by (simp add: q_capacity_def)
  obtain c' q' where r: "monitor_odids (Suc y) n (c1, q1, []) = Some (Inr (c', q', []))" "counters_ok c'"
    "queue_inv q'" "q_list q' = q_list q1 @ map (reported c1) (drop (Suc y) (active_list c1))"
    "active_list c' = active_list c1"
    "\<forall>d. counter_of c' d = (if d \<in> set (drop (Suc y) (active_list c1))
       then map_option reinit_odid_counters (counter_of c1 d) else counter_of c1 d)"
    using Suc.IH[OF s(2) _ live s(3) used] Suc.prems(2) s(7) by auto
  have "reported c1 d = reported c d" if "d \<in> set (drop (Suc y) (active_list c))" for d
  proof -
    have "summary_of c1 = summary_of c" using s(8,9) by (intro ext) (simp add: summary_of_def)
    then show ?thesis using that s(11) new by (auto simp: reported_def)
  qed
  then have "q_list q' = q_list q @ map (reported c) (drop y (active_list c))"
    using r(4) s(5,6) rest by simp
  moreover have "counter_of c' d = (if d \<in> set (drop y (active_list c))
       then map_option reinit_odid_counters (counter_of c d) else counter_of c d)" for d
    using r(6) s(6,11) rest new by auto
  ultimately show ?case using s(1,6) r by simp
qed

text \<open>
  C29. A monitoring pass over a table none of whose domains is to be given up, with room in the
  monitoring queue: exactly one summary is sent for each active domain, in the order of the index
  array, with the values counted since the last pass; then every counter is zero, and the
  set of active domains is the same.
\<close>

theorem monitoring_pass_reports_all:
  assumes "counters_ok c" and "\<forall>y<active_odids_length c. lively c y" and "queue_inv q"
    and "length (q_list q) + active_odids_length c < q_size q"
  shows "\<exists>c' q'. monitor_counters (c, q, []) = Some (Inr (c', q', [])) \<and> counters_ok c' \<and>
    queue_inv q' \<and> q_list q' = q_list q @ map (reported c) (active_list c) \<and>
    active_list c' = active_list c \<and>
    (\<forall>d. counter_of c' d = map_option reinit_odid_counters (counter_of c d))"
proof -
  obtain c' q' where r: "monitor_odids 0 (active_odids_length c) (c, q, []) = Some (Inr (c', q', []))"
    "counters_ok c'" "queue_inv q'" "q_list q' = q_list q @ map (reported c) (active_list c)"
    "active_list c' = active_list c"
    "\<forall>d. counter_of c' d = (if d \<in> set (active_list c)
       then map_option reinit_odid_counters (counter_of c d) else counter_of c d)"
  proof -
    have "q_used q + active_odids_length c \<le> q_capacity q" using assms(4) by (simp add: q_capacity_def)
    from monitor_odids_report[OF assms(1) _ _ assms(3) this, of 0] assms(2) that show thesis by auto
  qed
  have "\<forall>d. counter_of c' d = map_option reinit_odid_counters (counter_of c d)"
    using r(6) assms(1) by (auto simp: counters_ok_def)
  with r show ?thesis by (simp add: monitor_counters_def)
qed

section \<open>A pass that gives domains up\<close>

text \<open>
  The number of entries is read before the loop, so after a removal the loop still visits the last
  entries, which are no longer in use. They have been written, and a domain found there
  that is no longer in the table is put into it again.
\<close>

definition written :: "nat \<Rightarrow> seg_counters \<Rightarrow> bool" where
  "written n c \<longleftrightarrow> n \<le> length (active_odids c) \<and> (\<forall>k<n. active_odids c ! k \<noteq> None)"

lemma written_active: "counters_ok c \<Longrightarrow> written (active_odids_length c) c"
  using active_list_nth[of c] by (auto simp: written_def counters_ok_def index_ok_def)

lemma get_odid_counter_slots:
  assumes ok: "counters_ok c" and n: "written n c" and y: "y < n" "ao_odid (the (active_odids c ! y)) = odid"
  obtains x c' where "get_odid_counter c odid [] = Inr (Some x, c', [])" "counters_ok c'" "written n c'"
    "ao_odid (the (active_odids c' ! y)) = odid" "counter_of c' odid = Some x"
proof (cases "counter_of c odid")
  case None
  obtain c' where c': "get_odid_counter c odid [] = Inr (Some (new_odid_counter odid), c', [])" "counters_ok c'"
    "\<forall>d. counter_of c' d = (if d = odid then Some (new_odid_counter odid) else counter_of c d)"
    "length (active_odids c) \<le> length (active_odids c')"
    "\<forall>k<length (active_odids c). active_odids c' ! k =
      (if k = active_odids_length c then Some \<lparr>ao_odid = odid, ao_active = 0\<rparr> else active_odids c ! k)"
    using get_odid_counter_new[OF ok None] by blast
  have "written n c'" using n c'(4,5) by (auto simp: written_def)
  moreover have "ao_odid (the (active_odids c' ! y)) = odid" using n y c'(5) by (auto simp: written_def)
  ultimately show thesis using that c'(1-3) by simp
next
  case (Some x)
  then show thesis using that get_odid_counter_known[OF Some, of "[]"] ok n y by blast
qed

lemma send_summary_safe:
  assumes "queue_inv q" "2 \<le> q_size q"
  shows "\<exists>q'. send_summary (Some y) c q [] = Some (Inr (store_counter (reinit_odid_counters y) c, q', [])) \<and>
    queue_inv q' \<and> q_size q' = q_size q"
proof -
  obtain r q' where "unyte_udp_queue_destructive_write q (Some (summary_of c y)) = Some (Inr (r, q'))"
    "queue_inv q'" "q_size q' = q_size q"
    using destructive_room_or_full[OF assms, of "Some (summary_of c y)"] by blast
  then show ?thesis by (simp add: send_summary_def get_summary_def summary_of_def)
qed

lemma monitor_odid_safe:
  assumes ok: "counters_ok c" and n: "written n c" "y < n" and q: "queue_inv q" "2 \<le> q_size q"
  shows "\<exists>c' q'. monitor_odid y (c, q, []) = Some (Inr (c', q', [])) \<and> counters_ok c' \<and> written n c' \<and>
    queue_inv q' \<and> q_size q' = q_size q"
proof -
  obtain a where a: "active_odids c ! y = Some a" "read_active c y = Inr a"
    using n by (auto simp: written_def read_active_def)
  obtain x c1 where c1: "get_odid_counter c (ao_odid a) [] = Inr (Some x, c1, [])" "counters_ok c1" "written n c1"
    "ao_odid (the (active_odids c1 ! y)) = ao_odid a" "counter_of c1 (ao_odid a) = Some x"
    by (rule get_odid_counter_slots[OF ok n, of "ao_odid a"]) (use a(1) in simp)
  obtain a1 where a1: "read_active c1 y = Inr a1" "ao_odid a1 = ao_odid a"
    using c1(3,4) n(2) by (auto simp: written_def read_active_def)
  let ?c2 = "store_counter (reinit_odid_counters x) c1"
  have c2: "counters_ok ?c2" "y < length (active_odids ?c2)" "active_odids ?c2 ! y \<noteq> None"
    using c1(2,3) n(2) by (auto simp: store_counter_ok written_def)
  obtain q' where q': "send_summary (Some x) c1 q [] = Some (Inr (?c2, q', []))" "queue_inv q'" "q_size q' = q_size q"
    using send_summary_safe[OF q] by blast
  have sent: "\<exists>c'. set_active ?c2 y f = Inr c' \<and> counters_ok c' \<and> written n c'" for f
  proof -
    obtain c' where c': "set_active ?c2 y f = Inr c'" "counters_ok c'"
      "\<forall>k. k \<noteq> y \<longrightarrow> active_odids c' ! k = active_odids ?c2 ! k"
      "length (active_odids c') = length (active_odids ?c2)" "active_odids c' ! y \<noteq> None"
      using set_active_entry[OF c2, of f] by blast
    have "active_odids c' ! k \<noteq> None" if "k < n" for k
      using that c'(3,5) c1(3) by (cases "k = y") (simp_all add: written_def)
    then show ?thesis using c'(1,2,4) c1(3) by (auto simp: written_def)
  qed
  obtain c3 where c3: "remove_odid_counter c1 (ao_odid a) = Inr c3" "counters_ok c3"
    "length (active_odids c3) = length (active_odids c1)"
    "\<forall>k<length (active_odids c1). active_odids c1 ! k \<noteq> None \<longrightarrow> active_odids c3 ! k \<noteq> None"
    using remove_odid_counter_run[OF c1(2)] c1(5) by blast
  then have w3: "written n c3" using c1(3) by (simp add: written_def)
  show ?thesis
  proof (cases "\<not> odid_counter_has_values (Some x) \<and> ao_active a1 = ODID_TIME_TO_LIVE")
    case True
    then show ?thesis using a c1(1) a1 c3(1,2) w3 q by (simp add: monitor_odid_def)
  next
    case False
    define f where "f = (if odid_counter_has_values (Some x) then (\<lambda>_. 0) else (\<lambda>n :: int. n + 1))"
    obtain c' where "set_active ?c2 y f = Inr c'" "counters_ok c'" "written n c'" using sent by blast
    with False a c1(1) a1 q' show ?thesis
      by (cases "odid_counter_has_values (Some x)") (simp_all add: monitor_odid_def f_def)
  qed
qed

lemma monitor_odids_safe:
  assumes "counters_ok c" "written (y + n) c" "queue_inv q" "2 \<le> q_size q"
  shows "\<exists>c' q'. monitor_odids y n (c, q, []) = Some (Inr (c', q', [])) \<and> counters_ok c' \<and>
    queue_inv q' \<and> q_size q' = q_size q"
  using assms
proof (induction n arbitrary: y c q)
  case (Suc n)
  obtain c1 q1 where s: "monitor_odid y (c, q, []) = Some (Inr (c1, q1, []))" "counters_ok c1"
    "written (y + Suc n) c1" "queue_inv q1" "q_size q1 = q_size q"
    using monitor_odid_safe[OF Suc.prems(1,2) _ Suc.prems(3,4), of y] by auto
  with Suc.IH[of c1 "Suc y" q1] Suc.prems(4) show ?case by simp
qed simp

text \<open>A whole round, whatever it sends, drops and gives up.\<close>

lemma monitoring_round_safe:
  assumes "list_all counters_ok cs" "queue_inv q" "2 \<le> q_size q"
  shows "\<exists>cs' q'. monitoring_round cs q [] = Some (Inr (cs', q', [])) \<and> length cs' = length cs \<and>
    list_all counters_ok cs' \<and> queue_inv q' \<and> q_size q' = q_size q"
  using assms
proof (induction cs arbitrary: q)
  case (Cons c cs)
  obtain c1 q1 where s: "monitor_counters (c, q, []) = Some (Inr (c1, q1, []))" "counters_ok c1"
    "queue_inv q1" "q_size q1 = q_size q"
    using monitor_odids_safe[of c 0 "active_odids_length c" q] Cons.prems written_active[of c]
    by (auto simp: monitor_counters_def)
  obtain cs' q' where "monitoring_round cs q1 [] = Some (Inr (cs', q', []))" "length cs' = length cs"
    "list_all counters_ok cs'" "queue_inv q'" "q_size q' = q_size q1"
    using Cons.IH[of q1] Cons.prems s(3,4) by auto
  with s show ?case by simp
qed simp

section \<open>Freeing the tables\<close>

text \<open>
  \<^verbatim>\<open>unyte_udp_free_seg_counters\<close>: the chains of each table are walked and their elements freed; the
  result is what was freed of each table, in order.
\<close>

fun free_chain :: "odid_counter list \<Rightarrow> odid_counter list" where
  "free_chain [] = []"
| "free_chain (c # cs) = c # free_chain cs"

definition free_chains :: "seg_counters \<Rightarrow> odid_counter list" where
  "free_chains c = concat (map (\<lambda>h. free_chain (odid_counters c h)) [0..<ODID_COUNTERS])"

definition unyte_udp_free_seg_counters :: "seg_counters list \<Rightarrow> odid_counter list list" where
  "unyte_udp_free_seg_counters cs = map free_chains cs"

lemma free_chain_all: "free_chain cs = cs"
  by (induction cs) simp_all

lemma hash_key_less: "unat (hash_key odid) < ODID_COUNTERS"
  by (simp add: hash_key_def unat_mod_distrib)

text \<open>Each domain of the index is freed once.\<close>

lemma free_chains_active:
  assumes "counters_ok c"
  shows "distinct (map oc_odid (free_chains c))" "oc_odid ` set (free_chains c) = set (active_list c)"
proof -
  have ok: "chains_ok c" using assms by (simp add: counters_ok_def)
  then have chain: "distinct (map oc_odid (odid_counters c h))"
    "\<And>x. x \<in> set (odid_counters c h) \<Longrightarrow> unat (hash_key (oc_odid x)) = h" for h
    by (auto simp: chains_ok_def list_all_iff)
  have "distinct (map oc_odid (concat (map (odid_counters c) [0..<n])))" for n
  proof (induction n)
    case (Suc n)
    have "unat (hash_key d) \<noteq> n" if "d \<in> oc_odid ` set (concat (map (odid_counters c) [0..<n]))" for d
      using that chain(2) by fastforce
    then have "oc_odid ` set (concat (map (odid_counters c) [0..<n])) \<inter> oc_odid ` set (odid_counters c n) = {}"
      using chain(2) by fastforce
    with Suc chain(1)[of n] show ?case by simp
  qed simp
  then show "distinct (map oc_odid (free_chains c))" by (simp add: free_chains_def free_chain_all del: upt_rec_numeral)
  have "d \<in> oc_odid ` set (free_chains c) \<longleftrightarrow> d \<in> set (active_list c)" for d
  proof -
    have "d \<in> oc_odid ` set (free_chains c) \<longleftrightarrow> (\<exists>h<ODID_COUNTERS. d \<in> oc_odid ` set (odid_counters c h))"
      by (auto simp: free_chains_def free_chain_all image_UN simp del: upt_rec_numeral)
    also have "\<dots> \<longleftrightarrow> d \<in> oc_odid ` set (bucket_of c d)"
    proof
      assume "\<exists>h<ODID_COUNTERS. d \<in> oc_odid ` set (odid_counters c h)"
      then obtain h x where x: "x \<in> set (odid_counters c h)" "d = oc_odid x" by blast
      then have "bucket_of c d = odid_counters c h" using chain(2)[OF x(1)] by (simp add: bucket_of_def)
      with x show "d \<in> oc_odid ` set (bucket_of c d)" by simp
    qed (use hash_key_less[of d] in \<open>auto simp: bucket_of_def\<close>)
    also have "\<dots> \<longleftrightarrow> counter_of c d \<noteq> None"
      using find_counter_iff[of d "bucket_of c d"] by (simp add: counter_of_def)
    also have "\<dots> \<longleftrightarrow> d \<in> set (active_list c)" using assms by (simp add: counters_ok_def)
    finally show ?thesis .
  qed
  then show "oc_odid ` set (free_chains c) = set (active_list c)" by blast
qed

section \<open>Sample tables\<close>

text \<open>One domain, with two received segments.\<close>

definition sample_counters :: seg_counters where
  "sample_counters = \<lparr>thread_id = 1,
     odid_counters = (\<lambda>_. [])(7 := [\<lparr>oc_odid = 7, segments_received = 2, segments_dropped = 0,
       segments_reordered = 1, last_message_id = 9\<rparr>]),
     sc_type = Some PARSER_WORKER, active_odids = [Some \<lparr>ao_odid = 7, ao_active = 0\<rparr>, None],
     active_odids_length = 1, active_odids_max_length = 2\<rparr>"

lemma sample_counters_ok: "counters_ok sample_counters"
proof -
  have "unat (hash_key 7) = 7" by (simp add: hash_key_def)
  moreover have "counter_of sample_counters odid \<noteq> None \<longleftrightarrow> odid = 7" for odid
    using \<open>unat (hash_key 7) = 7\<close> by (auto simp: counter_of_def bucket_of_def sample_counters_def)
  ultimately show ?thesis
    by (simp add: counters_ok_def chains_ok_def index_ok_def active_list_def sample_counters_def)
qed

lemma sample_counter:
  "counter_of sample_counters 7 = Some \<lparr>oc_odid = 7, segments_received = 2, segments_dropped = 0,
     segments_reordered = 1, last_message_id = 9\<rparr>"
  by (simp add: counter_of_def bucket_of_def sample_counters_def hash_key_def)

theorem update_counts_one_domain_witness:
  "\<exists>c'. unyte_udp_update_received_segment sample_counters 7 4 [] = Inr (c', []) \<and>
    counter_of c' 7 = Some \<lparr>oc_odid = 7, segments_received = 3, segments_dropped = 0,
     segments_reordered = 2, last_message_id = 9\<rparr>"
  using update_counts_one_domain[OF sample_counters_ok, of 7 4]
  by (auto simp: sample_counter known_counter_def count_received_def)

theorem remove_odid_counter_exact_witness:
  "\<exists>c'. remove_odid_counter sample_counters 7 = Inr c' \<and> counter_of c' 7 = None \<and>
    active_odids_length c' = 0"
  using remove_odid_counter_exact[OF sample_counters_ok, of 7] sample_counter
  by (auto simp: sample_counters_def)

theorem monitoring_pass_reports_all_witness:
  "\<exists>c' q'. monitor_counters (sample_counters,
      \<lparr>q_head = 0, q_tail = 0, q_size = 2, q_empty = 2, q_full = 0, q_data = [Uninit, Uninit]\<rparr>, []) =
      Some (Inr (c', q', [])) \<and> length (q_list q') = 1"
proof -
  let ?q = "\<lparr>q_head = 0, q_tail = 0, q_size = 2, q_empty = 2, q_full = 0,
    q_data = [Uninit, Uninit]\<rparr> :: sum_counter unyte_udp_queue"
  have "queue_inv ?q" "q_list ?q = []" and "\<forall>y<active_odids_length sample_counters. lively sample_counters y"
    by (simp_all add: queue_inv_def ring_ok_def q_used_def ring_used_def q_list_def lively_def
        sample_counters_def)
  moreover have "length (q_list ?q) + active_odids_length sample_counters < q_size ?q"
    "length (active_list sample_counters) = 1"
    by (simp_all add: q_list_def q_used_def ring_used_def sample_counters_def active_list_def)
  ultimately obtain c' q' where
    "monitor_counters (sample_counters, ?q, []) = Some (Inr (c', q', []))"
    "q_list q' = map (reported sample_counters) (active_list sample_counters)"
    "length (active_list sample_counters) = 1"
    using monitoring_pass_reports_all[OF sample_counters_ok, of ?q] by auto
  then show ?thesis by (metis length_map)
qed

end
