(* ===== verification/Packet.thy ===== *)
theory Packet
  imports Wire
begin

text \<open>
  Building and serialising packets: \<^verbatim>\<open>build_message_options\<close>, \<^verbatim>\<open>build_message\<close> and
  \<^verbatim>\<open>serialize_message\<close> of \<^verbatim>\<open>src/unyte_udp_utils.c\<close>. The first lemmas show how a message is
  cut; the second group shows that a serialised packet parses back.

  In the packets built here \<^verbatim>\<open>message_length\<close> is the length of the payload alone; in a parsed
  segment it is the length of the whole datagram. \<^verbatim>\<open>metadata\<close> is not set by the builder and
  is not read by the serialiser.
\<close>

section \<open>Custom options\<close>

fun build_options ::
  "unyte_send_option list \<Rightarrow> nat \<Rightarrow> nat \<Rightarrow> unyte_option list \<Rightarrow> allocs \<Rightarrow>
    fault + (unyte_option list option \<times> allocs)"
where
  "build_options opts i 0 built as = Inr (Some built, as)"
| "build_options opts i (Suc k) built as =
     (let (ok1, as1) = malloc as; (ok2, as2) = malloc as1 in
      if i < length opts then
        (if \<not> ok1 \<or> \<not> ok2 then Inr (None, as2)
         else
           bind_fault (read_range (so_data (opts ! i)) 0 (unat (so_data_length (opts ! i)))) (\<lambda>data.
           build_options opts (Suc i) k
             (built @ [\<lparr>opt_type = so_type (opts ! i),
                        opt_length = so_data_length (opts ! i) + 2, opt_data = data\<rparr>]) as2))
      else Inl Out_Of_Bounds)"

definition build_message_options ::
  "unyte_send_option list \<Rightarrow> u32 \<Rightarrow> allocs \<Rightarrow> fault + (unyte_option list option \<times> allocs)" where
  "build_message_options opts n as =
     (case build_message_empty_options as of
        (None, as1) \<Rightarrow> Inr (None, as1)
      | (Some head, as1) \<Rightarrow> build_options opts 0 (unat n) head as1)"

section \<open>Cutting a message\<close>

definition no_metadata :: unyte_metadata where
  "no_metadata = \<lparr>src = None, dest = None\<rparr>"

text \<open>The header of a packet that is not segmented; the segmentation fields are not set.\<close>

definition plain_header :: "unyte_message \<Rightarrow> u32 \<Rightarrow> unyte_option list \<Rightarrow> unyte_header" where
  "plain_header msg options_header_bytes opts =
     \<lparr>version = msg_version msg, space = msg_space msg, media_type = msg_media_type msg,
      header_length = ucast (of_nat HEADER_BYTES + options_header_bytes),
      message_length = ucast (buffer_len msg),
      observation_domain_id = msg_observation_domain_id msg,
      message_id = msg_message_id msg,
      f_type = None, f_len = None, f_num = None, f_last = None, options = Some opts\<rparr>"

text \<open>The header of packet \<open>i\<close> of \<open>n\<close>; the first packet carries the custom options.\<close>

definition segment_header ::
  "unyte_message \<Rightarrow> u32 \<Rightarrow> u32 \<Rightarrow> u32 \<Rightarrow> u32 \<Rightarrow> unyte_option list option \<Rightarrow> unyte_header" where
  "segment_header msg options_header_bytes n i bytes_to_send opts =
     \<lparr>version = msg_version msg, space = msg_space msg, media_type = msg_media_type msg,
      header_length = of_nat (HEADER_BYTES + UNYTE_SEGMENTATION_OPTION_LEN) +
        (if i = 0 then ucast options_header_bytes else 0),
      message_length = ucast bytes_to_send,
      observation_domain_id = msg_observation_domain_id msg,
      message_id = msg_message_id msg,
      f_type = Some UNYTE_TYPE_SEGMENTATION,
      f_len = Some (of_nat UNYTE_SEGMENTATION_OPTION_LEN),
      f_num = Some (ucast i), f_last = Some (if i = n - 1 then 1 else 0), options = opts\<rparr>"

text \<open>
  The loop over the packets: \<open>k\<close> packets are left, \<open>i\<close> is the loop index and \<open>copy_it\<close> the
  number of bytes of the buffer already sent. All arithmetic is that of \<^verbatim>\<open>uint\<close>.
\<close>

definition bytes_to_send :: "unyte_message \<Rightarrow> u32 \<Rightarrow> u32 \<Rightarrow> u32 \<Rightarrow> u32 \<Rightarrow> u32" where
  "bytes_to_send msg usable options_header_bytes i copy_it =
     (let rest = buffer_len msg - copy_it;
          b = (if rest < usable then rest else usable) in
      if i = 0 \<and> options_header_bytes > 0 then b - options_header_bytes else b)"

fun build_segments ::
  "unyte_message \<Rightarrow> u32 \<Rightarrow> u32 \<Rightarrow> unyte_option list \<Rightarrow> u32 \<Rightarrow> nat \<Rightarrow> u32 \<Rightarrow> u32 \<Rightarrow> allocs \<Rightarrow>
    fault + (unyte_seg_met list option \<times> allocs)"
where
  "build_segments msg usable ohb oh n 0 i copy_it as = Inr (Some [], as)"
| "build_segments msg usable ohb oh n (Suc k) i copy_it as =
     (let bts = bytes_to_send msg usable ohb i copy_it;
          (ok1, as1) = malloc as in
      if \<not> ok1 then Inr (None, as1)
      else
        bind_fault (read_range (msg_buffer msg) (unat copy_it) (unat bts)) (\<lambda>payload.
        let (ok2, as2) = malloc as1 in
        if \<not> ok2 then Inr (None, as2)
        else
          let (opts, as3) = (if i = 0 then (Some oh, as2) else build_message_empty_options as2);
              seg = \<lparr>metadata = no_metadata, header = segment_header msg ohb n i bts opts,
                     payload = payload\<rparr> in
          bind_fault (build_segments msg usable ohb oh n k (i + 1) (copy_it + bts) as3)
            (\<lambda>(segs, as4). Inr (map_option (Cons seg) segs, as4))))"

text \<open>The number of packets; \<^verbatim>\<open>actual_usable_bytes\<close> is 0 for an MTU of 16.\<close>

definition packets_to_send :: "u32 \<Rightarrow> u32 \<Rightarrow> fault + u32" where
  "packets_to_send mtu message_len =
     (let usable = mtu - of_nat HEADER_BYTES - of_nat UNYTE_SEGMENTATION_OPTION_LEN in
      if message_len + of_nat HEADER_BYTES > mtu then
        (if usable = 0 then Inl Div_By_Zero
         else Inr (message_len div usable + (if message_len mod usable \<noteq> 0 then 1 else 0)))
      else Inr 1)"

definition build_message ::
  "unyte_message \<Rightarrow> u32 \<Rightarrow> allocs \<Rightarrow> fault + (unyte_seg_met list option \<times> allocs)" where
  "build_message msg mtu as =
     (let (ok0, as0) = malloc as in
      if \<not> ok0 then Inr (None, as0)
      else
        bind_fault (build_message_options (msg_options msg) (options_len msg) as0) (\<lambda>(oh, as1).
        bind_fault (options_total_bytes oh) (\<lambda>ohb.
        let usable = mtu - of_nat HEADER_BYTES - of_nat UNYTE_SEGMENTATION_OPTION_LEN;
            message_len = ohb + buffer_len msg in
        bind_fault (packets_to_send mtu message_len) (\<lambda>n.
        let (ok1, as2) = malloc as1 in
        case oh of
          None \<Rightarrow> Inr (None, as2)
        | Some opts \<Rightarrow>
            if \<not> ok1 then Inr (None, as2)
            else if n = 1 then
              (let (ok2, as3) = malloc as2; (ok3, as4) = malloc as3 in
               if \<not> ok2 \<or> \<not> ok3 then Inr (None, as4)
               else
                 bind_fault (read_range (msg_buffer msg) 0 (unat (buffer_len msg))) (\<lambda>payload.
                 Inr (Some [\<lparr>metadata = no_metadata, header = plain_header msg ohb opts,
                             payload = payload\<rparr>], as4)))
            else build_segments msg usable ohb opts n (unat n) 0 0 as2))))"

section \<open>Serialising\<close>

definition serialize_fixed_header :: "unyte_header \<Rightarrow> u32 \<Rightarrow> bytes" where
  "serialize_fixed_header h packet_size =
     [push_bit 5 (ucast (version h)) + push_bit 4 (ucast (space h)) + ucast (media_type h),
      header_length h,
      byte_of 1 packet_size, byte_of 0 packet_size,
      byte_of 3 (observation_domain_id h), byte_of 2 (observation_domain_id h),
      byte_of 1 (observation_domain_id h), byte_of 0 (observation_domain_id h),
      byte_of 3 (message_id h), byte_of 2 (message_id h),
      byte_of 1 (message_id h), byte_of 0 (message_id h)]"

text \<open>The segmentation option: the number is shifted by 8 in one byte and by 1 in the other.\<close>

definition serialize_segmentation :: "unyte_header \<Rightarrow> fault + bytes" where
  "serialize_segmentation h =
     (case (f_type h, f_len h, f_num h, f_last h) of
        (Some t, Some l, Some num, Some lst) \<Rightarrow>
          Inr [t, l, ucast (drop_bit 8 num), push_bit 1 (ucast num) + ucast lst]
      | _ \<Rightarrow> Inl Uninit_Read)"

definition serialize_option :: "unyte_option \<Rightarrow> fault + bytes" where
  "serialize_option o' =
     (if unat (opt_length o') < 2 then Inl Out_Of_Bounds
      else
        bind_fault (read_range (opt_data o') 0 (unat (opt_length o') - 2)) (\<lambda>data.
        Inr (opt_type o' # opt_length o' # data)))"

fun serialize_options :: "unyte_option list \<Rightarrow> fault + bytes" where
  "serialize_options [] = Inr []"
| "serialize_options (o' # os) =
     bind_fault (serialize_option o') (\<lambda>b.
     bind_fault (serialize_options os) (\<lambda>bs. Inr (b @ bs)))"

text \<open>
  The writes into the packet are consecutive, so its contents are their concatenation; they
  stay inside the \<^verbatim>\<open>packet_size\<close> bytes allocated for it exactly when the lengths agree.
\<close>

definition serialize_message :: "unyte_seg_met \<Rightarrow> allocs \<Rightarrow> fault + (bytes \<times> allocs)" where
  "serialize_message msg as =
     (let h = header msg in
      bind_fault (options_total_bytes (options h)) (\<lambda>custom_options.
      let segmented = is_segmented h custom_options;
          packet_size = of_nat HEADER_BYTES + custom_options + ucast (message_length h) +
            (if segmented then of_nat UNYTE_SEGMENTATION_OPTION_LEN else 0);
          (ok, as1) = malloc as in
      if \<not> ok then Inl Null_Deref
      else
        bind_fault (if segmented then serialize_segmentation h else Inr []) (\<lambda>seg_bytes.
        bind_fault (serialize_options (the (options h))) (\<lambda>opt_bytes.
        bind_fault (read_range (payload msg) 0 (unat (message_length h))) (\<lambda>payload_bytes.
        let out = serialize_fixed_header h packet_size @ seg_bytes @ opt_bytes @ payload_bytes in
        if length out = unat packet_size then Inr (out, as1) else Inl Out_Of_Bounds)))))"

section \<open>Segment numbers on the wire\<close>

lemma unat_seg_byte:
  fixes n :: "31 word" and l :: "1 word"
  assumes "unat n < 128"
  shows "unat (push_bit 1 (ucast n) + ucast l :: u8) = 2 * unat n + unat l"
proof -
  have l: "unat l < 2" using unsigned_less[of l] by simp
  have a: "unat (ucast n :: u8) = unat n" "unat (ucast l :: u8) = unat l"
    using assms l by (simp_all add: unat_ucast_small)
  have "push_bit 1 (ucast n :: u8) = 2 * ucast n" by (simp add: push_bit_eq_mult)
  then have "unat (push_bit 1 (ucast n) :: u8) = 2 * unat n"
    using assms a by (simp add: unat_word_ariths)
  with a l assms show ?thesis by (simp add: unat_word_ariths)
qed

lemma seg_number_high_byte:
  assumes "unat (n :: 31 word) < 128"
  shows "ucast (drop_bit 8 n) = (0 :: u8)"
proof -
  have "unat (drop_bit 8 n) = 0" using assms by (simp add: unat_drop_bit_eq drop_bit_nat_def)
  then have "drop_bit 8 n = 0" by (simp only: unat_eq_0)
  then show ?thesis by simp
qed

text \<open>The parser's view of the two bytes, for segment numbers below 128.\<close>

lemma seg_number_back:
  fixes n :: "31 word" and l :: "1 word"
  assumes "unat n < 128"
  shows "ucast (drop_bit 1 (ntohs (le16 (ucast (drop_bit 8 n)) (push_bit 1 (ucast n) + ucast l)))) = n"
proof -
  let ?b = "push_bit 1 (ucast n) + ucast l :: u8"
  have l: "unat l < 2" using unsigned_less[of l] by simp
  note b = unat_seg_byte[OF assms, of l]
  have le: "ntohs (le16 0 ?b) = ucast ?b" unfolding ntohs_le16 by (simp add: le16_def)
  have "unat (ucast ?b :: u16) = unat ?b" using u8_less[of ?b] by (intro unat_ucast_small) simp
  then have "unat (drop_bit 1 (ucast ?b :: u16)) = unat n"
    using b l by (simp add: unat_drop_bit_eq drop_bit_nat_def)
  then have "unat (ucast (drop_bit 1 (ucast ?b :: u16)) :: 31 word) = unat n"
    using assms by (simp add: unat_ucast_small)
  then show ?thesis
    unfolding seg_number_high_byte[OF assms] le by (simp only: word_unat_eq_iff)
qed

lemma seg_last_back:
  fixes n :: "31 word" and l :: "1 word"
  assumes "unat n < 128"
  shows "(if (push_bit 1 (ucast n) + ucast l :: u8) AND 1 = 1 then 1 else 0) = l"
proof -
  have "unat l < 2" using unsigned_less[of l] by simp
  then have l: "unat l = 0 \<or> unat l = 1" by auto
  have "((push_bit 1 (ucast n) + ucast l :: u8) AND 1 = 1) = odd (unat l)"
    using unat_seg_byte[OF assms, of l] by (simp add: and_1_odd)
  then show ?thesis
    using l word_unat_eq_iff[of l 1] word_unat_eq_iff[of l 0] by auto
qed

section \<open>Packets as the builder makes them\<close>

definition option_bytes :: "unyte_option \<Rightarrow> bytes" where
  "option_bytes o' = opt_type o' # opt_length o' # opt_data o'"

definition wf_option :: "unyte_option \<Rightarrow> bool" where
  "wf_option o' \<longleftrightarrow> opt_type o' \<noteq> UNYTE_TYPE_SEGMENTATION \<and>
     unat (opt_length o') = length (opt_data o') + 2"

lemma serialize_options_wf:
  "list_all wf_option os \<Longrightarrow> serialize_options os = Inr (concat (map option_bytes os))"
  by (induction os) (auto simp: wf_option_def serialize_option_def option_bytes_def)

lemma length_option_bytes:
  "list_all wf_option os \<Longrightarrow> length (concat (map option_bytes os)) = opts_size os"
  by (induction os) (auto simp: wf_option_def option_bytes_def)

text \<open>Parsing the bytes of well-formed options gives the options back.\<close>

lemma parse_option_wf:
  assumes "wf_option o'" "drop (HEADER_BYTES + ps_length s) segment = option_bytes o' @ rest"
    and "ps_allocs s = []"
  shows "parse_option segment s = Inr (Inr (s\<lparr>ps_options := ps_options s @ [o'],
    ps_length := ps_length s + unat (opt_length o')\<rparr>))"
proof -
  let ?k = "HEADER_BYTES + ps_length s"
  have d0: "drop ?k segment = opt_type o' # opt_length o' # opt_data o' @ rest"
    using assms(2) by (simp add: option_bytes_def)
  have d1: "drop (?k + 1) segment = opt_length o' # opt_data o' @ rest"
    using drop_ConsD(3)[OF d0] by simp
  have d2: "drop (?k + 2) segment = opt_data o' @ rest" and k: "?k + 2 \<le> length segment"
    using drop_ConsD[OF d1] by simp_all
  have "read_range segment (?k + 2) (unat (opt_length o') - 2) = Inr (opt_data o')"
    using assms(1) by (intro read_range_drop[OF d2 k]) (simp add: wf_option_def)
  then show ?thesis
    using assms(1,3) read_byte_drop[OF d0] read_byte_drop[OF d1]
    unfolding parse_option_def Let_def
    by (simp add: wf_option_def uint_size_simps)
qed

lemma parse_options_wf:
  assumes "list_all wf_option os" "ps_allocs s = []"
    and "drop (HEADER_BYTES + ps_length s) segment = concat (map option_bytes os) @ rest"
    and "unat (header_length (ps_header s)) = HEADER_BYTES + ps_length s + opts_size os"
  shows "parse_options segment s = Some (Inr (Inr (s\<lparr>ps_options := ps_options s @ os,
    ps_length := ps_length s + opts_size os\<rparr>)))"
  using assms
proof (induction os arbitrary: s)
  case Nil
  then show ?case by (simp add: parse_options.simps)
next
  case (Cons o' os)
  let ?s = "s\<lparr>ps_options := ps_options s @ [o'], ps_length := ps_length s + unat (opt_length o')\<rparr>"
  have wf: "wf_option o'" "list_all wf_option os" using Cons.prems(1) by simp_all
  have d: "drop (HEADER_BYTES + ps_length s) segment =
      option_bytes o' @ concat (map option_bytes os) @ rest"
    using Cons.prems(3) by simp
  have "drop (unat (opt_length o')) (drop (HEADER_BYTES + ps_length s) segment) =
      concat (map option_bytes os) @ rest"
    unfolding d using wf(1) by (simp add: wf_option_def option_bytes_def)
  then have d': "drop (HEADER_BYTES + ps_length ?s) segment = concat (map option_bytes os) @ rest"
    by (simp add: add.commute add.left_commute)
  have "parse_options segment s = parse_options segment ?s"
    using parse_option_wf[OF wf(1) d Cons.prems(2)] Cons.prems(4) wf(1)
    by (simp add: parse_options.simps[of segment s] wf_option_def)
  also have "\<dots> = Some (Inr (Inr (?s\<lparr>ps_options := ps_options ?s @ os,
      ps_length := ps_length ?s + opts_size os\<rparr>)))"
    using Cons.prems wf d' by (intro Cons.IH) simp_all
  finally show ?case by (simp add: add.assoc)
qed

section \<open>Round trip of a packet\<close>

text \<open>The first byte: three bits of version, one of space, four of media type.\<close>

lemma first_byte_back:
  fixes v :: "3 word" and s :: "1 word" and m :: "4 word"
  defines "b \<equiv> push_bit 5 (ucast v) + push_bit 4 (ucast s) + ucast m :: u8"
  shows "ucast (drop_bit 5 b) = v" and "ucast (b AND ET_MASK) = m"
proof -
  have r: "unat v < 8" "unat s < 2" "unat m < 16"
    using unsigned_less[of v] unsigned_less[of s] unsigned_less[of m] by simp_all
  have u: "unat (ucast v :: u8) = unat v" "unat (ucast s :: u8) = unat s"
    "unat (ucast m :: u8) = unat m"
    using r by (simp_all add: unat_ucast_small)
  have "b = 32 * ucast v + 16 * ucast s + ucast m"
    by (simp add: b_def push_bit_eq_mult)
  then have b: "unat b = 32 * unat v + 16 * unat s + unat m"
    using r u by (simp add: unat_word_ariths)
  have "unat (drop_bit 5 b) = unat v"
    using b r by (simp add: unat_drop_bit_eq drop_bit_nat_def)
  then have "unat (ucast (drop_bit 5 b) :: 3 word) = unat v"
    using r by (simp add: unat_ucast_small)
  then show "ucast (drop_bit 5 b) = v" by (simp only: word_unat_eq_iff)
  have "b AND 15 = take_bit 4 b" by (simp add: take_bit_eq_mask mask_eq_exp_minus_1)
  moreover have "unat b mod 16 = unat m"
    unfolding b using r mod_mult_self3[of "2 * unat v + unat s" 16 "unat m"]
    by (simp add: algebra_simps)
  ultimately have "unat (b AND 15) = unat m"
    by (simp add: unsigned_take_bit_eq take_bit_nat_def)
  then have "unat (ucast (b AND 15) :: 4 word) = unat m"
    using r by (simp add: unat_ucast_small)
  then show "ucast (b AND ET_MASK) = m" by (simp only: word_unat_eq_iff)
qed

lemma parse_fixed_back:
  "parse_fixed_header (serialize_fixed_header h n @ rest) =
    Inr (h\<lparr>space := 0, message_length := ucast n, f_type := None, f_len := None,
      f_num := None, f_last := None, options := Some []\<rparr>)"
proof -
  let ?b = "serialize_fixed_header h n @ rest"
  have "HEADER_BYTES \<le> length ?b" by (simp add: serialize_fixed_header_def)
  then show ?thesis
    unfolding parse_fixed_header_in[OF \<open>HEADER_BYTES \<le> length ?b\<close>]
    by (simp add: serialize_fixed_header_def first_byte_back space_bit_lost bytes_simps)
qed

text \<open>
  Packets that the wire format can carry: options with their declared length and a type other
  than the segmentation type, the payload of the declared length, a header length that counts
  the options (and the segmentation option), and a segment number below 128.
\<close>

definition plain_packet :: "unyte_seg_met \<Rightarrow> unyte_option list \<Rightarrow> bool" where
  "plain_packet seg os \<longleftrightarrow>
     unat (header_length (header seg)) = HEADER_BYTES + opts_size os \<and>
     f_type (header seg) = None \<and> f_len (header seg) = None \<and>
     f_num (header seg) = None \<and> f_last (header seg) = None"

definition segment_packet :: "unyte_seg_met \<Rightarrow> unyte_option list \<Rightarrow> bool" where
  "segment_packet seg os \<longleftrightarrow>
     unat (header_length (header seg)) =
       HEADER_BYTES + UNYTE_SEGMENTATION_OPTION_LEN + opts_size os \<and>
     f_type (header seg) = Some UNYTE_TYPE_SEGMENTATION \<and> f_len (header seg) = Some 4 \<and>
     (case f_num (header seg) of None \<Rightarrow> False | Some n \<Rightarrow> unat n < 128) \<and>
     f_last (header seg) \<noteq> None"

definition packet_ok :: "unyte_seg_met \<Rightarrow> unyte_option list \<Rightarrow> bool" where
  "packet_ok seg os \<longleftrightarrow>
     options (header seg) = Some os \<and> list_all wf_option os \<and>
     length (payload seg) = unat (message_length (header seg)) \<and>
     unat (header_length (header seg)) + unat (message_length (header seg)) < 65536 \<and>
     (plain_packet seg os \<or> segment_packet seg os)"

text \<open>The segment the other side sees.\<close>

definition received :: "unyte_min \<Rightarrow> unyte_seg_met \<Rightarrow> unyte_seg_met" where
  "received um seg =
     \<lparr>metadata = \<lparr>src = um_src um, dest = um_dest um\<rparr>,
      header = (header seg)\<lparr>space := 0,
        message_length := message_length (header seg) + ucast (header_length (header seg))\<rparr>,
      payload = payload seg\<rparr>"

lemma opts_size_bound:
  assumes "packet_ok seg os"
  shows "opts_size os < 256" "unat (opts_bytes os) = opts_size os"
proof -
  show "opts_size os < 256"
    using assms u8_less[of "header_length (header seg)"]
    by (auto simp: packet_ok_def plain_packet_def segment_packet_def)
  then show "unat (opts_bytes os) = opts_size os" by (simp add: unat_opts_bytes)
qed

lemma packet_is_segmented:
  assumes "packet_ok seg os"
  shows "is_segmented (header seg) (opts_bytes os) \<longleftrightarrow> segment_packet seg os"
proof -
  have "unat (12 + opts_bytes os :: u32) = 12 + opts_size os"
    using opts_size_bound[OF assms] by (simp add: unat_word_ariths)
  then show ?thesis
    using assms
    by (auto simp: is_segmented_def word_less_nat_alt unat_u8_u32 packet_ok_def plain_packet_def
        segment_packet_def)
qed

lemma parse_option_segmentation:
  assumes "drop (HEADER_BYTES + ps_length s) segment = [1, l, b2, b3] @ rest"
  shows "parse_option segment s = Inr (Inr (s\<lparr>
    ps_header := (ps_header s)\<lparr>f_type := Some UNYTE_TYPE_SEGMENTATION, f_len := Some l,
      f_num := Some (ucast (drop_bit 1 (ntohs (le16 b2 b3)))),
      f_last := Some (if b3 AND 1 = 1 then 1 else 0)\<rparr>,
    ps_length := ps_length s + unat l\<rparr>))"
proof -
  let ?k = "HEADER_BYTES + ps_length s"
  have d0: "drop ?k segment = 1 # l # b2 # b3 # rest" using assms by simp
  have d1: "drop (?k + 1) segment = l # b2 # b3 # rest" using drop_ConsD(3)[OF d0] by simp
  have d2: "drop (?k + 2) segment = b2 # b3 # rest" using drop_ConsD(3)[OF d1] by simp
  have d3: "drop (?k + 3) segment = b3 # rest" using drop_ConsD(3)[OF d2] by (simp add: numeral_eq_Suc)
  have "read_range segment (?k + 2) 2 = Inr [b2, b3]"
    using d2 drop_ConsD(1)[OF d2] by (intro read_range_drop) simp_all
  then show ?thesis
    using read_byte_drop[OF d0] read_byte_drop[OF d1] read_byte_drop[OF d3]
    unfolding parse_option_def Let_def deserialize_uint16_def by simp
qed

lemma parse_option_segmentation_back:
  assumes "unat n < 128"
    and "drop (HEADER_BYTES + ps_length s) segment =
      [1, 4, ucast (drop_bit 8 n), push_bit 1 (ucast n) + ucast l] @ rest"
  shows "parse_option segment s = Inr (Inr (s\<lparr>
    ps_header := (ps_header s)\<lparr>f_type := Some UNYTE_TYPE_SEGMENTATION, f_len := Some 4,
      f_num := Some n, f_last := Some l\<rparr>,
    ps_length := ps_length s + 4\<rparr>))"
  using parse_option_segmentation[OF assms(2)]
  unfolding seg_number_back[OF assms(1)] seg_last_back[OF assms(1)] by simp

text \<open>The bytes of a packet: fixed header, segmentation option, custom options, payload.\<close>

definition segmentation_bytes :: "unyte_header \<Rightarrow> bytes" where
  "segmentation_bytes h =
     (case (f_num h, f_last h) of
        (Some n, Some l) \<Rightarrow> [1, 4, ucast (drop_bit 8 n), push_bit 1 (ucast n) + ucast l]
      | _ \<Rightarrow> [])"

definition packet_bytes :: "unyte_seg_met \<Rightarrow> unyte_option list \<Rightarrow> bytes" where
  "packet_bytes seg os =
     serialize_fixed_header (header seg)
       (ucast (header_length (header seg)) + ucast (message_length (header seg))) @
     segmentation_bytes (header seg) @ concat (map option_bytes os) @ payload seg"

lemma packet_kind:
  assumes "packet_ok seg os"
  shows "(if segment_packet seg os
      then serialize_segmentation (header seg) = Inr (segmentation_bytes (header seg)) \<and>
        length (segmentation_bytes (header seg)) = 4
      else segmentation_bytes (header seg) = []) \<and>
    unat (header_length (header seg)) =
      HEADER_BYTES + length (segmentation_bytes (header seg)) + opts_size os"
  using assms
  by (auto simp: packet_ok_def plain_packet_def segment_packet_def segmentation_bytes_def
      serialize_segmentation_def split: option.splits)

lemma length_packet_bytes:
  assumes "packet_ok seg os"
  shows "length (packet_bytes seg os) =
    unat (header_length (header seg)) + unat (message_length (header seg))"
  using assms packet_kind[OF assms]
  by (simp add: packet_bytes_def serialize_fixed_header_def packet_ok_def length_option_bytes
      del: length_concat)

lemma serialize_packet:
  assumes "packet_ok seg os"
  shows "serialize_message seg [] = Inr (packet_bytes seg os, [])"
proof -
  let ?h = "header seg"
  let ?n = "of_nat HEADER_BYTES + opts_bytes os + ucast (message_length ?h) +
    (if segment_packet seg os then of_nat UNYTE_SEGMENTATION_OPTION_LEN else 0) :: u32"
  have ok: "options ?h = Some os" "list_all wf_option os"
    "length (payload seg) = unat (message_length ?h)"
    using assms by (auto simp: packet_ok_def)
  have u: "unat (ucast (message_length ?h) :: u32) = unat (message_length ?h)"
    using u16_less[of "message_length ?h"] by (simp add: unat_ucast_small)
  note k = packet_kind[OF assms] and b = opts_size_bound[OF assms]
  have size: "unat ?n = unat (header_length ?h) + unat (message_length ?h)"
    using k b u u16_less[of "message_length ?h"]
    by (auto simp: unat_word_ariths split: if_splits)
  then have n: "?n = ucast (header_length ?h) + ucast (message_length ?h)"
    using u u8_less[of "header_length ?h"] u16_less[of "message_length ?h"]
    by (simp only: word_unat_eq_iff) (simp add: unat_word_ariths unat_u8_u32)
  have seg: "(if segment_packet seg os then serialize_segmentation ?h else Inr []) =
      Inr (segmentation_bytes ?h)"
    using k by (simp split: if_splits)
  have len: "length (packet_bytes seg os) =
      unat (ucast (header_length ?h) + ucast (message_length ?h) :: u32)"
    using length_packet_bytes[OF assms] size unfolding n by simp
  show ?thesis
    unfolding serialize_message_def options_total_bytes_def Let_def ok(1) option.case
      bind_fault_simps packet_is_segmented[OF assms] malloc.simps prod.case n seg
    using ok len by (simp add: serialize_options_wf packet_bytes_def del: length_concat)
qed

text \<open>The payload is found where the parser looks for it.\<close>

lemma finish_packet:
  assumes "packet_ok seg os"
  shows "finish_segment (packet_bytes seg os @ junk) um ((header seg)\<lparr>space := 0, message_length :=
      ucast (ucast (header_length (header seg)) + ucast (message_length (header seg)) :: u32),
      options := Some os\<rparr>) [] = Inr (Some (received um seg), [])"
proof -
  let ?h = "header seg"
  let ?n = "ucast (header_length ?h) + ucast (message_length ?h) :: u32"
  have opt: "options ?h = Some os" and len: "length (payload seg) = unat (message_length ?h)"
    and lt: "unat (header_length ?h) + unat (message_length ?h) < 65536"
    using assms by (simp_all add: packet_ok_def)
  have n: "(ucast ?n :: u16) = message_length ?h + ucast (header_length ?h)"
    and un: "unat (message_length ?h + ucast (header_length ?h)) =
      unat (header_length ?h) + unat (message_length ?h)"
    using lt u8_less[of "header_length ?h"]
    by (simp_all add: word_unat_eq_iff unat_word_ariths unat_ucast_small)
  let ?pre = "serialize_fixed_header ?h ?n @ segmentation_bytes ?h @ concat (map option_bytes os)"
  have pre: "length ?pre = unat (header_length ?h)"
    using length_packet_bytes[OF assms] len by (simp add: packet_bytes_def)
  have b: "packet_bytes seg os @ junk = ?pre @ payload seg @ junk"
    by (simp add: packet_bytes_def)
  have rd: "read_range (packet_bytes seg os @ junk) (unat (header_length ?h))
      (unat (message_length ?h)) = Inr (payload seg)"
    unfolding b by (rule read_range_middle[OF pre len])
  show ?thesis
    unfolding n using opt rd un
    by (cases ?h) (simp add: finish_segment_def uint_size_simps received_def)
qed

lemma parse_packet:
  assumes "packet_ok seg os"
  shows "parse_with_metadata (packet_bytes seg os @ junk) um [] =
    Some (Inr (Some (received um seg), []))"
proof -
  let ?h = "header seg" and ?b = "packet_bytes seg os @ junk"
  let ?n = "ucast (header_length ?h) + ucast (message_length ?h) :: u32"
  let ?hz = "?h\<lparr>space := 0, message_length := ucast ?n, f_type := None, f_len := None,
      f_num := None, f_last := None, options := Some []\<rparr>"
  let ?sz = "\<lparr>ps_header = ?hz, ps_options = [], ps_length = 0, ps_allocs = []\<rparr>"
  let ?ol = "length (segmentation_bytes ?h)"
  let ?st = "?sz\<lparr>ps_header := ?h\<lparr>space := 0, message_length := ucast ?n, options := Some []\<rparr>,
      ps_length := ?ol\<rparr>"
  note k = packet_kind[OF assms]
  have b: "?b = serialize_fixed_header ?h ?n @ segmentation_bytes ?h @
      concat (map option_bytes os) @ payload seg @ junk"
    by (simp add: packet_bytes_def)
  have "length (serialize_fixed_header ?h ?n) = HEADER_BYTES"
    by (simp add: serialize_fixed_header_def)
  then have d0: "drop HEADER_BYTES ?b = segmentation_bytes ?h @ concat (map option_bytes os) @
      payload seg @ junk"
    unfolding b by simp
  then have d1: "drop (HEADER_BYTES + ?ol) ?b = concat (map option_bytes os) @ payload seg @ junk"
    unfolding drop_drop[symmetric] add.commute[of HEADER_BYTES] by simp
  have step: "parse_options ?b ?sz = parse_options ?b ?st"
  proof (cases "segment_packet seg os")
    case True
    then obtain n l where f: "f_num ?h = Some n" "f_last ?h = Some l" "f_type ?h = Some 1"
        "f_len ?h = Some 4" "unat n < 128" and hl: "12 < unat (header_length ?h)"
      by (auto simp: segment_packet_def split: option.splits)
    have sb: "segmentation_bytes ?h = [1, 4, ucast (drop_bit 8 n), push_bit 1 (ucast n) + ucast l]"
      using f by (simp only: segmentation_bytes_def option.case prod.case)
    have "parse_option ?b ?sz = Inr (Inr (?sz\<lparr>ps_header := ?hz\<lparr>f_type := Some 1,
        f_len := Some 4, f_num := Some n, f_last := Some l\<rparr>, ps_length := 4\<rparr>))"
      using parse_option_segmentation_back[OF f(5), of ?sz ?b l] d0[unfolded sb] by simp
    also have "\<dots> = Inr (Inr ?st)"
      using f by (cases ?h) (simp add: segmentation_bytes_def)
    finally have "parse_option ?b ?sz = Inr (Inr ?st)" .
    with hl show ?thesis by (simp add: parse_options.simps[of ?b ?sz])
  next
    case False
    with assms have "f_type ?h = None" "f_len ?h = None" "f_num ?h = None" "f_last ?h = None"
      by (auto simp: packet_ok_def plain_packet_def)
    then have "?sz = ?st" by (cases ?h) (simp add: segmentation_bytes_def)
    then show ?thesis by (simp only:)
  qed
  have opts: "parse_options ?b ?st =
      Some (Inr (Inr (?st\<lparr>ps_options := os, ps_length := ?ol + opts_size os\<rparr>)))"
    using parse_options_wf[of os ?st ?b "payload seg @ junk"] assms k d1
    by (simp add: packet_ok_def)
  have fixed: "parse_fixed_header ?b = Inr ?hz"
    unfolding b by (rule parse_fixed_back)
  have fin: "finish_segment ?b um (?h\<lparr>space := 0, message_length := ucast ?n, options := Some os\<rparr>) []
      = Inr (Some (received um seg), [])"
    by (rule finish_packet[OF assms])
  show ?thesis
    using fixed step opts fin
    by (simp add: parse_with_metadata_def malloc3_def)
qed

text \<open>
  C4. Round trip of a packet. A packet that the wire format can carry is serialised to exactly
  its header length plus its payload length, and a receive buffer that starts with these bytes,
  whatever follows them, is parsed back to the same header fields, options and payload. The
  parsed message length is that of the datagram, and the space bit is lost.
\<close>

theorem packet_roundtrip:
  assumes "packet_ok seg os"
  shows "\<exists>bytes. serialize_message seg [] = Inr (bytes, []) \<and>
    length bytes = unat (header_length (header seg)) + unat (message_length (header seg)) \<and>
    (\<forall>junk um. parse_with_metadata (bytes @ junk) um [] =
      Some (Inr (Some (received um seg), [])))"
  using serialize_packet[OF assms] length_packet_bytes[OF assms] parse_packet[OF assms] by blast

definition sample_option :: unyte_option where
  "sample_option = \<lparr>opt_type = 3, opt_length = 4, opt_data = [65, 66]\<rparr>"

definition sample_sent :: unyte_seg_met where
  "sample_sent =
     \<lparr>metadata = no_metadata,
      header = \<lparr>version = 1, space = 1, media_type = 1, header_length = 20, message_length = 2,
        observation_domain_id = 7, message_id = 9, f_type = Some 1, f_len = Some 4,
        f_num = Some 127, f_last = Some 1, options = Some [sample_option]\<rparr>,
      payload = [104, 105]\<rparr>"

theorem packet_roundtrip_witness:
  "\<exists>bytes. serialize_message sample_sent [] = Inr (bytes, []) \<and> length bytes = 22 \<and>
    parse_with_metadata (bytes @ [1, 2, 3]) sample_min [] =
      Some (Inr (Some (received sample_min sample_sent), []))"
proof -
  have "packet_ok sample_sent [sample_option]"
    by (simp add: packet_ok_def segment_packet_def sample_sent_def wf_option_def sample_option_def)
  from packet_roundtrip[OF this] show ?thesis
    by (auto simp: sample_sent_def)
qed

section \<open>Cutting a message\<close>

definition segment_of ::
  "unyte_message \<Rightarrow> u32 \<Rightarrow> unyte_option list \<Rightarrow> u32 \<Rightarrow> nat \<Rightarrow> unyte_seg_met \<Rightarrow> bool" where
  "segment_of msg ohb oh n j seg \<longleftrightarrow>
     metadata seg = no_metadata \<and>
     header seg = segment_header msg ohb n (of_nat j) (of_nat (length (payload seg)))
       (Some (if j = 0 then oh else []))"

lemma segment_of_built:
  assumes "length p = unat b"
  shows "segment_of msg ohb oh n j \<lparr>metadata = no_metadata,
    header = segment_header msg ohb n (of_nat j) b (Some (if j = 0 then oh else [])), payload = p\<rparr>"
  unfolding segment_of_def by (simp add: assms)

lemma build_segments_step:
  assumes "unat copy_it + unat (bytes_to_send msg u ohb i copy_it) \<le> length (msg_buffer msg)"
    and "build_segments msg u ohb oh n k (i + 1) (copy_it + bytes_to_send msg u ohb i copy_it) [] =
      Inr (Some segs, [])"
  shows "build_segments msg u ohb oh n (Suc k) i copy_it [] = Inr (Some (
    \<lparr>metadata = no_metadata,
     header = segment_header msg ohb n i (bytes_to_send msg u ohb i copy_it)
       (Some (if i = 0 then oh else [])),
     payload = take (unat (bytes_to_send msg u ohb i copy_it)) (drop (unat copy_it) (msg_buffer msg))\<rparr>
    # segs), [])"
  using assms by (cases "i = 0") (simp_all add: Let_def build_message_empty_options_def)

lemma build_segments_rest:
  assumes "0 < j" "j + k = unat n" "unat copy_it \<le> unat (buffer_len msg)"
    and "unat (buffer_len msg) - unat copy_it \<le> k * unat u"
    and "unat (buffer_len msg) \<le> length (msg_buffer msg)"
  shows "\<exists>segs. build_segments msg u ohb oh n k (of_nat j) copy_it [] = Inr (Some segs, []) \<and>
    length segs = k \<and>
    concat (map payload segs) =
      take (unat (buffer_len msg) - unat copy_it) (drop (unat copy_it) (msg_buffer msg)) \<and>
    (\<forall>i<k. segment_of msg ohb oh n (j + i) (segs ! i) \<and> length (payload (segs ! i)) \<le> unat u)"
  using assms
proof (induction k arbitrary: j copy_it)
  case 0
  then show ?case by simp
next
  case (Suc k)
  let ?i = "of_nat j :: u32" and ?b = "bytes_to_send msg u ohb (of_nat j) copy_it"
  let ?L = "unat (buffer_len msg)"
  have j: "j < 4294967296" using Suc.prems(2) u32_less[of n] by simp
  then have i: "unat ?i = j" by (simp add: unat_of_nat_small)
  then have i0: "?i \<noteq> 0" using Suc.prems(1) by auto
  have rest: "unat (buffer_len msg - copy_it) = ?L - unat copy_it"
    using Suc.prems(3) by (simp add: unat_sub word_le_nat_alt)
  have b: "unat ?b = min (?L - unat copy_it) (unat u)"
    using i0 rest by (auto simp: bytes_to_send_def Let_def word_less_nat_alt)
  have c: "unat (copy_it + ?b) = unat copy_it + unat ?b"
    using b Suc.prems(3) u32_less[of "buffer_len msg"] by (simp add: unat_word_ariths)
  have "\<exists>segs. build_segments msg u ohb oh n k (of_nat (Suc j)) (copy_it + ?b) [] =
      Inr (Some segs, []) \<and> length segs = k \<and>
    concat (map payload segs) =
      take (?L - unat (copy_it + ?b)) (drop (unat (copy_it + ?b)) (msg_buffer msg)) \<and>
    (\<forall>i<k. segment_of msg ohb oh n (Suc j + i) (segs ! i) \<and> length (payload (segs ! i)) \<le> unat u)"
    using Suc.prems b c by (intro Suc.IH) auto
  then obtain segs where segs: "build_segments msg u ohb oh n k (?i + 1) (copy_it + ?b) [] =
      Inr (Some segs, [])" "length segs = k"
    "concat (map payload segs) =
      take (?L - unat (copy_it + ?b)) (drop (unat (copy_it + ?b)) (msg_buffer msg))"
    "\<forall>i<k. segment_of msg ohb oh n (Suc j + i) (segs ! i) \<and> length (payload (segs ! i)) \<le> unat u"
    by (auto simp: add.commute)
  let ?s = "\<lparr>metadata = no_metadata, header = segment_header msg ohb n ?i ?b (Some []),
     payload = take (unat ?b) (drop (unat copy_it) (msg_buffer msg))\<rparr>"
  have in_buf: "unat copy_it + unat ?b \<le> length (msg_buffer msg)"
    using Suc.prems(3,5) b by simp
  have run: "build_segments msg u ohb oh n (Suc k) ?i copy_it [] = Inr (Some (?s # segs), [])"
    using build_segments_step[OF in_buf segs(1)] i0 by simp
  have len: "length (payload ?s) = unat ?b" using in_buf by simp
  have hd: "segment_of msg ohb oh n j ?s"
    using segment_of_built[of "payload ?s" ?b msg ohb oh n j] len Suc.prems(1) by simp
  have sz: "length (payload ?s) \<le> unat u" unfolding len b by simp
  have "concat (map payload (?s # segs)) =
      take (?L - unat copy_it) (drop (unat copy_it) (msg_buffer msg))"
  proof -
    have L: "?L - unat copy_it = unat ?b + (?L - unat (copy_it + ?b))"
      using b c Suc.prems(3) by (simp add: min_def)
    show ?thesis
      using segs(3) by (subst L, subst take_add) (simp add: c add.commute)
  qed
  with run hd sz segs show ?case
    by (intro exI[of _ "?s # segs"]) (auto simp: nth_Cons split: nat.splits)
qed

text \<open>The options as they are sent.\<close>

definition built_option :: "unyte_send_option \<Rightarrow> unyte_option" where
  "built_option o' = \<lparr>opt_type = so_type o', opt_length = so_data_length o' + 2,
     opt_data = take (unat (so_data_length o')) (so_data o')\<rparr>"

definition sent_options :: "unyte_message \<Rightarrow> unyte_option list" where
  "sent_options msg = map built_option (take (unat (options_len msg)) (msg_options msg))"

definition good_send_option :: "unyte_send_option \<Rightarrow> bool" where
  "good_send_option o' \<longleftrightarrow> so_type o' \<noteq> UNYTE_TYPE_SEGMENTATION \<and>
     unat (so_data_length o') \<le> length (so_data o') \<and> unat (so_data_length o') < 254"

text \<open>
  Messages the builder is meant for: the lengths given are those of the buffers, an option fits
  its one-byte length, and the options fit the header length and the first packet.
\<close>

definition good_message :: "unyte_message \<Rightarrow> u32 \<Rightarrow> bool" where
  "good_message msg mtu \<longleftrightarrow>
     unat (buffer_len msg) \<le> length (msg_buffer msg) \<and>
     unat (options_len msg) \<le> length (msg_options msg) \<and>
     list_all good_send_option (msg_options msg) \<and>
     opts_size (sent_options msg) < 240 \<and>
     unat (buffer_len msg) + opts_size (sent_options msg) + HEADER_BYTES < 4294967296 \<and>
     16 < unat mtu \<and> unat mtu \<le> 65535 \<and>
     (unat mtu < HEADER_BYTES + opts_size (sent_options msg) + unat (buffer_len msg) \<longrightarrow>
        opts_size (sent_options msg) \<le> unat mtu - 16 \<and>
        opts_size (sent_options msg) \<le> unat (buffer_len msg))"

lemma built_option_wf: "good_send_option o' \<Longrightarrow> wf_option (built_option o')"
  by (simp add: good_send_option_def wf_option_def built_option_def unat_word_ariths)

lemma sent_options_wf:
  "list_all good_send_option (msg_options msg) \<Longrightarrow> list_all wf_option (sent_options msg)"
  by (auto simp: sent_options_def list_all_iff intro: built_option_wf dest: in_set_takeD)

lemma build_options_good:
  assumes "list_all good_send_option opts" "i + k \<le> length opts"
  shows "build_options opts i k built [] =
    Inr (Some (built @ map built_option (take k (drop i opts))), [])"
  using assms(2)
proof (induction k arbitrary: i built)
  case 0
  then show ?case by simp
next
  case (Suc k)
  have "good_send_option (opts ! i)" using assms(1) Suc.prems by (simp add: list_all_length)
  then have "unat (so_data_length (opts ! i)) \<le> length (so_data (opts ! i))"
    by (simp add: good_send_option_def)
  moreover have "drop i opts = opts ! i # drop (Suc i) opts"
    using Suc.prems by (simp add: Cons_nth_drop_Suc)
  ultimately show ?case
    using Suc.prems by (simp add: Suc.IH built_option_def)
qed

lemma build_message_options_good:
  assumes "good_message msg mtu"
  shows "build_message_options (msg_options msg) (options_len msg) [] =
    Inr (Some (sent_options msg), [])"
  using assms
  by (simp add: build_message_options_def build_message_empty_options_def build_options_good
      good_message_def sent_options_def)


text \<open>All the packets of a segmented message.\<close>

lemma build_segments_all:
  assumes "unat ohb \<le> unat (buffer_len msg)" "unat ohb \<le> unat u" "1 < unat n"
    and "unat (buffer_len msg) + unat ohb \<le> unat n * unat u"
    and "unat (buffer_len msg) \<le> length (msg_buffer msg)"
  shows "\<exists>segs. build_segments msg u ohb oh n (unat n) 0 0 [] = Inr (Some segs, []) \<and>
    length segs = unat n \<and>
    concat (map payload segs) = take (unat (buffer_len msg)) (msg_buffer msg) \<and>
    (\<forall>i<unat n. segment_of msg ohb oh n i (segs ! i) \<and>
      length (payload (segs ! i)) + (if i = 0 then unat ohb else 0) \<le> unat u)"
proof -
  let ?L = "unat (buffer_len msg)" and ?b = "bytes_to_send msg u ohb 0 0"
  have b: "unat ?b = min ?L (unat u) - unat ohb"
    using assms(1,2)
    by (auto simp: bytes_to_send_def Let_def word_less_nat_alt unat_sub word_le_nat_alt
        word_gt_0 unat_eq_0)
  have in_buf: "unat 0 + unat ?b \<le> length (msg_buffer msg)" using b assms(5) by simp
  obtain k where k: "unat n = Suc k" "0 < k" using assms(3) by (cases "unat n") auto
  have "?L - unat ?b \<le> k * unat u"
  proof (cases "?L \<le> unat u")
    case True
    then have "?L - unat ?b \<le> unat u" using b assms(1,2) by simp
    also have "\<dots> \<le> k * unat u" using k(2) by (cases k) auto
    finally show ?thesis .
  next
    case False
    then show ?thesis using b assms(2,4) k(1) by simp
  qed
  moreover have le: "unat ?b \<le> ?L" using b by (auto simp: min_def)
  ultimately obtain segs where segs:
    "build_segments msg u ohb oh n k (0 + 1) (0 + ?b) [] = Inr (Some segs, [])" "length segs = k"
    "concat (map payload segs) = take (?L - unat ?b) (drop (unat ?b) (msg_buffer msg))"
    "\<forall>i<k. segment_of msg ohb oh n (1 + i) (segs ! i) \<and> length (payload (segs ! i)) \<le> unat u"
    using build_segments_rest[of 1 k n ?b msg u ohb oh] k assms(5) by auto
  let ?s = "\<lparr>metadata = no_metadata, header = segment_header msg ohb n 0 ?b (Some oh),
     payload = take (unat ?b) (msg_buffer msg)\<rparr>"
  have run: "build_segments msg u ohb oh n (Suc k) 0 0 [] = Inr (Some (?s # segs), [])"
    using build_segments_step[OF in_buf segs(1)] by simp
  have len: "length (payload ?s) = unat ?b" using in_buf by simp
  have hd: "segment_of msg ohb oh n 0 ?s"
    using segment_of_built[of "payload ?s" ?b msg ohb oh n 0] len by simp
  have sz: "length (payload ?s) + unat ohb \<le> unat u" unfolding len b using assms(1,2) by simp
  have "concat (map payload (?s # segs)) = take ?L (msg_buffer msg)"
  proof -
    have L: "?L = unat ?b + (?L - unat ?b)" using le by simp
    show ?thesis using segs(3) by (subst L, subst take_add) simp
  qed
  with run hd sz segs k show ?thesis
    by (intro exI[of _ "?s # segs"]) (auto simp: nth_Cons split: nat.splits)
qed

definition segments_needed :: "nat \<Rightarrow> nat \<Rightarrow> nat" where
  "segments_needed len u = len div u + (if len mod u = 0 then 0 else 1)"

lemma segments_needed_bounds:
  assumes "0 < u"
  shows "len \<le> segments_needed len u * u" "segments_needed len u \<le> Suc len"
    "u < len \<Longrightarrow> 1 < segments_needed len u"
proof -
  have d: "len = u * (len div u) + len mod u" by simp
  have lt: "len mod u < u" using assms by simp
  have "len \<le> u * (len div u) + u" "len mod u = 0 \<Longrightarrow> len \<le> u * (len div u)"
    using d lt by linarith+
  then show "len \<le> segments_needed len u * u"
    by (auto simp: segments_needed_def algebra_simps)
  then show "1 < segments_needed len u" if "u < len"
    using that by (cases "segments_needed len u \<le> 1") (auto simp: le_Suc_eq)
  have "len div u \<le> len" by (rule div_le_dividend)
  then show "segments_needed len u \<le> Suc len" by (simp add: segments_needed_def del: div_le_dividend)
qed

lemma packets_to_send_count:
  assumes "unat message_len + HEADER_BYTES < 4294967296" "16 < unat mtu"
  shows "packets_to_send mtu message_len = Inr (if unat message_len + HEADER_BYTES \<le> unat mtu then 1
    else of_nat (segments_needed (unat message_len) (unat mtu - 16)))"
proof -
  let ?u = "mtu - of_nat HEADER_BYTES - of_nat UNYTE_SEGMENTATION_OPTION_LEN :: u32"
  have "?u = mtu - 16" by simp
  then have u: "unat ?u = unat mtu - 16" "?u \<noteq> 0"
    using assms(2) by (auto simp: unat_sub word_le_nat_alt)
  have gt: "message_len + of_nat HEADER_BYTES > mtu \<longleftrightarrow> \<not> unat message_len + HEADER_BYTES \<le> unat mtu"
    using assms(1) by (simp add: word_less_nat_alt unat_word_ariths not_le)
  have "message_len mod ?u = 0 \<longleftrightarrow> unat message_len mod unat ?u = 0"
    by (simp add: unat_mod_distrib[symmetric] unat_eq_0)
  then have "message_len div ?u + (if message_len mod ?u \<noteq> 0 then 1 else 0) =
      of_nat (segments_needed (unat message_len) (unat ?u))"
    by (simp add: segments_needed_def word_arith_nat_div)
  with u gt show ?thesis
    unfolding packets_to_send_def Let_def by simp
qed


text \<open>What the packets of a message look like, plain or segmented.\<close>

lemma build_message_plain:
  assumes good: "good_message msg mtu"
    and fits: "HEADER_BYTES + opts_size (sent_options msg) + unat (buffer_len msg) \<le> unat mtu"
  shows "build_message msg mtu [] = Inr (Some [\<lparr>metadata = no_metadata,
    header = plain_header msg (opts_bytes (sent_options msg)) (sent_options msg),
    payload = take (unat (buffer_len msg)) (msg_buffer msg)\<rparr>], [])"
proof -
  let ?os = "sent_options msg"
  have o: "unat (opts_bytes ?os) = opts_size ?os"
    using good by (intro unat_opts_bytes) (simp add: good_message_def)
  have m: "unat (opts_bytes ?os + buffer_len msg) = opts_size ?os + unat (buffer_len msg)"
    using good o by (simp add: good_message_def unat_word_ariths)
  have n: "packets_to_send mtu (opts_bytes ?os + buffer_len msg) = Inr 1"
    using packets_to_send_count[of "opts_bytes ?os + buffer_len msg" mtu] m good fits
    by (simp add: good_message_def)
  show ?thesis
    unfolding build_message_def using good n
    by (simp add: build_message_options_good[OF good] options_total_bytes_def Let_def)
      (simp add: good_message_def)
qed

lemma build_message_segmented:
  assumes good: "good_message msg mtu"
    and big: "unat mtu < HEADER_BYTES + opts_size (sent_options msg) + unat (buffer_len msg)"
  defines "N \<equiv> segments_needed (opts_size (sent_options msg) + unat (buffer_len msg)) (unat mtu - 16)"
  shows "\<exists>segs. build_message msg mtu [] = Inr (Some segs, []) \<and> length segs = N \<and> 1 < N \<and>
    N < 4294967296 \<and>
    concat (map payload segs) = take (unat (buffer_len msg)) (msg_buffer msg) \<and>
    (\<forall>i<N. segment_of msg (opts_bytes (sent_options msg)) (sent_options msg) (of_nat N) i (segs ! i) \<and>
      length (payload (segs ! i)) + (if i = 0 then opts_size (sent_options msg) else 0) + 16
        \<le> unat mtu)"
proof -
  let ?os = "sent_options msg"
  let ?u = "mtu - of_nat HEADER_BYTES - of_nat UNYTE_SEGMENTATION_OPTION_LEN :: u32"
  have o: "unat (opts_bytes ?os) = opts_size ?os"
    using good by (intro unat_opts_bytes) (simp add: good_message_def)
  have m: "unat (opts_bytes ?os + buffer_len msg) = opts_size ?os + unat (buffer_len msg)"
    using good o by (simp add: good_message_def unat_word_ariths)
  have u: "unat ?u = unat mtu - 16"
    using good by (simp add: good_message_def unat_sub word_le_nat_alt)
  have pos: "0 < unat mtu - 16" using good by (simp add: good_message_def)
  have gt: "unat mtu - 16 < opts_size ?os + unat (buffer_len msg)" using big pos by linarith
  note N = segments_needed_bounds[OF pos, of "opts_size ?os + unat (buffer_len msg)", folded N_def]
  have N1: "1 < N" using N(3) gt by simp
  have N32: "N < 4294967296" using N(2) good by (simp add: good_message_def)
  then have uN: "unat (of_nat N :: u32) = N" by (simp add: unat_of_nat_small)
  then have n1: "(of_nat N :: u32) \<noteq> 1" using N1 by (metis less_irrefl unsigned_1)
  have n: "packets_to_send mtu (opts_bytes ?os + buffer_len msg) = Inr (of_nat N)"
    using packets_to_send_count[of "opts_bytes ?os + buffer_len msg" mtu] m good big
    by (simp add: good_message_def N_def)
  have run: "build_message msg mtu [] =
      build_segments msg ?u (opts_bytes ?os) ?os (of_nat N) N 0 0 []"
    unfolding build_message_def using n n1 uN
    by (simp add: build_message_options_good[OF good] options_total_bytes_def Let_def
      del: of_nat_numeral)
  have "\<exists>segs. build_segments msg ?u (opts_bytes ?os) ?os (of_nat N) (unat (of_nat N :: u32)) 0 0 [] =
      Inr (Some segs, []) \<and> length segs = unat (of_nat N :: u32) \<and>
    concat (map payload segs) = take (unat (buffer_len msg)) (msg_buffer msg) \<and>
    (\<forall>i<unat (of_nat N :: u32). segment_of msg (opts_bytes ?os) ?os (of_nat N) i (segs ! i) \<and>
      length (payload (segs ! i)) + (if i = 0 then unat (opts_bytes ?os) else 0) \<le> unat ?u)"
    using good big N N1 uN u o by (intro build_segments_all) (simp_all add: good_message_def add.commute)
  then show ?thesis
    unfolding run uN u o using N1 N32 pos by (auto simp: le_diff_conv2)
qed


lemma ucast_u32_of_nat: "(ucast (of_nat i :: u32) :: 31 word) = of_nat i"
  by (rule bit_word_eqI) (simp add: bit_simps)

lemma segment_of_fields:
  assumes "segment_of msg ohb oh n i seg" "i < unat n"
    and "length (payload seg) < 65536" "unat ohb < 240"
  shows "unat (header_length (header seg)) = 16 + (if i = 0 then unat ohb else 0)"
    "unat (message_length (header seg)) = length (payload seg)"
    "f_num (header seg) = Some (of_nat i)"
    "f_last (header seg) = Some (if Suc i = unat n then 1 else 0)"
    "options (header seg) = Some (if i = 0 then oh else [])"
proof -
  have i: "unat (of_nat i :: u32) = i"
    using assms(2) u32_less[of n] by (simp add: unat_of_nat_small)
  then have i0: "(of_nat i :: u32) = 0 \<longleftrightarrow> i = 0" by (simp add: word_unat_eq_iff)
  have "unat (n - 1) = unat n - 1" using assms(2) by (simp add: unat_sub word_le_nat_alt)
  then have last: "(of_nat i :: u32) = n - 1 \<longleftrightarrow> Suc i = unat n"
    using assms(2) i by (auto simp: word_unat_eq_iff)
  note h = assms(1)[unfolded segment_of_def segment_header_def]
  show "unat (header_length (header seg)) = 16 + (if i = 0 then unat ohb else 0)"
    using h i0 assms(4) by (simp add: unat_word_ariths unat_ucast_small)
  show "unat (message_length (header seg)) = length (payload seg)"
    using h assms(3) by (simp add: unat_ucast_small unat_of_nat_small)
  show "f_num (header seg) = Some (of_nat i)" using h by (simp add: ucast_u32_of_nat)
  show "options (header seg) = Some (if i = 0 then oh else [])" using h by simp
  show "f_last (header seg) = Some (if Suc i = unat n then 1 else 0)" using h last by simp
qed

text \<open>What packet \<open>i\<close> of \<open>n\<close> promises.\<close>

definition packet_of_message :: "unyte_message \<Rightarrow> u32 \<Rightarrow> nat \<Rightarrow> nat \<Rightarrow> unyte_seg_met \<Rightarrow> bool" where
  "packet_of_message msg mtu n i seg \<longleftrightarrow>
     unat (header_length (header seg)) + unat (message_length (header seg)) \<le> unat mtu \<and>
     unat (message_length (header seg)) = length (payload seg) \<and>
     version (header seg) = msg_version msg \<and> media_type (header seg) = msg_media_type msg \<and>
     observation_domain_id (header seg) = msg_observation_domain_id msg \<and>
     message_id (header seg) = msg_message_id msg \<and>
     options (header seg) = Some (if i = 0 then sent_options msg else []) \<and>
     (n = 1 \<longrightarrow> f_num (header seg) = None) \<and>
     (1 < n \<longrightarrow> f_num (header seg) = Some (of_nat i) \<and>
       f_last (header seg) = Some (if Suc i = n then 1 else 0))"

lemma segment_of_packet:
  assumes "segment_of msg (opts_bytes (sent_options msg)) (sent_options msg) (of_nat n) i seg"
    and "i < n" "n < 4294967296" "good_message msg mtu" "1 < n"
    and sz: "length (payload seg) + (if i = 0 then opts_size (sent_options msg) else 0) + 16 \<le> unat mtu"
  shows "packet_of_message msg mtu n i seg"
    and "n \<le> 128 \<Longrightarrow> packet_ok seg (if i = 0 then sent_options msg else [])"
proof -
  let ?os = "sent_options msg"
  have o: "unat (opts_bytes ?os) = opts_size ?os" "opts_size ?os < 240"
    using assms(4) by (auto simp: good_message_def intro!: unat_opts_bytes)
  have n: "unat (of_nat n :: u32) = n" using assms(3) by (simp add: unat_of_nat_small)
  have len: "length (payload seg) < 65536" using sz assms(4) by (simp add: good_message_def)
  have i: "i < unat (of_nat n :: u32)" using n assms(2) by simp
  have ohb: "unat (opts_bytes ?os) < 240" using o by simp
  note f = segment_of_fields[OF assms(1) i len ohb, unfolded n o(1)]
  from f sz assms(1,5) show "packet_of_message msg mtu n i seg"
    by (auto simp: packet_of_message_def segment_of_def segment_header_def)
  assume "n \<le> 128"
  then have num: "unat (of_nat i :: 31 word) < 128" using assms(2) by (simp add: unat_of_nat_small)
  have "f_type (header seg) = Some 1" "f_len (header seg) = Some 4"
    using assms(1) by (simp_all add: segment_of_def segment_header_def)
  with f num sz assms(4) show "packet_ok seg (if i = 0 then sent_options msg else [])"
    by (auto simp: packet_ok_def segment_packet_def good_message_def sent_options_wf)
qed

lemma plain_packet_of_message:
  assumes good: "good_message msg mtu"
    and fits: "HEADER_BYTES + opts_size (sent_options msg) + unat (buffer_len msg) \<le> unat mtu"
  defines "seg \<equiv> \<lparr>metadata = no_metadata,
    header = plain_header msg (opts_bytes (sent_options msg)) (sent_options msg),
    payload = take (unat (buffer_len msg)) (msg_buffer msg)\<rparr>"
  shows "packet_of_message msg mtu 1 0 seg" and "packet_ok seg (sent_options msg)"
proof -
  let ?os = "sent_options msg"
  have o: "unat (opts_bytes ?os) = opts_size ?os" "opts_size ?os < 240"
    using good by (auto simp: good_message_def intro!: unat_opts_bytes)
  have h: "unat (header_length (plain_header msg (opts_bytes ?os) ?os)) = HEADER_BYTES + opts_size ?os"
    "unat (message_length (plain_header msg (opts_bytes ?os) ?os)) = unat (buffer_len msg)"
    using fits o good
    by (simp_all add: plain_header_def unat_ucast_small unat_word_ariths good_message_def)
  show "packet_of_message msg mtu 1 0 seg"
    using fits good h by (simp add: packet_of_message_def seg_def good_message_def)
      (simp add: plain_header_def)
  show "packet_ok seg ?os"
    using fits good h sent_options_wf
    by (simp add: packet_ok_def plain_packet_def seg_def good_message_def) (simp add: plain_header_def)
qed

definition packet_count :: "unyte_message \<Rightarrow> u32 \<Rightarrow> nat" where
  "packet_count msg mtu =
     (if HEADER_BYTES + opts_size (sent_options msg) + unat (buffer_len msg) \<le> unat mtu then 1
      else segments_needed (opts_size (sent_options msg) + unat (buffer_len msg)) (unat mtu - 16))"

lemma build_message_packets:
  assumes good: "good_message msg mtu"
  obtains segs where "build_message msg mtu [] = Inr (Some segs, [])"
    "length segs = packet_count msg mtu"
    "concat (map payload segs) = take (unat (buffer_len msg)) (msg_buffer msg)"
    "\<And>i. i < length segs \<Longrightarrow> packet_of_message msg mtu (length segs) i (segs ! i)"
    "\<And>i. length segs \<le> 128 \<Longrightarrow> i < length segs \<Longrightarrow>
      packet_ok (segs ! i) (if i = 0 then sent_options msg else [])"
proof (cases "HEADER_BYTES + opts_size (sent_options msg) + unat (buffer_len msg) \<le> unat mtu")
  case True
  show thesis
    by (rule that[OF build_message_plain[OF good True]])
      (use True plain_packet_of_message[OF good True] in \<open>simp_all add: packet_count_def\<close>)
next
  case False
  then have big: "unat mtu < HEADER_BYTES + opts_size (sent_options msg) + unat (buffer_len msg)"
    by simp
  have n: "segments_needed (opts_size (sent_options msg) + unat (buffer_len msg)) (unat mtu - 16) =
      packet_count msg mtu"
    using False by (simp add: packet_count_def)
  from build_message_segmented[OF good big, unfolded n] obtain segs where
    segs: "build_message msg mtu [] = Inr (Some segs, [])" "length segs = packet_count msg mtu"
    "length segs < 4294967296" "1 < length segs"
    "concat (map payload segs) = take (unat (buffer_len msg)) (msg_buffer msg)"
    and each: "\<And>i. i < length segs \<Longrightarrow> segment_of msg (opts_bytes (sent_options msg))
        (sent_options msg) (of_nat (length segs)) i (segs ! i)"
      "\<And>i. i < length segs \<Longrightarrow> length (payload (segs ! i)) +
        (if i = 0 then opts_size (sent_options msg) else 0) + 16 \<le> unat mtu"
    by auto
  show thesis
    by (rule that[OF segs(1,2,5)]) (use segment_of_packet[OF each(1) _ segs(3) good segs(4) each(2)] in blast)+
qed

text \<open>
  C5. Cutting a message. For a message whose options fit the first packet, and with no failed
  allocation, the packets together carry exactly the buffer, in order; none is longer than the
  MTU, their declared lengths are those of their payloads, their identifiers are those of the
  message, the first carries the custom options, a single one has no segmentation option, and
  when there are several they are numbered from 0 and only the last is marked as last. The number of packets is the least that carries
  the options and the buffer.
\<close>

theorem build_message_partitions:
  assumes "good_message msg mtu"
  shows "\<exists>segs. build_message msg mtu [] = Inr (Some segs, []) \<and>
    length segs = packet_count msg mtu \<and>
    concat (map payload segs) = take (unat (buffer_len msg)) (msg_buffer msg) \<and>
    (\<forall>i<length segs. packet_of_message msg mtu (length segs) i (segs ! i))"
  by (rule build_message_packets[OF assms]) blast

definition sample_message :: unyte_message where
  "sample_message = \<lparr>used_mtu = 20, msg_buffer = [1, 2, 3, 4, 5, 6, 7, 8, 9, 10], buffer_len = 10,
     msg_version = 1, msg_space = 0, msg_media_type = 1, msg_observation_domain_id = 7,
     msg_message_id = 9, msg_options = [\<lparr>so_type = 3, so_data_length = 1, so_data = [65]\<rparr>],
     options_len = 1\<rparr>"

theorem build_message_partitions_witness:
  "good_message sample_message 20 \<and>
   (\<exists>segs. build_message sample_message 20 [] = Inr (Some segs, []) \<and> length segs = 4 \<and>
     concat (map payload segs) = [1, 2, 3, 4, 5, 6, 7, 8, 9, 10])"
proof -
  have g: "good_message sample_message 20"
    by (simp add: good_message_def sample_message_def sent_options_def built_option_def
        good_send_option_def)
  have "packet_count sample_message 20 = 4" by code_simp
  with build_message_partitions[OF g] g show ?thesis by (auto simp: sample_message_def)
qed

section \<open>Where the builder and the wire format fail\<close>

text \<open>The segment number that comes back: bit 7 of the number sent is lost.\<close>

lemma seg_number_on_wire:
  fixes n :: "31 word" and l :: "1 word"
  shows "unat (ucast (drop_bit 1 (ntohs (le16 (ucast (drop_bit 8 n))
      (push_bit 1 (ucast n) + ucast l)))) :: 31 word) =
    unat n div 256 mod 256 * 128 + unat n mod 128"
proof -
  let ?b = "push_bit 1 (ucast n) + ucast l :: u8" and ?c = "ucast (drop_bit 8 n) :: u8"
  have l: "unat l < 2" using unsigned_less[of l] by simp
  have u: "unat (ucast n :: u8) = unat n mod 256" "unat (ucast l :: u8) = unat l"
    using l by (simp_all add: unsigned_ucast_eq take_bit_nat_def)
  have two: "2 * (unat n mod 128) = 2 * unat n mod 256"
    using mult_mod_right[of 2 "unat n" 128] by simp
  have "push_bit 1 (ucast n :: u8) = 2 * ucast n" by (simp add: push_bit_eq_mult)
  then have "unat (push_bit 1 (ucast n) :: u8) = 2 * (unat n mod 128)"
    unfolding two using mod_mult_left_eq[of "unat n" 256 2]
    by (simp add: unat_word_ariths u mult.commute)
  moreover have "unat n mod 128 < 128" by simp
  ultimately have b: "unat ?b = 2 * (unat n mod 128) + unat l"
    using l u by (simp only: unat_word_ariths) (simp del: mod_less_divisor)
  have c: "unat ?c = unat n div 256 mod 256"
    by (simp add: unsigned_ucast_eq take_bit_nat_def unat_drop_bit_eq drop_bit_nat_def)
  have "le16 ?b ?c = ucast ?b + push_bit 8 (ucast ?c)"
    unfolding le16_def by (rule disjunctive_add[symmetric]) (auto simp: bit_simps dest: bit_imp_le_length)
  then have "unat (le16 ?b ?c) = unat ?b + 256 * unat ?c"
    using u8_less[of ?b] u8_less[of ?c]
    by (simp add: push_bit_eq_mult unat_word_ariths unat_ucast_small)
  then have "unat (drop_bit 1 (le16 ?b ?c)) = 128 * unat ?c + unat n mod 128"
    using b l by (simp add: unat_drop_bit_eq drop_bit_nat_def)
  moreover have "128 * unat ?c + unat n mod 128 < 2 ^ LENGTH(31)"
    using u8_less[of ?c] by simp
  ultimately show ?thesis
    unfolding ntohs_le16 by (simp add: unat_ucast_small c)
qed


text \<open>
  C22. The segment number survives the wire exactly when it is below 128. The serialiser shifts
  the number by 8 into one byte and by 1 into the next, so bit 7 is in neither; a message of
  more than 128 segments cannot be put together again.
\<close>

theorem segment_number_survives_iff:
  assumes "serialize_segmentation h = Inr bs" and "f_num h = Some n"
    and "f_type h = Some UNYTE_TYPE_SEGMENTATION"
    and "drop (HEADER_BYTES + ps_length s) segment = bs @ rest"
    and "parse_option segment s = Inr (Inr s')"
  shows "f_num (ps_header s') = f_num h \<longleftrightarrow> unat n < 128"
proof -
  obtain l k where bs: "bs = [1, k, ucast (drop_bit 8 n), push_bit 1 (ucast n) + ucast (l :: 1 word)]"
    using assms(1-3)
    by (auto simp: serialize_segmentation_def simp del: push_bit_eq_mult split: option.splits)
  let ?m = "ucast (drop_bit 1 (ntohs (le16 (ucast (drop_bit 8 n))
      (push_bit 1 (ucast n) + ucast l)))) :: 31 word"
  have "f_num (ps_header s') = Some ?m"
    using parse_option_segmentation[OF assms(4)[unfolded bs]] assms(5) by auto
  then have "f_num (ps_header s') = f_num h \<longleftrightarrow> unat ?m = unat n"
    using assms(2) by (simp add: word_unat_eq_iff)
  also have "\<dots> \<longleftrightarrow> unat n div 256 mod 256 * 128 + unat n mod 128 = unat n"
    by (simp only: seg_number_on_wire)
  also have "\<dots> \<longleftrightarrow> unat n < 128"
  proof
    have q: "unat n div 256 = unat n div 128 div 2" by (simp add: div_mult2_eq[symmetric])
    assume "unat n div 256 mod 256 * 128 + unat n mod 128 = unat n"
    moreover have "unat n = unat n div 128 * 128 + unat n mod 128" by simp
    ultimately have "unat n div 256 mod 256 = unat n div 128" by linarith
    then have "unat n div 128 \<le> unat n div 128 div 2"
      using q mod_less_eq_dividend[of "unat n div 256" 256] by simp
    then have "unat n div 128 = 0" by (cases "unat n div 128") auto
    then show "unat n < 128" by (simp add: div_eq_0_iff)
  qed simp
  finally show ?thesis .
qed


definition late_header :: unyte_header where
  "late_header = (header sample_sent)\<lparr>f_num := Some 128, f_last := Some 0\<rparr>"

definition late_state :: parse_state where
  "late_state = \<lparr>ps_header = late_header\<lparr>f_num := Some 0\<rparr>, ps_options = [], ps_length = 0,
     ps_allocs = []\<rparr>"

theorem segment_number_survives_iff_witness:
  "\<exists>s'. parse_option (replicate 12 0 @ [1, 4, 0, 0]) late_state = Inr (Inr s') \<and>
    f_num late_header = Some 128 \<and> f_num (ps_header s') \<noteq> f_num late_header"
proof -
  have h: "f_num late_header = Some 128" "f_type late_header = Some 1"
    by (simp_all add: late_header_def sample_sent_def)
  have ser: "serialize_segmentation late_header = Inr [1, 4, 0, 0]" by code_simp
  have d: "drop (HEADER_BYTES + ps_length late_state) (replicate 12 0 @ [1, 4, 0, 0]) =
      [1, 4, 0, 0] @ []"
    by (simp add: late_state_def)
  obtain s' where s: "parse_option (replicate 12 0 @ [1, 4, 0, 0]) late_state = Inr (Inr s')"
    using parse_option_segmentation[OF d] by blast
  show ?thesis
    using segment_number_survives_iff[OF ser h d s] s h by (auto simp: unat_eq_0)
qed

text \<open>
  C40. What the builder does not check. An MTU of 16 leaves no room for a payload and divides by
  zero; the options are measured before the check that they were allocated, so a failed
  allocation of their head is a null dereference and not an error return; a failure of the first
  allocation is an error return.
\<close>

theorem build_message_faults:
  "(build_message_options (msg_options msg) (options_len msg) as = Inr (Some os, as1) \<longrightarrow>
     4 < unat (opts_bytes os + buffer_len msg) \<longrightarrow>
     unat (opts_bytes os + buffer_len msg) + HEADER_BYTES < 4294967296 \<longrightarrow>
     build_message msg 16 (True # as) = Inl Div_By_Zero) \<and>
   (build_message_options (msg_options msg) (options_len msg) as = Inr (None, as1) \<longrightarrow>
     build_message msg mtu (True # as) = Inl Null_Deref) \<and>
   build_message msg mtu (False # as) = Inr (None, as)"
proof (intro conjI impI)
  assume o: "build_message_options (msg_options msg) (options_len msg) as = Inr (Some os, as1)"
    and len: "4 < unat (opts_bytes os + buffer_len msg)"
      "unat (opts_bytes os + buffer_len msg) + HEADER_BYTES < 4294967296"
  have "unat (x + of_nat HEADER_BYTES) = unat x + HEADER_BYTES"
    if "unat x + HEADER_BYTES < 4294967296" for x :: u32
    using that by (simp add: unat_word_ariths)
  note this[OF len(2)]
  then have "(16 :: u32) < opts_bytes os + buffer_len msg + of_nat HEADER_BYTES"
    using len(1) unfolding word_less_nat_alt by simp
  then have "packets_to_send 16 (opts_bytes os + buffer_len msg) = Inl Div_By_Zero"
    unfolding packets_to_send_def by simp
  then show "build_message msg 16 (True # as) = Inl Div_By_Zero"
    unfolding build_message_def using o by (simp add: options_total_bytes_def Let_def)
qed (simp_all add: build_message_def options_total_bytes_def)

theorem build_message_faults_witness:
  "build_message sample_message 16 [True] = Inl Div_By_Zero \<and>
   build_message sample_message 20 [True, False] = Inl Null_Deref"
proof -
  have "build_message_options (msg_options sample_message) (options_len sample_message) [] =
      Inr (Some [\<lparr>opt_type = 3, opt_length = 3, opt_data = [65]\<rparr>], [])"
    "build_message_options (msg_options sample_message) (options_len sample_message) [False] =
      Inr (None, [])"
    by code_simp+
  then show ?thesis
    using build_message_faults[of sample_message "[]" _ "[]"]
      build_message_faults[of sample_message "[False]" _ "[]"]
    by (simp add: sample_message_def)
qed

end
