(* ===== verification/Parser.thy ===== *)
theory Parser
  imports Cleanup Monitoring Packet
begin

text \<open>
  The parsing worker of \<^verbatim>\<open>src/parsing_worker.c\<close>: the body of its loop takes one datagram from the
  input queue, parses it, and either passes it to the output queue or stores it in the
  segmentation buffer and passes on the message that became complete.

  The state is the worker's input structure together with \<^verbatim>\<open>max_malloc_errs\<close>, the local
  variable that counts down the allocation errors that are tolerated. The
  time and the outcomes of the allocations are arguments. A step that does not return waits on
  a queue or loops in the parser.
\<close>

section \<open>Data\<close>

record parser_thread_input =
  parser_thread_id :: nat
  p_input :: "unyte_min unyte_udp_queue"
  p_output :: "unyte_seg_met unyte_udp_queue"
  p_segment_buff :: segment_buffer
  p_counters :: seg_counters
  p_monitoring_running :: bool
  p_legacy_proto :: bool
  p_max_malloc_errs :: int

section \<open>Assembled messages\<close>

text \<open>What \<^verbatim>\<open>malloc\<close> leaves in a new address; it is overwritten before it is read.\<close>

definition new_sockaddr :: sockaddr_storage where
  "new_sockaddr = \<lparr>ss_family = 0, ss_port = 0, ss_addr = []\<rparr>"

definition new_header :: unyte_header where
  "new_header = \<lparr>version = 0, space = 0, media_type = 0, header_length = 0, message_length = 0,
     observation_domain_id = 0, message_id = 0, f_type = None, f_len = None, f_num = None,
     f_last = None, options = None\<rparr>"

fun mallocs :: "nat \<Rightarrow> allocs \<Rightarrow> bool \<times> allocs" where
  "mallocs 0 as = (True, as)"
| "mallocs (Suc n) as =
     (let (ok, as1) = malloc as; (oks, as2) = mallocs n as1 in (ok \<and> oks, as2))"

text \<open>
  The total payload size is passed as a 16-bit value; header and message length are truncated
  to their fields. The options are moved out of the segment list, which the caller then clears.
\<close>

definition create_assembled_msg ::
  "bytes option \<Rightarrow> unyte_seg_met \<Rightarrow> u16 \<Rightarrow> unyte_option list option \<Rightarrow> u32 \<Rightarrow> allocs \<Rightarrow>
    fault + (unyte_seg_met option \<times> allocs)" where
  "create_assembled_msg complete_msg seg total_bytes opts opts_len as =
     (case complete_msg of
        None \<Rightarrow> Inr (None, as)
      | Some bs \<Rightarrow>
          (let (ok, as1) = mallocs (if dest (metadata seg) = None then 5 else 6) as in
           if \<not> ok then Inr (None, as1)
           else
             (let h = copy_unyte_seg_met_headers new_header (header seg);
                  h1 = h\<lparr>header_length := ucast (of_nat HEADER_BYTES + opts_len),
                         message_length := ucast (of_nat HEADER_BYTES + opts_len + ucast total_bytes)\<rparr> in
              case opts of
                None \<Rightarrow> Inl Null_Deref
              | Some os \<Rightarrow>
                  bind_fault (copy_unyte_seg_met_metadata
                    \<lparr>src = Some new_sockaddr, dest = map_option (\<lambda>_. new_sockaddr) (dest (metadata seg))\<rparr>
                    (metadata seg)) (\<lambda>md.
                  Inr (Some \<lparr>metadata = md, header = h1\<lparr>options := Some os\<rparr>, payload = bs\<rparr>, as1)))))"

section \<open>The loop body\<close>

text \<open>Write to the output queue and count the segment as received or dropped.\<close>

definition push_output ::
  "parser_thread_input \<Rightarrow> unyte_seg_met \<Rightarrow> u32 \<Rightarrow> u32 \<Rightarrow> allocs \<Rightarrow>
    (fault + (parser_thread_input \<times> allocs)) option" where
  "push_output w msg odid mid as =
     bind_run (unyte_udp_queue_write (p_output w) (Some msg)) (\<lambda>(ret, out).
     let w1 = w\<lparr>p_output := out\<rparr> in
     if \<not> p_monitoring_running w1 then Some (Inr (w1, as))
     else
       bind_run (Some (if ret < 0 then unyte_udp_update_dropped_segment (p_counters w1) odid mid as
                       else unyte_udp_update_received_segment (p_counters w1) odid mid as))
         (\<lambda>(c, as1). Some (Inr (w1\<lparr>p_counters := c\<rparr>, as1))))"

text \<open>The message is complete: put it together, pass it on and clear it.\<close>

definition complete_message ::
  "parser_thread_input \<Rightarrow> unyte_seg_met \<Rightarrow> allocs \<Rightarrow>
    (fault + (parser_thread_input \<times> allocs)) option" where
  "complete_message w seg as =
     (let odid = observation_domain_id (header seg); mid = message_id (header seg) in
      bind_run (Some (get_segment_list (p_segment_buff w) odid mid)) (\<lambda>l.
      case l of
        None \<Rightarrow> Some (Inl Null_Deref)
      | Some m \<Rightarrow>
          bind_run (Some (reassemble_payload m as)) (\<lambda>(complete_msg, as1).
          bind_run (Some (create_assembled_msg complete_msg seg
              (ucast (total_payload_byte_size m)) (options_head m) (options_length m) as1))
            (\<lambda>(parsed_msg, as2).
          bind_run
            (case parsed_msg of
               None \<Rightarrow> Some (Inr (w, as2))
             | Some msg \<Rightarrow> push_output w msg odid mid as2) (\<lambda>(w1, as3).
          bind_run (Some (clear_segment_list (p_segment_buff w1) odid mid)) (\<lambda>(_, buf).
          Some (Inr (w1\<lparr>p_segment_buff := buf\<lparr>sb_count := sb_count buf - 1\<rparr>\<rparr>, as3))))))))"

definition maybe_cleanup :: "int \<Rightarrow> parser_thread_input \<Rightarrow> fault + parser_thread_input" where
  "maybe_cleanup now w =
     (let buf = p_segment_buff w in
      if cleanup buf = 1 \<and> sb_count buf > of_nat CLEAN_COUNT_MAX then
        bind_fault (cleanup_seg_buff now buf CLEAN_UP_PASS_SIZE) (\<lambda>buf1.
        Inr (w\<lparr>p_segment_buff := buf1\<rparr>))
      else Inr w)"

text \<open>
  A segment of a larger message. The first component of the result is the value that the worker
  returns, \<open>None\<close> when it goes on. The segmentation fields must have been set.
\<close>

definition store_segment ::
  "int \<Rightarrow> parser_thread_input \<Rightarrow> unyte_seg_met \<Rightarrow> allocs \<Rightarrow>
    (fault + (int option \<times> parser_thread_input \<times> allocs)) option" where
  "store_segment now w seg as =
     (case (f_num (header seg), f_last (header seg)) of
        (Some num, Some lst) \<Rightarrow>
          bind_run (Some (insert_segment (p_segment_buff w) (observation_domain_id (header seg))
              (message_id (header seg)) (ucast num) (uint lst)
              (word_of_int (uint (message_length (header seg)) - uint (header_length (header seg))))
              (payload seg) (options (header seg)) as)) (\<lambda>(insert_res, buf, as1).
          let w1 = w\<lparr>p_segment_buff := buf\<rparr> in
          if insert_res = -1 then Some (Inr (None, w1, as1))
          else
            let w2 = (if insert_res = -3 then w1\<lparr>p_max_malloc_errs := p_max_malloc_errs w1 - 1\<rparr> else w1) in
            if insert_res = -3 \<and> p_max_malloc_errs w2 \<le> 0 then Some (Inr (Some (-1), w2, as1))
            else
              bind_run (if insert_res = 1 \<or> insert_res = -2 then complete_message w2 seg as1
                        else Some (Inr (w2, as1))) (\<lambda>(w3, as2).
              bind_run (Some (maybe_cleanup now w3)) (\<lambda>w4. Some (Inr (None, w4, as2)))))
      | _ \<Rightarrow> Some (Inl Uninit_Read))"

definition parse_datagram ::
  "bool \<Rightarrow> unyte_min \<Rightarrow> allocs \<Rightarrow> (fault + (unyte_seg_met option \<times> allocs)) option" where
  "parse_datagram legacy um as =
     (if legacy then Some (parse_with_metadata_legacy (um_buffer um) um as)
      else parse_with_metadata (um_buffer um) um as)"

definition parser_step ::
  "int \<Rightarrow> parser_thread_input \<Rightarrow> allocs \<Rightarrow>
    (fault + (int option \<times> parser_thread_input \<times> allocs)) option" where
  "parser_step now w as =
     bind_run (unyte_udp_queue_read (p_input w)) (\<lambda>(queue_bef, inp).
     let w1 = w\<lparr>p_input := inp\<rparr> in
     case queue_bef of
       None \<Rightarrow> Some (Inr (None, w1, as))
     | Some um \<Rightarrow>
         bind_run (parse_datagram (p_legacy_proto w1) um as) (\<lambda>(parsed_segment, as1).
         case parsed_segment of
           None \<Rightarrow> Some (Inr (Some (-1), w1, as1))
         | Some seg \<Rightarrow>
             bind_run (Some (options_total_bytes (options (header seg)))) (\<lambda>opts_len.
             if \<not> is_segmented (header seg) opts_len then
               bind_run (push_output w1 seg (observation_domain_id (header seg))
                 (message_id (header seg)) as1) (\<lambda>(w2, as2). Some (Inr (None, w2, as2)))
             else store_segment now w1 seg as1)))"

text \<open>The start of the thread, up to the loop.\<close>

definition t_parser :: "nat \<Rightarrow> parser_thread_input \<Rightarrow> parser_thread_input" where
  "t_parser self w = w\<lparr>parser_thread_id := self, p_counters := (p_counters w)\<lparr>thread_id := self\<rparr>,
     p_max_malloc_errs := 3\<rparr>"

text \<open>The worker as far as it gets with the datagrams that are in its queue.\<close>

fun parser_steps ::
  "int list \<Rightarrow> parser_thread_input \<Rightarrow> allocs \<Rightarrow>
    (fault + (int option \<times> parser_thread_input \<times> allocs)) option"
where
  "parser_steps [] w as = Some (Inr (None, w, as))"
| "parser_steps (now # nows) w as =
     bind_run (parser_step now w as) (\<lambda>(r, w1, as1).
     case r of None \<Rightarrow> parser_steps nows w1 as1 | Some v \<Rightarrow> Some (Inr (Some v, w1, as1)))"

section \<open>What the parser hands over\<close>

text \<open>With no failing allocation the parser leaves none behind, and segment numbers have 15 bits.\<close>

lemma parse_option_clean:
  assumes "ps_allocs s = []"
  shows "parse_option segment s = Inr (Inr s') \<Longrightarrow> ps_allocs s' = []"
    "parse_option segment s = Inr (Inl as) \<Longrightarrow> as = []"
proof -
  let ?t = "segment ! (HEADER_BYTES + ps_length s)"
  show "ps_allocs s' = []" if "parse_option segment s = Inr (Inr s')"
    using that assms
    by (cases "?t = UNYTE_TYPE_SEGMENTATION")
      (auto simp: parse_option_def Let_def bind_fault_eq_Inr read_byte_def uint_size_simps
        split: if_splits)
  show "as = []" if "parse_option segment s = Inr (Inl as)"
    using that assms
    by (cases "?t = UNYTE_TYPE_SEGMENTATION")
      (auto simp: parse_option_def Let_def bind_fault_eq_Inr read_byte_def uint_size_simps
        split: if_splits)
qed

lemma parse_option_num:
  assumes "\<forall>n. f_num (ps_header s) = Some n \<longrightarrow> unat n < 32768"
    and "parse_option segment s = Inr (Inr s')"
  shows "\<forall>n. f_num (ps_header s') = Some n \<longrightarrow> unat n < 32768"
proof -
  have half: "unat (ucast (drop_bit 1 (x :: u16)) :: 31 word) < 32768" for x
    using u16_less[of x] by (subst unat_ucast_small) (simp_all add: unat_drop_bit_eq drop_bit_eq_div unat_div_distrib)
  show ?thesis
    using assms(2)
  proof (cases rule: parse_option_next)
    case (segmentation b n)
    have "\<exists>x :: u16. f_num (ps_header s') = Some (ucast (drop_bit 1 x))"
      using assms(2) segmentation(1)
      by (auto simp: parse_option_def Let_def bind_fault_eq_Inr read_byte_def split: if_splits)
    with half show ?thesis by auto
  next
    case (custom d)
    with assms(1) show ?thesis by simp
  qed
qed

lemma parse_with_metadata_clean:
  assumes "parse_with_metadata segment um [] = Some (Inr (r, as))"
  shows "as = []"
proof -
  have fin: "finish_segment segment um h [] = Inr (r, as) \<Longrightarrow> as = []" for h
    by (auto simp: finish_segment_def Let_def case_prod_beta malloc_signed_def bind_fault_eq_Inr
        split: if_splits)
  let ?s = "\<lambda>h. \<lparr>ps_header = h, ps_options = [], ps_length = 0, ps_allocs = []\<rparr>"
  obtain h where h: "parse_fixed_header segment = Inr h"
    using assms by (cases "parse_fixed_header segment") (simp_all add: parse_with_metadata_def malloc3_def)
  obtain x where x: "parse_options segment (?s h) = Some (Inr x)"
    using assms by (auto simp: parse_with_metadata_def malloc3_def h split: option.splits sum.splits)
  have rule: "case x of Inl as \<Rightarrow> \<exists>t. ps_allocs t = [] \<and> parse_option segment t = Inr (Inl as)
    | Inr t \<Rightarrow> ps_allocs t = []"
    using parse_options_rule[OF x, of "\<lambda>s. ps_allocs s = []"] parse_option_clean(1)
    by (auto split: sum.splits)
  show ?thesis
  proof (cases x)
    case (Inl as')
    then have "as' = as" using assms x by (simp add: parse_with_metadata_def malloc3_def h)
    with rule Inl show ?thesis using parse_option_clean(2) by auto
  next
    case (Inr s)
    with rule have "ps_allocs s = []" by simp
    with assms x Inr fin show ?thesis by (simp add: parse_with_metadata_def malloc3_def h)
  qed
qed

lemma parsed_number_bound:
  assumes "parse_with_metadata segment um as = Some (Inr (Some seg, as'))"
    and "f_num (header seg) = Some n"
  shows "unat n < 32768"
proof -
  obtain h s where hs: "parse_fixed_header segment = Inr h"
    "parse_options segment \<lparr>ps_header = h, ps_options = [], ps_length = 0,
       ps_allocs = snd (malloc3 as)\<rparr> = Some (Inr (Inr s))"
    "finish_segment segment um ((ps_header s)\<lparr>options := Some (ps_options s)\<rparr>) (ps_allocs s)
      = Inr (Some seg, as')"
    by (rule parse_with_metadata_Some[OF assms(1)])
  have "f_num h = None"
    using hs(1) by (auto simp: parse_fixed_header_def bind_fault_eq_Inr)
  then have "\<forall>n. f_num (ps_header s) = Some n \<longrightarrow> unat n < 32768"
    using parse_options_rule[OF hs(2), of "\<lambda>s. \<forall>n. f_num (ps_header s) = Some n \<longrightarrow> unat n < 32768",
      OF _ parse_option_num] by simp
  with assms(2) finish_segment_Some[OF hs(3)] show ?thesis by simp
qed

section \<open>The invariant of the worker\<close>

text \<open>
  What is stored about a message that segments arrived of: a list in agreement with its header
  cell, with the options of all segments and their total length, 15-bit segment numbers and contents that
  fit a datagram. There are at most 32768
  segments, so that the payload of the message stays below 4 GiB.
\<close>

definition stored_ok :: "message_segment_list \<Rightarrow> bool" where
  "stored_ok m \<longleftrightarrow> msl_ok m \<and>
     (\<exists>os. options_head m = Some os \<and> list_all option_read os \<and> options_length m = opts_bytes os) \<and>
     (\<forall>c\<in>set (segments m). unat (seqnum c) < 32768 \<and> length (content c) \<le> UDP_SIZE)"

definition buffer_ok :: "segment_buffer \<Rightarrow> bool" where
  "buffer_ok buf \<longleftrightarrow> buckets_ok buf \<and> sb_count buf = of_nat (stored buf) \<and>
     (\<forall>odid mid m. message_at buf odid mid = Some m \<longrightarrow> stored_ok m)"

definition datagram_ok :: "unyte_min option \<Rightarrow> bool" where
  "datagram_ok um = (case um of None \<Rightarrow> True | Some u \<Rightarrow> length (um_buffer u) = UDP_SIZE \<and> um_src u \<noteq> None)"

definition worker_ok :: "parser_thread_input \<Rightarrow> bool" where
  "worker_ok w \<longleftrightarrow> queue_inv (p_input w) \<and> queue_inv (p_output w) \<and> counters_ok (p_counters w) \<and>
     buffer_ok (p_segment_buff w) \<and> list_all datagram_ok (q_list (p_input w))"

lemma concat_bound:
  "\<forall>c\<in>set cs. length (content c) \<le> n \<Longrightarrow> length (concat (map content cs)) \<le> length cs * n"
  by (induction cs) (auto simp: add_mono)

lemma stored_ok_size:
  assumes "stored_ok m"
  shows "unat (total_payload_byte_size m) = length (concat (map content (segments m)))"
    "list_all (\<lambda>c. unat (content_size c) = length (content c)) (segments m)"
proof -
  have ok: "msl_ok m" "sorted_wrt (<) (map (unat \<circ> seqnum) (segments m))"
    using assms sorted_unat[of "map seqnum (segments m)"] by (simp_all add: stored_ok_def msl_ok_def)
  have "length (map (unat \<circ> seqnum) (segments m)) \<le> 32768"
    using assms by (intro strict_length[OF ok(2)]) (simp add: stored_ok_def)
  then have n: "length (segments m) \<le> 32768" by simp
  have "\<forall>c\<in>set (segments m). length (content c) \<le> UDP_SIZE" using assms by (simp add: stored_ok_def)
  from concat_bound[OF this]
  have "length (concat (map content (segments m))) \<le> 32768 * UDP_SIZE"
    using mult_le_mono1[OF n, of UDP_SIZE] by (rule order_trans)
  then have len: "length (concat (map content (segments m))) < 4294967296" by simp
  show sizes: "list_all (\<lambda>c. unat (content_size c) = length (content c)) (segments m)"
    using ok(1) by (simp add: msl_ok_def)
  then show "unat (total_payload_byte_size m) = length (concat (map content (segments m)))"
    using sum_sizes[OF sizes len] ok(1) by (simp add: msl_ok_def del: length_concat)
qed

lemma stored_ok_reassembles:
  assumes "stored_ok m"
  shows "reassemble_payload m [] = Inr (Some (concat (map content (segments m))), [])"
  using stored_ok_size[OF assms] by (simp add: reassemble_payload_def copy_segments_ok del: length_concat)

lemma insert_stored_ok:
  assumes "stored_ok m \<or> m = new_msl odid mid" and "unat sz = length cont" and "length cont \<le> UDP_SIZE"
    and "unat num < 32768" and os: "list_all option_read os"
    and ins: "insert_into_msl m num l sz cont (Some os) [] = (r, m', as)"
  shows "stored_ok m' \<and> r \<in> {-2, -1, 0, 1} \<and> as = []"
proof (cases "num \<in> seqnum ` set (segments m)")
  case True
  then have "stored_ok m" using assms(1) by (auto simp: new_msl_def)
  with insert_into_msl_duplicate[of m num l, OF _ True] ins show ?thesis
    by (auto simp: stored_ok_def split: if_splits) (simp_all add: with_last_def)
next
  case False
  have ok: "msl_ok m" and cells: "\<forall>c\<in>set (segments m). unat (seqnum c) < 32768 \<and> length (content c) \<le> UDP_SIZE"
    using assms(1) by (auto simp: stored_ok_def) (simp_all add: new_msl_def)
  have opts: "options_head m = None \<and> options_length m = 0 \<or>
      (\<exists>old. options_head m = Some old \<and> list_all option_read old \<and> options_length m = opts_bytes old)"
    using assms(1) by (auto simp: stored_ok_def new_msl_def)
  let ?cell = "\<lparr>seqnum = num, content = cont, content_size = sz\<rparr>"
  let ?m = "with_segment (with_last m num l) ?cell"
  have same: "options_head ?m = options_head m" "options_length ?m = options_length m"
    by (simp_all add: with_segment_def with_last_def)
  have w: "msl_ok ?m" using ok False assms(2) by (intro with_segment_ok) simp_all
  obtain r0 where ap: "append_options ?m (Some os) [] = (r0, m', as)"
    and r: "r = (if r0 < 0 then -4 else if msl_complete m' then 1 else 0)"
    using ins insert_into_msl_new[OF ok False _ refl, of "[]"] by (auto split: prod.splits)
  have "r0 = 0" "as = []"
    "\<exists>os'. options_head m' = Some os' \<and> list_all option_read os' \<and> options_length m' = opts_bytes os'"
    using ap opts os same
    by (auto simp: append_options_def build_message_empty_options_def opts_bytes_def split: option.splits)
  moreover have "segments m' = insert_cell ?cell (segments m)"
    using append_options_ok(2)[OF ap w] by (simp add: with_segment_def)
  ultimately show ?thesis
    using append_options_ok(1)[OF ap w] cells assms(3,4) r by (auto simp: stored_ok_def set_insert_cell)
qed

lemma age_stored_ok: "stored_ok m \<Longrightarrow> age now m = Some m' \<Longrightarrow> stored_ok m'"
  by (auto simp: age_def stored_ok_def msl_ok_def Let_def split: if_splits)

lemma insert_buffer_ok:
  assumes "buffer_ok buf" and "unat sz = length cont" and "length cont \<le> UDP_SIZE" and "unat num < 32768"
    and "list_all option_read os"
  shows "\<exists>r buf' m. insert_segment buf odid mid num l sz cont (Some os) [] = Inr (r, buf', []) \<and>
    buffer_ok buf' \<and> r \<in> {-2, -1, 0, 1} \<and> message_at buf' odid mid = Some m \<and>
    insert_into_msl (known_or_new (message_at buf odid mid) odid mid) num l sz cont (Some os) [] = (r, m, []) \<and>
    (\<forall>o' m'. (o', m') \<noteq> (odid, mid) \<longrightarrow> message_at buf' o' m' = message_at buf o' m')"
proof -
  let ?m = "known_or_new (message_at buf odid mid) odid mid"
  obtain r m as where ins: "insert_into_msl ?m num l sz cont (Some os) [] = (r, m, as)"
    by (metis prod_cases3)
  have "stored_ok ?m \<or> ?m = new_msl odid mid"
    using assms(1) by (auto simp: buffer_ok_def known_or_new_def split: option.splits)
  from insert_stored_ok[OF this assms(2-5) ins]
  have m: "stored_ok m" "r \<in> {-2, -1, 0, 1}" "as = []" by blast+
  obtain buf' where b: "insert_segment buf odid mid num l sz cont (Some os) [] = Inr (r, buf', as)"
    "buckets_ok buf'" "sb_count buf' = of_nat (stored buf')" "message_at buf' odid mid = Some m"
    "\<forall>o' m'. (o', m') \<noteq> (odid, mid) \<longrightarrow> message_at buf' o' m' = message_at buf o' m'"
    using insert_segment_map[OF _ _ ins] assms(1) unfolding buffer_ok_def by blast
  have "buffer_ok buf'"
    using b m(1) assms(1) unfolding buffer_ok_def by (metis option.inject prod.inject)
  with b m ins show ?thesis by blast
qed

section \<open>The steps of the worker\<close>

definition count_dropped :: "u32 \<Rightarrow> odid_counter \<Rightarrow> odid_counter" where
  "count_dropped mid x = x\<lparr>segments_dropped := segments_dropped x + 1, last_message_id := mid\<rparr>"

text \<open>The counters before and after one segment of a domain was passed on, or dropped.\<close>

definition counted :: "bool \<Rightarrow> u32 \<Rightarrow> u32 \<Rightarrow> seg_counters \<Rightarrow> seg_counters \<Rightarrow> bool" where
  "counted passed odid mid c c' \<longleftrightarrow> counters_ok c' \<and>
     counter_of c' odid = Some ((if passed then count_received mid else count_dropped mid)
       (known_counter (counter_of c odid) odid)) \<and>
     (\<forall>d. d \<noteq> odid \<longrightarrow> counter_of c' d = counter_of c d)"

definition has_room :: "parser_thread_input \<Rightarrow> bool" where
  "has_room w \<longleftrightarrow> length (q_list (p_output w)) < q_size (p_output w) - 1"

text \<open>The output and the counters of the worker after \<open>msg\<close> was passed on.\<close>

definition passed_on :: "parser_thread_input \<Rightarrow> unyte_seg_met \<Rightarrow> parser_thread_input \<Rightarrow> bool" where
  "passed_on w msg w' \<longleftrightarrow> queue_inv (p_output w') \<and> q_capacity (p_output w') = q_capacity (p_output w) \<and>
     q_list (p_output w') = q_list (p_output w) @ (if has_room w then [Some msg] else []) \<and>
     (if p_monitoring_running w
      then counted (has_room w) (observation_domain_id (header msg)) (message_id (header msg))
        (p_counters w) (p_counters w')
      else p_counters w' = p_counters w)"

lemma update_counted:
  assumes "counters_ok c"
  shows "\<exists>c'. unyte_udp_update_received_segment c odid mid [] = Inr (c', []) \<and> counted True odid mid c c'"
    "\<exists>c'. unyte_udp_update_dropped_segment c odid mid [] = Inr (c', []) \<and> counted False odid mid c c'"
  using update_counts[OF assms, of odid mid] by (auto simp: counted_def count_dropped_def)

lemma push_output_run:
  assumes "queue_inv (p_output w)" "counters_ok (p_counters w)"
    and "odid = observation_domain_id (header msg)" "mid = message_id (header msg)"
  shows "\<exists>out c. push_output w msg odid mid [] = Some (Inr (w\<lparr>p_output := out, p_counters := c\<rparr>, [])) \<and>
    passed_on w msg (w\<lparr>p_output := out, p_counters := c\<rparr>) \<and> counters_ok c"
proof -
  obtain out where q: "unyte_udp_queue_write (p_output w) (Some msg) =
      Some (Inr (fst (fifo_write (q_capacity (p_output w)) (q_list (p_output w)) (Some msg)), out))"
    "queue_inv out" "q_list out = snd (fifo_write (q_capacity (p_output w)) (q_list (p_output w)) (Some msg))"
    "q_capacity out = q_capacity (p_output w)"
    using queue_write_law[OF assms(1)] by blast
  have room: "has_room w \<longleftrightarrow> length (q_list (p_output w)) < q_capacity (p_output w)"
    by (simp add: has_room_def q_capacity_def)
  obtain c where c: "(if has_room w then unyte_udp_update_received_segment (p_counters w) odid mid []
      else unyte_udp_update_dropped_segment (p_counters w) odid mid []) = Inr (c, [])"
    "counted (has_room w) odid mid (p_counters w) c"
    using update_counted[OF assms(2), of odid mid] by (cases "has_room w") auto
  show ?thesis
  proof (cases "p_monitoring_running w")
    case True
    have "push_output w msg odid mid [] = Some (Inr (w\<lparr>p_output := out, p_counters := c\<rparr>, []))"
      using q(1) c(1) True room by (cases "has_room w") (simp_all add: push_output_def Let_def fifo_write_def)
    with q c(2) True room assms(3,4) show ?thesis
      by (intro exI[of _ out] exI[of _ c]) (simp add: passed_on_def fifo_write_def counted_def)
  next
    case False
    then have "push_output w msg odid mid [] = Some (Inr (w\<lparr>p_output := out, p_counters := p_counters w\<rparr>, []))"
      using q(1) by (simp add: push_output_def Let_def)
    with q False room assms(2) show ?thesis
      by (intro exI[of _ out] exI[of _ "p_counters w"]) (simp add: passed_on_def fifo_write_def)
  qed
qed

text \<open>The message that is put together from a list of segments, with the header of the last arrival.\<close>

definition assembled :: "unyte_seg_met \<Rightarrow> message_segment_list \<Rightarrow> unyte_seg_met" where
  "assembled seg m =
     \<lparr>metadata = metadata seg,
      header = (copy_unyte_seg_met_headers new_header (header seg))
        \<lparr>header_length := ucast (of_nat HEADER_BYTES + options_length m),
         message_length := ucast (of_nat HEADER_BYTES + options_length m +
           ucast (ucast (total_payload_byte_size m) :: u16)),
         options := options_head m\<rparr>,
      payload = concat (map content (segments m))\<rparr>"

lemma mallocs_ok [simp]: "mallocs n [] = (True, [])"
  by (induction n) simp_all

lemma create_assembled_run:
  assumes "options_head m = Some os" "src (metadata seg) \<noteq> None"
  shows "create_assembled_msg (Some (concat (map content (segments m)))) seg
      (ucast (total_payload_byte_size m)) (options_head m) (options_length m) [] =
    Inr (Some (assembled seg m), [])"
  using assms
  by (cases "dest (metadata seg)")
    (auto simp: create_assembled_msg_def assembled_def Let_def copy_unyte_seg_met_metadata_def
      copy_unyte_seg_met_headers_def)

lemma assembled_ids [simp]:
  "observation_domain_id (header (assembled seg m)) = observation_domain_id (header seg)"
  "message_id (header (assembled seg m)) = message_id (header seg)"
  by (simp_all add: assembled_def copy_unyte_seg_met_headers_def)

lemma insert_segment_flag:
  "insert_segment buf odid mid num l sz cont opts as = Inr (r, buf', as') \<Longrightarrow> cleanup buf' = cleanup buf"
  by (auto simp: insert_segment_def ensure_bucket_def set_bucket_def Let_def case_prod_beta
      split: option.splits list.splits if_splits prod.splits)

lemma clear_segment_list_flag:
  "clear_segment_list buf odid mid = Inr (r, buf') \<Longrightarrow> cleanup buf' = cleanup buf"
  by (auto simp: clear_segment_list_def set_bucket_def Let_def split: option.splits list.splits if_splits)

lemma complete_message_run:
  assumes w: "buffer_ok (p_segment_buff w)" "queue_inv (p_output w)" "counters_ok (p_counters w)"
    and m: "message_at (p_segment_buff w) (observation_domain_id (header seg)) (message_id (header seg)) = Some m"
    and src: "src (metadata seg) \<noteq> None"
  shows "\<exists>out c buf. complete_message w seg [] =
      Some (Inr (w\<lparr>p_output := out, p_counters := c, p_segment_buff := buf\<rparr>, [])) \<and>
    passed_on w (assembled seg m) (w\<lparr>p_output := out, p_counters := c, p_segment_buff := buf\<rparr>) \<and>
    counters_ok c \<and> buffer_ok buf \<and> cleanup buf = cleanup (p_segment_buff w) \<and>
    (\<forall>o' m'. message_at buf o' m' =
      (if (o', m') = (observation_domain_id (header seg), message_id (header seg)) then None
       else message_at (p_segment_buff w) o' m'))"
proof -
  let ?o = "observation_domain_id (header seg)" and ?m = "message_id (header seg)"
  let ?buf = "p_segment_buff w"
  have b: "buckets_ok ?buf" "sb_count ?buf = of_nat (stored ?buf)" and st: "stored_ok m"
    using w(1) m by (auto simp: buffer_ok_def)
  obtain os where os: "options_head m = Some os" using st by (auto simp: stored_ok_def)
  obtain out c where p: "push_output w (assembled seg m) ?o ?m [] =
      Some (Inr (w\<lparr>p_output := out, p_counters := c\<rparr>, []))"
    "passed_on w (assembled seg m) (w\<lparr>p_output := out, p_counters := c\<rparr>)" "counters_ok c"
    using push_output_run[OF w(2,3), of ?o "assembled seg m" ?m] by auto
  obtain buf where c: "clear_segment_list ?buf ?o ?m = Inr (0, buf)" "buckets_ok buf"
    "sb_count buf = sb_count ?buf" "stored ?buf = stored buf + 1" "get_segment_list buf ?o ?m = Inr None"
    "\<forall>o' m'. (o', m') \<noteq> (?o, ?m) \<longrightarrow> message_at buf o' m' = message_at ?buf o' m'"
    using clear_segment_list_map[OF b(1), of ?o ?m] m by auto
  have none: "message_at buf ?o ?m = None" using c(2,5) by (simp add: get_segment_list_ok)
  let ?buf' = "buf\<lparr>sb_count := sb_count buf - 1\<rparr>"
  have "complete_message w seg [] = Some (Inr (w\<lparr>p_output := out, p_counters := c, p_segment_buff := ?buf'\<rparr>, []))"
    using m p(1) c(1) create_assembled_run[OF os src] stored_ok_reassembles[OF st] os
    by (simp add: complete_message_def Let_def get_segment_list_ok[OF b(1)])
  moreover have "buffer_ok ?buf'"
    using c(2,3,4,6) none b(2) w(1) unfolding buffer_ok_def by (auto split: if_splits) (metis option.distinct(1))
  moreover have "passed_on w (assembled seg m) (w\<lparr>p_output := out, p_counters := c, p_segment_buff := ?buf'\<rparr>)"
    using p(2) by (auto simp: passed_on_def split: if_splits)
  moreover have "\<forall>o' m'. message_at ?buf' o' m' = (if (o', m') = (?o, ?m) then None else message_at ?buf o' m')"
    using c(6) none by auto
  moreover have "cleanup ?buf' = cleanup ?buf" using clear_segment_list_flag[OF c(1)] by simp
  ultimately show ?thesis using p(3) by blast
qed

lemma maybe_cleanup_run:
  assumes "buffer_ok (p_segment_buff w)"
  shows "\<exists>buf. maybe_cleanup now w = Inr (w\<lparr>p_segment_buff := buf\<rparr>) \<and> buffer_ok buf \<and>
    (cleanup (p_segment_buff w) \<noteq> 1 \<longrightarrow> buf = p_segment_buff w)"
proof (cases "cleanup (p_segment_buff w) = 1 \<and> sb_count (p_segment_buff w) > of_nat CLEAN_COUNT_MAX")
  case True
  let ?buf = "p_segment_buff w"
  obtain buf where b: "cleanup_seg_buff now ?buf CLEAN_UP_PASS_SIZE = Inr buf" "buckets_ok buf"
    "sb_count buf = of_nat (stored buf)"
    "\<forall>odid mid. message_at buf odid mid =
      (if unat (hashKey odid mid) \<in> window (unat (cleanup_start_index ?buf)) 0 CLEAN_UP_PASS_SIZE
       then Option.bind (message_at ?buf odid mid) (age now) else message_at ?buf odid mid)"
    using cleanup_seg_buff_run[of ?buf CLEAN_UP_PASS_SIZE now] assms by (auto simp: buffer_ok_def)
  have old: "message_at ?buf odid mid = Some m \<Longrightarrow> stored_ok m" for odid mid m
    using assms by (auto simp: buffer_ok_def)
  have "stored_ok m" if m: "message_at buf odid mid = Some m" for odid mid m
  proof (cases "unat (hashKey odid mid) \<in> window (unat (cleanup_start_index ?buf)) 0 CLEAN_UP_PASS_SIZE")
    case True
    then have "Option.bind (message_at ?buf odid mid) (age now) = Some m" using b(4) m by simp
    then obtain y where "message_at ?buf odid mid = Some y" "age now y = Some m"
      by (auto simp: bind_eq_Some_conv)
    then show ?thesis using old age_stored_ok by blast
  next
    case False
    then show ?thesis using b(4) m old by simp
  qed
  then have "buffer_ok buf" using b by (simp add: buffer_ok_def)
  with True b(1) show ?thesis by (auto simp: maybe_cleanup_def Let_def)
next
  case False
  then show ?thesis
    using assms by (intro exI[of _ "p_segment_buff w"]) (auto simp: maybe_cleanup_def Let_def)
qed

text \<open>A parsed segment of a larger message.\<close>

definition segment_ok :: "unyte_seg_met \<Rightarrow> bool" where
  "segment_ok seg \<longleftrightarrow> (\<exists>os. options (header seg) = Some os \<and> list_all option_read os) \<and> src (metadata seg) \<noteq> None \<and>
     unat (header_length (header seg)) \<le> unat (message_length (header seg)) \<and>
     length (payload seg) = unat (message_length (header seg)) - unat (header_length (header seg)) \<and>
     (\<forall>n. f_num (header seg) = Some n \<longrightarrow> unat n < 32768)"

text \<open>The segment list of its message once the segment has been inserted, and the return value.\<close>

definition inserted :: "segment_buffer \<Rightarrow> unyte_seg_met \<Rightarrow> int \<times> message_segment_list" where
  "inserted buf seg =
     (let odid = observation_domain_id (header seg); mid = message_id (header seg);
          (r, m, _) = insert_into_msl (known_or_new (message_at buf odid mid) odid mid)
            (ucast (the (f_num (header seg)))) (uint (the (f_last (header seg))))
            (of_nat (length (payload seg))) (payload seg) (options (header seg)) [] in
      (r, m))"

lemma payload_size_word:
  assumes "segment_ok seg"
  shows "(word_of_int (uint (message_length (header seg)) - uint (header_length (header seg))) :: u32) =
      of_nat (length (payload seg))"
    "unat (of_nat (length (payload seg)) :: u32) = length (payload seg)" "length (payload seg) \<le> UDP_SIZE"
proof -
  let ?n = "length (payload seg)"
  have "uint (message_length (header seg)) - uint (header_length (header seg)) = int ?n"
    using assms by (simp add: segment_ok_def uint_nat del: of_nat_unat)
  then show "(word_of_int (uint (message_length (header seg)) - uint (header_length (header seg))) :: u32) =
      of_nat ?n" by simp
  have "?n \<le> unat (message_length (header seg))" using assms by (simp add: segment_ok_def)
  then show "?n \<le> UDP_SIZE" using u16_less[of "message_length (header seg)"] by simp
  then show "unat (of_nat ?n :: u32) = ?n" by (simp add: unat_of_nat_small)
qed


text \<open>A segmented packet after the insertion: a repeated segment is freed, the last one completes its message.\<close>

lemma store_segment_inserts:
  assumes w: "buffer_ok (p_segment_buff w)"
    and seg: "segment_ok seg" "f_num (header seg) \<noteq> None" "f_last (header seg) \<noteq> None"
    and ins: "inserted (p_segment_buff w) seg = (r, m)"
  obtains buf1 where "store_segment now w seg [] =
      (if r = -1 then Some (Inr (None, w\<lparr>p_segment_buff := buf1\<rparr>, []))
       else bind_run (if r = 1 \<or> r = -2 then complete_message (w\<lparr>p_segment_buff := buf1\<rparr>) seg []
                      else Some (Inr (w\<lparr>p_segment_buff := buf1\<rparr>, [])))
         (\<lambda>(w3, as2). bind_run (Some (maybe_cleanup now w3)) (\<lambda>w4. Some (Inr (None, w4, as2)))))"
    "buffer_ok buf1" "cleanup buf1 = cleanup (p_segment_buff w)"
    "\<forall>o' m'. message_at buf1 o' m' = (if (o', m') = (observation_domain_id (header seg), message_id (header seg)) then Some m
       else message_at (p_segment_buff w) o' m')"
proof -
  let ?o = "observation_domain_id (header seg)" and ?m = "message_id (header seg)"
  let ?buf = "p_segment_buff w"
  obtain num lst os where f: "f_num (header seg) = Some num" "f_last (header seg) = Some lst"
    "options (header seg) = Some os" "unat num < 32768" "list_all option_read os"
    using seg by (auto simp: segment_ok_def)
  have num: "unat (ucast num :: u32) < 32768" using f(4) by (simp add: unat_ucast_small)
  note sz = payload_size_word[OF seg(1)]
  obtain r' buf1 m' where b: "insert_segment ?buf ?o ?m (ucast num) (uint lst)
      (of_nat (length (payload seg))) (payload seg) (Some os) [] = Inr (r', buf1, [])"
    "buffer_ok buf1" "r' \<in> {-2, -1, 0, 1}" "message_at buf1 ?o ?m = Some m'"
    "insert_into_msl (known_or_new (message_at ?buf ?o ?m) ?o ?m) (ucast num) (uint lst)
      (of_nat (length (payload seg))) (payload seg) (Some os) [] = (r', m', [])"
    "\<forall>o' m''. (o', m'') \<noteq> (?o, ?m) \<longrightarrow> message_at buf1 o' m'' = message_at ?buf o' m''"
    using insert_buffer_ok[OF w sz(2,3) num f(5), of ?o ?m "uint lst"] by blast
  have rm: "r' = r" "m' = m" using ins b(5) f by (simp_all add: inserted_def)
  show thesis
  proof (rule that[of buf1])
    show "cleanup buf1 = cleanup ?buf" by (rule insert_segment_flag[OF b(1)])
    show "\<forall>o' m'. message_at buf1 o' m' = (if (o', m') = (?o, ?m) then Some m else message_at ?buf o' m')"
      using b(4,6) rm by auto
  qed (use b(1-3) f rm sz(1) in \<open>auto simp: store_segment_def Let_def\<close>)
qed

lemma store_segment_run:
  assumes w: "buffer_ok (p_segment_buff w)" "queue_inv (p_output w)" "counters_ok (p_counters w)"
    and seg: "segment_ok seg" "f_num (header seg) \<noteq> None" "f_last (header seg) \<noteq> None"
    and ins: "inserted (p_segment_buff w) seg = (r, m)"
  shows "\<exists>out c buf. store_segment now w seg [] =
      Some (Inr (None, w\<lparr>p_output := out, p_counters := c, p_segment_buff := buf\<rparr>, [])) \<and>
    buffer_ok buf \<and> queue_inv out \<and> counters_ok c \<and>
    (if r = 1 \<or> r = -2
     then passed_on w (assembled seg m) (w\<lparr>p_output := out, p_counters := c, p_segment_buff := buf\<rparr>)
     else out = p_output w \<and> c = p_counters w) \<and>
    (cleanup (p_segment_buff w) \<noteq> 1 \<longrightarrow> cleanup buf = cleanup (p_segment_buff w) \<and>
      (\<forall>o' m'. message_at buf o' m' =
        (if (o', m') = (observation_domain_id (header seg), message_id (header seg))
         then (if r = 1 \<or> r = -2 then None else Some m)
         else message_at (p_segment_buff w) o' m')))"
proof -
  let ?o = "observation_domain_id (header seg)" and ?m = "message_id (header seg)"
  let ?buf = "p_segment_buff w"
  obtain buf1 where start: "store_segment now w seg [] =
      (if r = -1 then Some (Inr (None, w\<lparr>p_segment_buff := buf1\<rparr>, []))
       else bind_run (if r = 1 \<or> r = -2 then complete_message (w\<lparr>p_segment_buff := buf1\<rparr>) seg []
                      else Some (Inr (w\<lparr>p_segment_buff := buf1\<rparr>, [])))
         (\<lambda>(w3, as2). bind_run (Some (maybe_cleanup now w3)) (\<lambda>w4. Some (Inr (None, w4, as2)))))"
    and b: "buffer_ok buf1" "cleanup buf1 = cleanup ?buf"
      "\<forall>o' m'. message_at buf1 o' m' = (if (o', m') = (?o, ?m) then Some m else message_at ?buf o' m')"
    by (rule store_segment_inserts[OF w(1) seg ins])
  let ?w1 = "w\<lparr>p_segment_buff := buf1\<rparr>"
  show ?thesis
  proof (cases "r = 1 \<or> r = -2")
    case True
    obtain out c buf2 where c: "complete_message ?w1 seg [] =
        Some (Inr (?w1\<lparr>p_output := out, p_counters := c, p_segment_buff := buf2\<rparr>, []))"
      "passed_on ?w1 (assembled seg m) (?w1\<lparr>p_output := out, p_counters := c, p_segment_buff := buf2\<rparr>)"
      "counters_ok c" "buffer_ok buf2" "cleanup buf2 = cleanup buf1"
      "\<forall>o' m'. message_at buf2 o' m' = (if (o', m') = (?o, ?m) then None else message_at buf1 o' m')"
      using complete_message_run[of ?w1 seg m] b(1,3) w seg(1) by (auto simp: segment_ok_def)
    obtain buf where k: "maybe_cleanup now (?w1\<lparr>p_output := out, p_counters := c, p_segment_buff := buf2\<rparr>) =
        Inr (?w1\<lparr>p_output := out, p_counters := c, p_segment_buff := buf\<rparr>)" "buffer_ok buf"
      "cleanup buf2 \<noteq> 1 \<longrightarrow> buf = buf2"
      using maybe_cleanup_run[of "?w1\<lparr>p_output := out, p_counters := c, p_segment_buff := buf2\<rparr>" now] c(4)
      by auto
    have "store_segment now w seg [] =
        Some (Inr (None, w\<lparr>p_output := out, p_counters := c, p_segment_buff := buf\<rparr>, []))"
      unfolding start using True c(1) k(1) by auto
    moreover have "passed_on w (assembled seg m) (w\<lparr>p_output := out, p_counters := c, p_segment_buff := buf\<rparr>)"
      using c(2) by (auto simp: passed_on_def has_room_def split: if_splits)
    moreover have "queue_inv out" using c(2) by (simp add: passed_on_def)
    moreover have "message_at buf2 o' m' = (if (o', m') = (?o, ?m) then None else message_at ?buf o' m')"
      for o' m' using c(6) b(3) by (cases "(o', m') = (?o, ?m)") auto
    ultimately show ?thesis
      using True k(2,3) c(3,5) b(2) by (intro exI[of _ out] exI[of _ c] exI[of _ buf]) auto
  next
    case False
    obtain buf where k: "maybe_cleanup now ?w1 = Inr (?w1\<lparr>p_segment_buff := buf\<rparr>)" "buffer_ok buf"
      "cleanup buf1 \<noteq> 1 \<longrightarrow> buf = buf1"
      using maybe_cleanup_run[of ?w1 now] b(1) by auto
    obtain buf' where "store_segment now w seg [] =
        Some (Inr (None, w\<lparr>p_output := p_output w, p_counters := p_counters w, p_segment_buff := buf'\<rparr>, []))"
      "buffer_ok buf'" "cleanup buf1 \<noteq> 1 \<longrightarrow> buf' = buf1"
      using False k b(1) unfolding start by (cases "r = -1") auto
    then show ?thesis
      using False w b(2,3)
      by (intro exI[of _ "p_output w"] exI[of _ "p_counters w"] exI[of _ buf']) auto
  qed
qed

lemma parsed_segment_ok:
  assumes "parse_with_metadata segment um as = Some (Inr (Some seg, as'))" and "um_src um \<noteq> None"
  shows "segment_ok seg"
proof -
  obtain s :: parse_state where "finish_segment segment um ((ps_header s)\<lparr>options := Some (ps_options s)\<rparr>) (ps_allocs s)
      = Inr (Some seg, as')"
    by (rule parse_with_metadata_Some[OF assms(1)]) blast
  note fin = finish_segment_Some[OF this]
  obtain os where "options (header seg) = Some os" "list_all option_read os"
    by (rule parsed_options_read[OF assms(1)])
  with fin parsed_number_bound[OF assms(1)] assms(2) show ?thesis
    by (auto simp: segment_ok_def)
qed

lemma worker_ok_input:
  assumes "worker_ok w" "q_list (p_input w) = x # xs"
  obtains inp where "unyte_udp_queue_read (p_input w) = Some (Inr (x, inp))" "queue_inv inp"
    "q_list inp = xs" "q_capacity inp = q_capacity (p_input w)" "datagram_ok x" "list_all datagram_ok xs"
  using ring.dequeue_law[of "p_input w" x xs] assms by (auto simp: worker_ok_def)

text \<open>One step of a worker on a datagram that parses: an unsegmented message and a segment.\<close>

lemma parser_step_plain:
  assumes w: "worker_ok w" "\<not> p_legacy_proto w" "q_list (p_input w) = Some um # xs"
    and p: "parse_with_metadata (um_buffer um) um [] = Some (Inr (Some seg, []))"
    and n: "options_total_bytes (options (header seg)) = Inr n" "\<not> is_segmented (header seg) n"
  shows "\<exists>w'. parser_step now w [] = Some (Inr (None, w', [])) \<and> worker_ok w' \<and>
    q_list (p_input w') = xs \<and> passed_on w seg w' \<and> p_segment_buff w' = p_segment_buff w \<and>
    p_legacy_proto w' = p_legacy_proto w \<and> p_monitoring_running w' = p_monitoring_running w"
proof -
  obtain inp where inp: "unyte_udp_queue_read (p_input w) = Some (Inr (Some um, inp))" "queue_inv inp"
    "q_list inp = xs" "list_all datagram_ok xs"
    by (rule worker_ok_input[OF w(1,3)])
  let ?w1 = "w\<lparr>p_input := inp\<rparr>"
  obtain out c where o: "push_output ?w1 seg (observation_domain_id (header seg)) (message_id (header seg)) [] =
      Some (Inr (?w1\<lparr>p_output := out, p_counters := c\<rparr>, []))"
    "passed_on ?w1 seg (?w1\<lparr>p_output := out, p_counters := c\<rparr>)" "counters_ok c"
    using push_output_run[of ?w1 "observation_domain_id (header seg)" seg "message_id (header seg)"] w(1)
    by (auto simp: worker_ok_def)
  have "parser_step now w [] = Some (Inr (None, ?w1\<lparr>p_output := out, p_counters := c\<rparr>, []))"
    using inp(1) p n o(1) w(2) by (simp add: parser_step_def parse_datagram_def Let_def)
  moreover have "passed_on w seg (?w1\<lparr>p_output := out, p_counters := c\<rparr>)"
    using o(2) by (auto simp: passed_on_def has_room_def split: if_splits)
  ultimately show ?thesis
    using inp o(2,3) w(1) by (intro exI[of _ "?w1\<lparr>p_output := out, p_counters := c\<rparr>"])
      (auto simp: worker_ok_def passed_on_def)
qed

lemma parser_step_segment:
  assumes w: "worker_ok w" "\<not> p_legacy_proto w" "q_list (p_input w) = Some um # xs"
    and p: "parse_with_metadata (um_buffer um) um [] = Some (Inr (Some seg, []))"
    and n: "options_total_bytes (options (header seg)) = Inr n" "is_segmented (header seg) n"
    and ins: "inserted (p_segment_buff w) seg = (r, m)"
  shows "\<exists>w'. parser_step now w [] = Some (Inr (None, w', [])) \<and> worker_ok w' \<and>
    q_list (p_input w') = xs \<and>
    (if r = 1 \<or> r = -2 then passed_on w (assembled seg m) w'
     else p_output w' = p_output w \<and> p_counters w' = p_counters w) \<and>
    (cleanup (p_segment_buff w) \<noteq> 1 \<longrightarrow> cleanup (p_segment_buff w') = cleanup (p_segment_buff w) \<and>
      (\<forall>o' m'. message_at (p_segment_buff w') o' m' =
        (if (o', m') = (observation_domain_id (header seg), message_id (header seg))
         then (if r = 1 \<or> r = -2 then None else Some m)
         else message_at (p_segment_buff w) o' m'))) \<and>
    p_legacy_proto w' = p_legacy_proto w \<and> p_monitoring_running w' = p_monitoring_running w"
proof -
  obtain inp where inp: "unyte_udp_queue_read (p_input w) = Some (Inr (Some um, inp))" "queue_inv inp"
    "q_list inp = xs" "datagram_ok (Some um)" "list_all datagram_ok xs"
    by (rule worker_ok_input[OF w(1,3)])
  let ?w1 = "w\<lparr>p_input := inp\<rparr>"
  have seg: "segment_ok seg" "f_num (header seg) \<noteq> None" "f_last (header seg) \<noteq> None"
    using parsed_segment_ok[OF p] inp(4) segmented_fields_set[OF p n] by (auto simp: datagram_ok_def)
  have w1: "buffer_ok (p_segment_buff ?w1)" "queue_inv (p_output ?w1)" "counters_ok (p_counters ?w1)"
    "inserted (p_segment_buff ?w1) seg = (r, m)"
    using w(1) ins by (simp_all add: worker_ok_def)
  obtain out c buf where s: "store_segment now ?w1 seg [] =
      Some (Inr (None, ?w1\<lparr>p_output := out, p_counters := c, p_segment_buff := buf\<rparr>, []))"
    "buffer_ok buf" "queue_inv out" "counters_ok c"
    "if r = 1 \<or> r = -2
     then passed_on ?w1 (assembled seg m) (?w1\<lparr>p_output := out, p_counters := c, p_segment_buff := buf\<rparr>)
     else out = p_output ?w1 \<and> c = p_counters ?w1"
    "cleanup (p_segment_buff ?w1) \<noteq> 1 \<longrightarrow> cleanup buf = cleanup (p_segment_buff ?w1) \<and>
      (\<forall>o' m'. message_at buf o' m' =
        (if (o', m') = (observation_domain_id (header seg), message_id (header seg))
         then (if r = 1 \<or> r = -2 then None else Some m)
         else message_at (p_segment_buff ?w1) o' m'))"
    using store_segment_run[OF w1(1-3) seg w1(4)] by blast
  let ?w' = "?w1\<lparr>p_output := out, p_counters := c, p_segment_buff := buf\<rparr>"
  have "parser_step now w [] = Some (Inr (None, ?w', []))"
    using inp(1) p n s(1) w(2) by (simp add: parser_step_def parse_datagram_def Let_def)
  moreover have "worker_ok ?w'" using inp s(2-4) w(1) by (simp add: worker_ok_def)
  moreover have "passed_on w x ?w' = passed_on ?w1 x ?w'" for x
    by (simp add: passed_on_def has_room_def)
  ultimately show ?thesis
    using inp(3) s(5,6) by (intro exI[of _ ?w']) (auto split: if_splits)
qed

lemma parser_step_outcome:
  assumes "worker_ok w" and "\<not> p_legacy_proto w" and "q_list (p_input w) = Some um # xs"
  shows "(parser_step now w [] = None \<longleftrightarrow> parse_with_metadata (um_buffer um) um [] = None) \<and>
    (\<forall>r. parser_step now w [] = Some r \<longrightarrow>
      (\<exists>v w'. r = Inr (v, w', []) \<and> worker_ok w' \<and> q_list (p_input w') = xs \<and>
        p_legacy_proto w' = p_legacy_proto w \<and>
        v = (if parse_with_metadata (um_buffer um) um [] = Some (Inr (None, [])) then Some (-1) else None)))"
proof -
  obtain inp where inp: "unyte_udp_queue_read (p_input w) = Some (Inr (Some um, inp))" "queue_inv inp"
    "q_list inp = xs" "datagram_ok (Some um)" "list_all datagram_ok xs"
    by (rule worker_ok_input[OF assms(1,3)])
  consider (hangs) "parse_with_metadata (um_buffer um) um [] = None"
    | (rejected) "parse_with_metadata (um_buffer um) um [] = Some (Inr (None, []))"
    | (parsed) seg where "parse_with_metadata (um_buffer um) um [] = Some (Inr (Some seg, []))"
    using parse_with_metadata_no_fault[of "um_buffer um" um "[]"] parse_with_metadata_clean[of "um_buffer um" um] inp(4)
    by (cases "parse_with_metadata (um_buffer um) um []") (auto simp: datagram_ok_def split: sum.splits, metis not_None_eq obj_sumE surj_pair)
  then show ?thesis
  proof cases
    case hangs
    then show ?thesis
      using inp(1) assms(2) by (simp add: parser_step_def parse_datagram_def Let_def)
  next
    case rejected
    then have "parser_step now w [] = Some (Inr (Some (-1), w\<lparr>p_input := inp\<rparr>, []))"
      using inp(1) assms(2) by (simp add: parser_step_def parse_datagram_def Let_def)
    then show ?thesis using rejected inp assms(1) by (simp add: worker_ok_def)
  next
    case (parsed seg)
    have src: "um_src um \<noteq> None" using inp(4) by (simp add: datagram_ok_def)
    obtain n where n: "options_total_bytes (options (header seg)) = Inr n"
      using parsed_segment_ok[OF parsed src] by (auto simp: segment_ok_def options_total_bytes_def)
    obtain r m where rm: "inserted (p_segment_buff w) seg = (r, m)" by (metis prod.exhaust)
    obtain w' where "parser_step now w [] = Some (Inr (None, w', []))" "worker_ok w'" "q_list (p_input w') = xs"
      "p_legacy_proto w' = p_legacy_proto w"
      using parser_step_plain[OF assms parsed n] parser_step_segment[OF assms parsed n _ rm] by blast
    with parsed show ?thesis by simp
  qed
qed

text \<open>
  C24. The parsing worker never runs into undefined behaviour. On a worker at rest whose queue holds
  receive buffers, and with no failing allocation, the loop body fails to return exactly when the
  packet makes the parser loop for ever. Otherwise it consumes one datagram, keeps the queues, the
  segmentation buffer and the counters well formed, and goes on; a packet that the parser rejects
  makes the worker return -1, after which it parses nothing any more.
\<close>

theorem parser_step_safe:
  assumes "worker_ok w" and "\<not> p_legacy_proto w" and "q_list (p_input w) = Some um # xs"
  shows "(parser_step now w [] = None \<longleftrightarrow> parse_with_metadata (um_buffer um) um [] = None) \<and>
    (\<forall>r. parser_step now w [] = Some r \<longrightarrow>
      (\<exists>v w'. r = Inr (v, w', []) \<and> worker_ok w' \<and> q_list (p_input w') = xs \<and>
        v = (if parse_with_metadata (um_buffer um) um [] = Some (Inr (None, [])) then Some (-1) else None)))"
  using parser_step_outcome[OF assms, of now] by blast

lemma passed_on_output:
  assumes "passed_on w msg w'" "observation_domain_id (header msg) = odid" "message_id (header msg) = mid"
  shows "q_list (p_output w') = q_list (p_output w) @
      (if length (q_list (p_output w)) < q_size (p_output w) - 1 then [Some msg] else []) \<and>
    (p_monitoring_running w \<longrightarrow>
      counted (length (q_list (p_output w)) < q_size (p_output w) - 1) odid mid (p_counters w) (p_counters w'))"
  using assms by (auto simp: passed_on_def has_room_def split: if_splits)

text \<open>
  A message that fits one datagram. When the packet at the head of the input queue parses to
  an unsegmented message, one step of the worker passes exactly that message to the output queue,
  or drops it when the queue is full; with monitoring on, the counters of its domain count it as
  received or as dropped. The segmentation buffer is not touched.
\<close>

lemma unsegmented_message_passed_on:
  assumes "worker_ok w" and "\<not> p_legacy_proto w" and "q_list (p_input w) = Some um # xs"
    and "parse_with_metadata (um_buffer um) um [] = Some (Inr (Some seg, []))"
    and "options_total_bytes (options (header seg)) = Inr n" and "\<not> is_segmented (header seg) n"
  shows "\<exists>w'. parser_step now w [] = Some (Inr (None, w', [])) \<and>
    q_list (p_output w') = q_list (p_output w) @
      (if length (q_list (p_output w)) < q_size (p_output w) - 1 then [Some seg] else []) \<and>
    (p_monitoring_running w \<longrightarrow>
      counted (length (q_list (p_output w)) < q_size (p_output w) - 1)
        (observation_domain_id (header seg)) (message_id (header seg)) (p_counters w) (p_counters w')) \<and>
    p_segment_buff w' = p_segment_buff w"
  using parser_step_plain[OF assms, of now] passed_on_output[OF _ refl refl, of w seg] by blast

text \<open>
  C25. A segment of a larger message. One step of the worker inserts the segment into the list of
  its message. If that does not complete the message, nothing is passed on. If it does, the
  message put together from all its segments, with the addresses and identifiers of the segment
  that arrived last, goes to the output queue (or is dropped and counted when the queue is full), and the
  message leaves the segmentation buffer. As long as no clean-up is due, no other message is changed.
\<close>

theorem segment_stored_or_completed:
  assumes "worker_ok w" and "\<not> p_legacy_proto w" and "q_list (p_input w) = Some um # xs"
    and "parse_with_metadata (um_buffer um) um [] = Some (Inr (Some seg, []))"
    and "options_total_bytes (options (header seg)) = Inr n" and "is_segmented (header seg) n"
    and "cleanup (p_segment_buff w) \<noteq> 1" and "inserted (p_segment_buff w) seg = (r, m)"
  shows "\<exists>w'. parser_step now w [] = Some (Inr (None, w', [])) \<and>
    (if r = 1 \<or> r = -2
     then q_list (p_output w') = q_list (p_output w) @
         (if length (q_list (p_output w)) < q_size (p_output w) - 1 then [Some (assembled seg m)] else []) \<and>
       (p_monitoring_running w \<longrightarrow>
         counted (length (q_list (p_output w)) < q_size (p_output w) - 1)
           (observation_domain_id (header seg)) (message_id (header seg)) (p_counters w) (p_counters w'))
     else p_output w' = p_output w \<and> p_counters w' = p_counters w) \<and>
    (\<forall>o' m'. message_at (p_segment_buff w') o' m' =
      (if (o', m') = (observation_domain_id (header seg), message_id (header seg))
       then (if r = 1 \<or> r = -2 then None else Some m) else message_at (p_segment_buff w) o' m'))"
proof -
  obtain w' where w': "parser_step now w [] = Some (Inr (None, w', []))"
    "if r = 1 \<or> r = -2 then passed_on w (assembled seg m) w'
     else p_output w' = p_output w \<and> p_counters w' = p_counters w"
    "\<forall>o' m'. message_at (p_segment_buff w') o' m' =
      (if (o', m') = (observation_domain_id (header seg), message_id (header seg))
       then (if r = 1 \<or> r = -2 then None else Some m) else message_at (p_segment_buff w) o' m')"
    using parser_step_segment[OF assms(1-6,8)] assms(7) by blast
  show ?thesis
  proof (cases "r = 1 \<or> r = -2")
    case True
    with w'(2) have "passed_on w (assembled seg m) w'" by simp
    from passed_on_output[OF this assembled_ids] w'(1,3) True show ?thesis
      by (intro exI[of _ w']) (simp only: if_True simp_thms, blast)
  next
    case False
    with w' show ?thesis by (intro exI[of _ w']) (simp only: if_False simp_thms)
  qed
qed

text \<open>
  The header length is cut to 8 bits and the message length to 16: what the payload getter of the API
  computes from them exceeds the size that was passed on by the bytes lost in the header length.
\<close>

lemma payload_length_word:
  fixes t :: u16 and n :: u32
  assumes "12 + unat n + 65535 < 4294967296"
  shows "unat ((ucast (12 + n + ucast t) :: u16) - ucast (ucast (12 + n) :: u8)) =
    (unat t + 256 * ((12 + unat n) div 256)) mod 65536"
proof -
  define H where "H = 12 + uint n"
  have n: "12 + uint n + 65535 < 4294967296" "0 \<le> uint n" using assms uint_nat[of n] by linarith+
  have t: "uint t < 65536" "0 \<le> uint t" using uint_lt2p[of t] by simp_all
  have h: "uint (12 + n) = H" using n by (simp add: H_def uint_word_ariths)
  have ht: "uint (12 + n + ucast t) = H + uint t" 
    using n t by (simp add: H_def uint_word_ariths unsigned_ucast_eq take_bit_int_eq_self)
  have a: "uint (ucast (12 + n + ucast t) :: u16) = (H + uint t) mod 65536"
    unfolding unsigned_ucast_eq ht by (simp add: take_bit_eq_mod)
  have b: "uint (ucast (ucast (12 + n) :: u8) :: u16) = H mod 256"
  proof -
    have "uint (ucast (12 + n) :: u8) = H mod 256" unfolding unsigned_ucast_eq h by (simp add: take_bit_eq_mod)
    moreover have "uint (ucast x :: u16) = uint x" for x :: u8
      using uint_lt2p[of x] by (subst unsigned_ucast_eq) (simp add: take_bit_int_eq_self)
    ultimately show ?thesis by metis
  qed
  have "uint ((ucast (12 + n + ucast t) :: u16) - ucast (ucast (12 + n) :: u8)) = (H + uint t - H mod 256) mod 65536"
    unfolding uint_word_ariths a b by (simp add: mod_simps)
  also have "H + uint t - H mod 256 = uint t + 256 * (H div 256)" by (simp add: minus_mod_eq_mult_div)
  finally have "int (unat ((ucast (12 + n + ucast t) :: u16) - ucast (ucast (12 + n) :: u8))) =
      int ((unat t + 256 * ((12 + unat n) div 256)) mod 65536)"
    by (simp add: H_def uint_nat[symmetric] zmod_int zdiv_int)
  then show ?thesis by (rule of_nat_eq_iff[THEN iffD1])
qed
text \<open>
  C26. The length of a reassembled message. The payload size is passed on as a 16-bit value, the message
  length is a 16-bit field and the header length an 8-bit one. With \<open>n\<close> bytes of options the payload getter
  of the API returns the length of the payload plus \<open>256 * ((12 + n) div 256)\<close>, modulo 65536: it is right
  when the payload has less than 65536 bytes and the options of all segments together less than 244; with
  more options and a payload that does not make the sum wrap it is larger than the payload buffer.
\<close>

theorem assembled_length_wraps:
  assumes "create_assembled_msg (Some bs) seg (ucast total_bytes) (Some os) opts_len [] = Inr (Some msg, as)"
    and "unat (total_bytes :: u32) = length bs" and "HEADER_BYTES + unat opts_len + 65535 < 4294967296"
  shows "payload msg = bs \<and>
    unat (unyte_udp_get_payload_length msg) = (length bs + 256 * ((HEADER_BYTES + unat opts_len) div 256)) mod 65536 \<and>
    (unat opts_len < 244 \<longrightarrow>
      (unat (unyte_udp_get_payload_length msg) = length bs \<longleftrightarrow> length bs < 65536)) \<and>
    (244 \<le> unat opts_len \<longrightarrow> length bs + 256 * ((HEADER_BYTES + unat opts_len) div 256) < 65536 \<longrightarrow>
      length (payload msg) < unat (unyte_udp_get_payload_length msg))"
proof -
  have msg: "payload msg = bs" "header_length (header msg) = ucast (of_nat HEADER_BYTES + opts_len)"
    "message_length (header msg) = ucast (of_nat HEADER_BYTES + opts_len + ucast (ucast total_bytes :: u16))"
    using assms(1) by (auto simp: create_assembled_msg_def Let_def bind_fault_eq_Inr)
  let ?x = "256 * ((HEADER_BYTES + unat opts_len) div 256)"
  have "unat (ucast total_bytes :: u16) = length bs mod 65536"
    using assms(2) by (simp add: unsigned_ucast_eq take_bit_nat_def)
  then have len: "unat (unyte_udp_get_payload_length msg) = (length bs + ?x) mod 65536"
    using payload_length_word[of opts_len "ucast total_bytes"] assms(3)
    by (simp add: unyte_udp_get_payload_length_def msg mod_add_left_eq)
  moreover have "?x = 0" if "unat opts_len < 244" using that by simp
  moreover have "256 \<le> ?x" if "244 \<le> unat opts_len"
    using that by (simp add: Suc_le_eq div_greater_zero_iff)
  ultimately show ?thesis using msg(1) by auto
qed

section \<open>A worker at work\<close>

text \<open>A queue that holds the given handles, with one free slot.\<close>

definition loaded_queue :: "'a option list \<Rightarrow> 'a unyte_udp_queue" where
  "loaded_queue xs = \<lparr>q_head = length xs, q_tail = 0, q_size = Suc (length xs), q_empty = 1,
     q_full = length xs, q_data = map Stored xs @ [Uninit]\<rparr>"

lemma loaded_queue_ok:
  "queue_inv (loaded_queue xs)" "q_list (loaded_queue xs) = xs" "q_size (loaded_queue xs) = Suc (length xs)"
proof -
  have used: "q_used (loaded_queue xs) = length xs"
    by (simp add: q_used_def loaded_queue_def ring_used_def)
  have slot: "q_slot (loaded_queue xs) i = Stored (xs ! i)" if "i < length xs" for i
    using that by (simp add: q_slot_def loaded_queue_def nth_append)
  show "queue_inv (loaded_queue xs)"
    using used slot by (simp add: queue_inv_def ring_ok_def) (simp add: loaded_queue_def)
  show "q_list (loaded_queue xs) = xs"
    using slot by (intro nth_equalityI) (simp_all add: used q_list_nth)
  show "q_size (loaded_queue xs) = Suc (length xs)" by (simp add: loaded_queue_def)
qed

text \<open>A worker with one datagram to parse, and room for one message.\<close>

definition sample_worker :: "unyte_min \<Rightarrow> segment_buffer \<Rightarrow> parser_thread_input" where
  "sample_worker um buf = \<lparr>parser_thread_id = 1, p_input = loaded_queue [Some um],
     p_output = \<lparr>q_head = 0, q_tail = 0, q_size = 2, q_empty = 2, q_full = 0, q_data = [Uninit, Uninit]\<rparr>,
     p_segment_buff = buf, p_counters = sample_counters, p_monitoring_running = True,
     p_legacy_proto = False, p_max_malloc_errs = 3\<rparr>"

definition datagram :: "bytes \<Rightarrow> unyte_min" where
  "datagram bs = sample_min\<lparr>um_buffer := bs @ replicate (UDP_SIZE - length bs) 0\<rparr>"

lemma sample_worker_ok:
  assumes "length bs \<le> UDP_SIZE" "buffer_ok buf"
  shows "worker_ok (sample_worker (datagram bs) buf)"
    "q_list (p_input (sample_worker (datagram bs) buf)) = [Some (datagram bs)]"
    "q_list (p_output (sample_worker (datagram bs) buf)) = []"
proof -
  show out: "q_list (p_output (sample_worker (datagram bs) buf)) = []"
    by (simp add: sample_worker_def q_list_def q_used_def ring_used_def)
  show inp: "q_list (p_input (sample_worker (datagram bs) buf)) = [Some (datagram bs)]"
    by (simp add: sample_worker_def loaded_queue_ok)
  have "queue_inv (p_output (sample_worker (datagram bs) buf))"
    by (simp add: sample_worker_def queue_inv_def ring_ok_def q_used_def ring_used_def)
  moreover have "datagram_ok (Some (datagram bs))"
    using assms(1) by (simp add: datagram_ok_def datagram_def sample_min_def)
  moreover have "queue_inv (p_input (sample_worker (datagram bs) buf))"
    "counters_ok (p_counters (sample_worker (datagram bs) buf))"
    "p_segment_buff (sample_worker (datagram bs) buf) = buf"
    by (simp_all add: sample_worker_def loaded_queue_ok sample_counters_ok)
  ultimately show "worker_ok (sample_worker (datagram bs) buf)"
    using inp assms(2) unfolding worker_ok_def by simp
qed

lemma empty_buffer_ok: "buffer_ok empty_buffer"
  by (simp add: buffer_ok_def)

lemma parse_sent_datagram:
  assumes "packet_ok seg os"
  shows "parse_with_metadata (um_buffer (datagram (packet_bytes seg os))) (datagram (packet_bytes seg os)) [] =
    Some (Inr (Some (received (datagram (packet_bytes seg os)) seg), []))"
    "length (packet_bytes seg os) \<le> UDP_SIZE"
proof -
  show "length (packet_bytes seg os) \<le> UDP_SIZE"
    using length_packet_bytes[OF assms] assms by (simp add: packet_ok_def)
  show "parse_with_metadata (um_buffer (datagram (packet_bytes seg os))) (datagram (packet_bytes seg os)) [] =
      Some (Inr (Some (received (datagram (packet_bytes seg os)) seg), []))"
    using parse_packet[OF assms] by (simp add: datagram_def)
qed

definition sample_plain :: unyte_seg_met where
  "sample_plain = sample_sent\<lparr>header := (header sample_sent)\<lparr>header_length := 16, f_type := None,
     f_len := None, f_num := None, f_last := None\<rparr>\<rparr>"

lemma sample_packets_ok:
  "packet_ok sample_sent [sample_option]" "packet_ok sample_plain [sample_option]"
  by (simp_all add: packet_ok_def segment_packet_def plain_packet_def sample_sent_def sample_plain_def
      wf_option_def sample_option_def)

abbreviation sample_run :: "unyte_seg_met \<Rightarrow> parser_thread_input" where
  "sample_run seg \<equiv> sample_worker (datagram (packet_bytes seg [sample_option])) empty_buffer"

lemma sample_run_ok:
  assumes "packet_ok seg [sample_option]"
  shows "worker_ok (sample_run seg)" "\<not> p_legacy_proto (sample_run seg)"
    "q_list (p_input (sample_run seg)) = Some (datagram (packet_bytes seg [sample_option])) # []"
    "q_list (p_output (sample_run seg)) = []" "q_size (p_output (sample_run seg)) = 2"
    "p_segment_buff (sample_run seg) = empty_buffer"
  using sample_worker_ok[OF parse_sent_datagram(2)[OF assms] empty_buffer_ok]
  by (simp_all add: sample_worker_def)

theorem parser_step_safe_witness:
  "\<exists>w'. parser_step 0 (sample_run sample_sent) [] = Some (Inr (None, w', [])) \<and> worker_ok w' \<and>
    q_list (p_input w') = []"
proof -
  note p = parse_sent_datagram(1)[OF sample_packets_ok(1)]
  note s = parser_step_safe[OF sample_run_ok(1-3)[OF sample_packets_ok(1)], of 0, unfolded p]
  then obtain r where "parser_step 0 (sample_run sample_sent) [] = Some r" by auto
  with s show ?thesis by auto
qed

theorem segment_stored_or_completed_witness:
  "\<exists>w' m. parser_step 0 (sample_run sample_sent) [] = Some (Inr (None, w', [])) \<and>
    q_list (p_output w') = [] \<and> message_at (p_segment_buff w') 7 9 = Some m \<and> total_size m = 128"
proof -
  let ?um = "datagram (packet_bytes sample_sent [sample_option])"
  let ?seg = "received ?um sample_sent"
  have n: "options_total_bytes (options (header ?seg)) = Inr 4" "is_segmented (header ?seg) 4"
    by (simp_all add: options_total_bytes_def received_def sample_sent_def sample_option_def is_segmented_def)
  have flag: "cleanup (p_segment_buff (sample_run sample_sent)) \<noteq> 1"
    by (simp add: sample_worker_def empty_buffer_def)
  have ids: "observation_domain_id (header ?seg) = 7" "message_id (header ?seg) = 9"
    by (simp_all add: received_def sample_sent_def)
  obtain m where ins: "inserted (p_segment_buff (sample_run sample_sent)) ?seg = (0, m)" "total_size m = 128"
    by (simp add: inserted_def sample_worker_def known_or_new_def received_def sample_sent_def
        insert_into_msl_def new_msl_def count_segment_def append_options_def build_message_empty_options_def
        msl_complete_def)
  note ok = sample_run_ok[OF sample_packets_ok(1)]
  from segment_stored_or_completed[OF ok(1-3) parse_sent_datagram(1)[OF sample_packets_ok(1)] n flag ins(1), of 0]
  obtain w' where "parser_step 0 (sample_run sample_sent) [] = Some (Inr (None, w', []))"
    "p_output w' = p_output (sample_run sample_sent)" "message_at (p_segment_buff w') 7 9 = Some m"
    unfolding ids by auto
  with ins(2) ok(4) show ?thesis by auto
qed

theorem assembled_length_wraps_witness:
  "\<exists>msg as. create_assembled_msg (Some [1, 2, 3]) (received sample_min sample_sent) (ucast (3 :: u32))
      (Some (replicate 2 \<lparr>opt_type = 3, opt_length = 122, opt_data = replicate 120 0\<rparr>)) 244 [] = Inr (Some msg, as) \<and>
    length (payload msg) = 3 \<and> unat (unyte_udp_get_payload_length msg) = 259"
proof -
  obtain msg as where run: "create_assembled_msg (Some [1, 2, 3]) (received sample_min sample_sent)
      (ucast (3 :: u32)) (Some (replicate 2 \<lparr>opt_type = 3, opt_length = 122, opt_data = replicate 120 0\<rparr>)) 244 [] = Inr (Some msg, as)"
    by (simp add: create_assembled_msg_def received_def sample_min_def copy_unyte_seg_met_metadata_def Let_def)
  from assembled_length_wraps[OF run] run show ?thesis by simp
qed

end
