(* ===== verification/Memory_Segments.thy ===== *)
theory Memory_Segments
  imports Memory_Clear Parser
begin

text \<open>
  Parsed segments and assembled messages at the level of their blocks: the structure, its header
  with the options, its metadata with the two addresses, and the payload. The functions that free
  them (\<^verbatim>\<open>src/unyte_udp_collector.c\<close>) and \<^verbatim>\<open>create_assembled_msg\<close>
  (\<^verbatim>\<open>src/parsing_worker.c\<close>), which makes a message out of the parts of a complete one.
\<close>

section \<open>Operations\<close>

subsection \<open>Freeing\<close>

definition unyte_udp_free_payload_mem :: "memory \<Rightarrow> addr \<Rightarrow> fault + memory" where
  "unyte_udp_free_payload_mem m seg = bind_fault (seg_met_at m seg) (\<lambda>s. free m (sm_payload s))"

definition unyte_udp_free_options_mem :: "memory \<Rightarrow> addr \<Rightarrow> (fault + memory) option" where
  "unyte_udp_free_options_mem m opts =
     bind_run (Some (node_at m opts)) (\<lambda>n.
     bind_run (free_option_nodes m (on_next n)) (\<lambda>m1. Some (free m1 opts)))"

definition unyte_udp_free_header_mem :: "memory \<Rightarrow> addr \<Rightarrow> (fault + memory) option" where
  "unyte_udp_free_header_mem m seg =
     bind_run (Some (seg_met_at m seg)) (\<lambda>s.
     bind_run (Some (header_at m (sm_header s))) (\<lambda>(_, opts).
     bind_run (unyte_udp_free_options_mem m opts) (\<lambda>m1.
     bind_run (Some (seg_met_at m1 seg)) (\<lambda>s1. Some (free m1 (sm_header s1))))))"

definition unyte_udp_free_metadata_mem :: "memory \<Rightarrow> addr \<Rightarrow> fault + memory" where
  "unyte_udp_free_metadata_mem m seg =
     bind_fault (seg_met_at m seg) (\<lambda>s.
     bind_fault (metadata_at m (sm_metadata s)) (\<lambda>md.
     bind_fault (free m (md_src md)) (\<lambda>m1.
     bind_fault (metadata_at m1 (sm_metadata s)) (\<lambda>md1.
     bind_fault (free m1 (md_dest md1)) (\<lambda>m2. free m2 (sm_metadata s))))))"

definition unyte_udp_free_all_mem :: "memory \<Rightarrow> addr \<Rightarrow> (fault + memory) option" where
  "unyte_udp_free_all_mem m seg =
     bind_run (Some (unyte_udp_free_payload_mem m seg)) (\<lambda>m1.
     bind_run (unyte_udp_free_header_mem m1 seg) (\<lambda>m2.
     bind_run (Some (unyte_udp_free_metadata_mem m2 seg)) (\<lambda>m3. Some (free m3 seg))))"

subsection \<open>Assembled messages\<close>

text \<open>A sequence of allocations, and a sequence of calls of \<^verbatim>\<open>free\<close>.\<close>

fun new_blocks :: "memory \<Rightarrow> block list \<Rightarrow> addr list \<times> memory" where
  "new_blocks m [] = ([], m)"
| "new_blocks m (b # bs) =
     (let (a, m1) = new_block m b; (as, m2) = new_blocks m1 bs in (a # as, m2))"

fun free_blocks :: "memory \<Rightarrow> addr list \<Rightarrow> fault + memory" where
  "free_blocks m [] = Inr m"
| "free_blocks m (a # as) = bind_fault (free m a) (\<lambda>m1. free_blocks m1 as)"

text \<open>
  The second half of \<^verbatim>\<open>create_assembled_msg\<close>, once all allocations succeeded: the addresses of
  the new structure, header, metadata, source, destination and options, the payload, and the
  pointers of the segment that completed the message.
\<close>

definition fill_assembled_msg ::
  "memory \<Rightarrow> addr \<Rightarrow> addr \<Rightarrow> addr \<Rightarrow> addr \<Rightarrow> addr \<Rightarrow> addr \<Rightarrow> addr \<Rightarrow>
    seg_met_fields \<Rightarrow> metadata_fields \<Rightarrow> u16 \<Rightarrow> addr \<Rightarrow> u32 \<Rightarrow> fault + (addr \<times> memory)" where
  "fill_assembled_msg m p h md s d op complete_msg sm smd total_bytes opts_head opts_len =
     (let m1 = store m p (Seg_Met \<lparr>sm_metadata = md, sm_header = h, sm_payload = 0\<rparr>);
          m2 = store m1 md (Metadata \<lparr>md_src = s, md_dest = d\<rparr>) in
      bind_fault (header_at m2 (sm_header sm)) (\<lambda>(hs, _).
      let hd = (copy_unyte_seg_met_headers new_header hs)
                 \<lparr>header_length := ucast (of_nat HEADER_BYTES + opts_len),
                  message_length := ucast (of_nat HEADER_BYTES + opts_len + ucast total_bytes)\<rparr> in
      bind_fault (node_at m2 opts_head) (\<lambda>n.
      let m3 = store m2 op (head_node (on_next n));
          m4 = store m3 h (Header hd op);
          m5 = store m4 opts_head (Option_Node (n\<lparr>on_next := 0\<rparr>)) in
      bind_fault (sockaddr_at m5 (md_src smd)) (\<lambda>a.
      let m6 = store m5 s (Sockaddr a) in
      bind_fault (if md_dest smd \<noteq> 0
                  then bind_fault (sockaddr_at m6 (md_dest smd)) (\<lambda>b. Inr (store m6 d (Sockaddr b)))
                  else Inr m6) (\<lambda>m7.
      Inr (p, store m7 p (Seg_Met \<lparr>sm_metadata = md, sm_header = h, sm_payload = complete_msg\<rparr>)))))))"

text \<open>The contents of the new blocks are overwritten before they are read; 0 is \<^verbatim>\<open>NULL\<close>.\<close>

definition create_assembled_msg_mem ::
  "memory \<Rightarrow> addr \<Rightarrow> addr \<Rightarrow> u16 \<Rightarrow> addr \<Rightarrow> u32 \<Rightarrow> fault + (addr \<times> memory)" where
  "create_assembled_msg_mem m complete_msg seg total_bytes opts_head opts_len =
     (if complete_msg = 0 then Inr (0, m)
      else
        bind_fault (seg_met_at m seg) (\<lambda>sm.
        bind_fault (metadata_at m (sm_metadata sm)) (\<lambda>smd.
        let (as, m1) = new_blocks m
              ([Seg_Met \<lparr>sm_metadata = 0, sm_header = 0, sm_payload = 0\<rparr>, Header new_header 0,
                Metadata \<lparr>md_src = 0, md_dest = 0\<rparr>, Sockaddr new_sockaddr, head_node 0] @
               (if md_dest smd \<noteq> 0 then [Sockaddr new_sockaddr] else []));
            d = (if md_dest smd \<noteq> 0 then as ! 5 else 0) in
        if 0 \<in> set as then
          bind_fault (free_blocks m1 [as ! 0, as ! 1, as ! 2, as ! 3, d, as ! 4]) (\<lambda>m2. Inr (0, m2))
        else
          fill_assembled_msg m1 (as ! 0) (as ! 1) (as ! 2) (as ! 3) d (as ! 4) complete_msg sm smd
            total_bytes opts_head opts_len)))"

section \<open>Annotated segments\<close>

text \<open>An address structure that may be missing.\<close>

definition sock_pointer :: "(addr \<times> sockaddr_storage) option \<Rightarrow> addr" where
  "sock_pointer x = (case x of None \<Rightarrow> 0 | Some (a, _) \<Rightarrow> a)"

definition sock_blocks :: "(addr \<times> sockaddr_storage) option \<Rightarrow> region" where
  "sock_blocks x = (case x of None \<Rightarrow> {#} | Some (a, s) \<Rightarrow> {#(a, Sockaddr s)#})"

record a_segment =
  sg_addr :: addr
  sg_header_addr :: addr
  sg_header :: unyte_header
  sg_options_addr :: addr
  sg_options :: "a_option list"
  sg_metadata_addr :: addr
  sg_src :: "(addr \<times> sockaddr_storage) option"
  sg_dest :: "(addr \<times> sockaddr_storage) option"
  sg_payload_addr :: addr
  sg_payload :: bytes

text \<open>All blocks but those of the payload and the options.\<close>

definition frame_blocks :: "a_segment \<Rightarrow> region" where
  "frame_blocks sg =
     add_mset (sg_addr sg, Seg_Met \<lparr>sm_metadata = sg_metadata_addr sg, sm_header = sg_header_addr sg,
                                    sm_payload = sg_payload_addr sg\<rparr>)
      (add_mset (sg_header_addr sg, Header (sg_header sg) (sg_options_addr sg))
        (add_mset (sg_metadata_addr sg, Metadata \<lparr>md_src = sock_pointer (sg_src sg), md_dest = sock_pointer (sg_dest sg)\<rparr>)
          (sock_blocks (sg_src sg) + sock_blocks (sg_dest sg))))"

definition segment_blocks :: "a_segment \<Rightarrow> region" where
  "segment_blocks sg =
     frame_blocks sg + (add_mset (sg_payload_addr sg, Raw (sg_payload sg))
       (option_list_blocks (sg_options_addr sg) (sg_options sg)))"

text \<open>The segment as the other theories see it.\<close>

definition seg_of :: "a_segment \<Rightarrow> unyte_seg_met" where
  "seg_of sg =
     \<lparr>metadata = \<lparr>src = map_option snd (sg_src sg), dest = map_option snd (sg_dest sg)\<rparr>,
      header = (sg_header sg)\<lparr>options := Some (vals (sg_options sg))\<rparr>, payload = sg_payload sg\<rparr>"

section \<open>Freeing\<close>

lemma free_sock_run:
  assumes "owns m (sock_blocks x + F)"
  shows "\<exists>m'. free m (sock_pointer x) = Inr m' \<and> owns m' F \<and> outcomes m' = outcomes m"
proof (cases x)
  case None
  then show ?thesis using assms by (simp add: sock_pointer_def sock_blocks_def free_def)
next
  case (Some y)
  then show ?thesis
    using assms owns_free[of m "fst y" "Sockaddr (snd y)" F]
    by (cases y) (simp add: sock_pointer_def sock_blocks_def)
qed

lemma frame_reads:
  assumes "owns m (frame_blocks sg + F)"
  shows "seg_met_at m (sg_addr sg) = Inr \<lparr>sm_metadata = sg_metadata_addr sg, sm_header = sg_header_addr sg,
      sm_payload = sg_payload_addr sg\<rparr>"
    "header_at m (sg_header_addr sg) = Inr (sg_header sg, sg_options_addr sg)"
    "metadata_at m (sg_metadata_addr sg) =
      Inr \<lparr>md_src = sock_pointer (sg_src sg), md_dest = sock_pointer (sg_dest sg)\<rparr>"
  using owns_load(8,9,10)[OF assms] by (simp_all add: frame_blocks_def)

lemma free_options_run:
  assumes "owns m (option_list_blocks p xs + F)"
  shows "\<exists>m'. unyte_udp_free_options_mem m p = Some (Inr m') \<and> owns m' F \<and> outcomes m' = outcomes m"
  using free_option_list_run[OF assms] by (auto simp: unyte_udp_free_options_mem_def)

text \<open>The structure, its header, options and metadata, without the payload.\<close>

lemma free_frame_run:
  assumes o: "owns m (frame_blocks sg + (option_list_blocks (sg_options_addr sg) xs + F))"
  shows "\<exists>m1 m2 m3. unyte_udp_free_header_mem m (sg_addr sg) = Some (Inr m1) \<and>
    unyte_udp_free_metadata_mem m1 (sg_addr sg) = Inr m2 \<and> free m2 (sg_addr sg) = Inr m3 \<and>
    owns m3 F \<and> outcomes m3 = outcomes m"
proof -
  let ?S = "(sg_addr sg, Seg_Met \<lparr>sm_metadata = sg_metadata_addr sg, sm_header = sg_header_addr sg,
    sm_payload = sg_payload_addr sg\<rparr>)"
  let ?H = "(sg_header_addr sg, Header (sg_header sg) (sg_options_addr sg))"
  let ?M = "(sg_metadata_addr sg, Metadata \<lparr>md_src = sock_pointer (sg_src sg), md_dest = sock_pointer (sg_dest sg)\<rparr>)"
  let ?socks = "sock_blocks (sg_src sg) + sock_blocks (sg_dest sg)"
  have "owns m (option_list_blocks (sg_options_addr sg) xs + (frame_blocks sg + F))"
    using o by (simp add: region_ac)
  then obtain m0 where m0: "unyte_udp_free_options_mem m (sg_options_addr sg) = Some (Inr m0)"
    "owns m0 (frame_blocks sg + F)" "outcomes m0 = outcomes m"
    using free_options_run by blast
  have "owns m0 (add_mset ?H (add_mset ?S (add_mset ?M (?socks + F))))"
    using m0(2) by (simp add: frame_blocks_def region_ac)
  then obtain m1 where m1: "free m0 (sg_header_addr sg) = Inr m1"
    "owns m1 (add_mset ?S (add_mset ?M (?socks + F)))" "outcomes m1 = outcomes m0"
    using owns_free by blast
  have header: "unyte_udp_free_header_mem m (sg_addr sg) = Some (Inr m1)"
    using frame_reads[OF o] frame_reads(1)[OF m0(2)] m0(1) m1(1)
    by (simp add: unyte_udp_free_header_mem_def)
  have "owns m1 (sock_blocks (sg_src sg) + (sock_blocks (sg_dest sg) + add_mset ?S (add_mset ?M F)))"
    using m1(2) by (simp add: region_ac)
  then obtain m1a where m1a: "free m1 (sock_pointer (sg_src sg)) = Inr m1a"
    "owns m1a (sock_blocks (sg_dest sg) + add_mset ?S (add_mset ?M F))" "outcomes m1a = outcomes m1"
    using free_sock_run by blast
  obtain m1b where m1b: "free m1a (sock_pointer (sg_dest sg)) = Inr m1b"
    "owns m1b (add_mset ?S (add_mset ?M F))" "outcomes m1b = outcomes m1a"
    using free_sock_run[OF m1a(2)] by blast
  have "owns m1b (add_mset ?M (add_mset ?S F))" using m1b(2) by (simp add: add_mset_commute)
  then obtain m2 where m2: "free m1b (sg_metadata_addr sg) = Inr m2" "owns m2 (add_mset ?S F)"
    "outcomes m2 = outcomes m1b"
    using owns_free by blast
  have "seg_met_at m1 (sg_addr sg) = Inr \<lparr>sm_metadata = sg_metadata_addr sg,
      sm_header = sg_header_addr sg, sm_payload = sg_payload_addr sg\<rparr>"
    "metadata_at m1 (sg_metadata_addr sg) =
      Inr \<lparr>md_src = sock_pointer (sg_src sg), md_dest = sock_pointer (sg_dest sg)\<rparr>"
    "metadata_at m1a (sg_metadata_addr sg) =
      Inr \<lparr>md_src = sock_pointer (sg_src sg), md_dest = sock_pointer (sg_dest sg)\<rparr>"
    using owns_load(9,10)[OF m1(2)] owns_load(9)[OF m1a(2)] by simp_all
  then have "unyte_udp_free_metadata_mem m1 (sg_addr sg) = Inr m2"
    using m1a(1) m1b(1) m2(1) by (simp add: unyte_udp_free_metadata_mem_def)
  with header m2(2,3) m1b(3) m1a(3) m1(3) m0(3) show ?thesis
    using owns_free[OF m2(2)] by auto
qed

lemma free_all_run:
  assumes "owns m (segment_blocks sg + F)"
  shows "\<exists>m'. unyte_udp_free_all_mem m (sg_addr sg) = Some (Inr m') \<and> owns m' F \<and> outcomes m' = outcomes m"
proof -
  have "owns m (add_mset (sg_payload_addr sg, Raw (sg_payload sg))
      (frame_blocks sg + (option_list_blocks (sg_options_addr sg) (sg_options sg) + F)))"
    using assms by (simp add: segment_blocks_def region_ac)
  then obtain m1 where m1: "free m (sg_payload_addr sg) = Inr m1" "outcomes m1 = outcomes m"
    "owns m1 (frame_blocks sg + (option_list_blocks (sg_options_addr sg) (sg_options sg) + F))"
    using owns_free by blast
  have "seg_met_at m (sg_addr sg) = Inr \<lparr>sm_metadata = sg_metadata_addr sg, sm_header = sg_header_addr sg,
      sm_payload = sg_payload_addr sg\<rparr>"
    using frame_reads(1)[of m sg "add_mset (sg_payload_addr sg, Raw (sg_payload sg))
       (option_list_blocks (sg_options_addr sg) (sg_options sg)) + F"] assms
    by (simp add: segment_blocks_def union_assoc)
  then show ?thesis
    using free_frame_run[OF m1(3)] m1(1,2)
    by (auto simp: unyte_udp_free_all_mem_def unyte_udp_free_payload_mem_def)
qed

interpretation option_list: reclaimable "\<lambda>(p, xs). option_list_blocks p xs" fst unyte_udp_free_options_mem
proof
  show "\<exists>m'. unyte_udp_free_options_mem m (fst x) = Some (Inr m') \<and> owns m' F \<and> outcomes m' = outcomes m"
    if "owns m ((case x of (p, xs) \<Rightarrow> option_list_blocks p xs) + F)" for m F and x :: "addr \<times> a_option list"
    using that by (cases x) (simp add: free_options_run)
  show "\<exists>b. (fst x, b) \<in># (case x of (p, xs) \<Rightarrow> option_list_blocks p xs)" for x
    by (cases x) (auto simp: option_list_blocks_def)
qed

interpretation seg: reclaimable segment_blocks sg_addr unyte_udp_free_all_mem
proof
  show "\<exists>m'. unyte_udp_free_all_mem m (sg_addr x) = Some (Inr m') \<and> owns m' F \<and> outcomes m' = outcomes m"
    if "owns m (segment_blocks x + F)" for m x F
    by (rule free_all_run[OF that])
  show "\<exists>b. (sg_addr x, b) \<in># segment_blocks x" for x
    by (auto simp: segment_blocks_def frame_blocks_def)
qed

section \<open>Assembled messages\<close>

text \<open>The blocks that were allocated: those with an address.\<close>

definition allocated :: "addr list \<Rightarrow> block list \<Rightarrow> region" where
  "allocated as bs = mset (filter (\<lambda>x. fst x \<noteq> 0) (zip as bs))"

lemma allocated_simps [simp]:
  "allocated [] bs = {#}" "allocated (0 # as) (b # bs) = allocated as bs"
  "a \<noteq> 0 \<Longrightarrow> allocated (a # as) (b # bs) = add_mset (a, b) (allocated as bs)"
  by (simp_all add: allocated_def)

lemma new_blocks_run:
  assumes "owns m F"
  shows "\<exists>as m'. new_blocks m bs = (as, m') \<and> length as = length bs \<and>
    mallocs (length bs) (outcomes m) = (0 \<notin> set as, outcomes m') \<and> owns m' (allocated as bs + F)"
  using assms
proof (induction bs arbitrary: m F)
  case Nil
  then show ?case by simp
next
  case (Cons b bs)
  obtain ok as1 where as1: "malloc (outcomes m) = (ok, as1)" by (cases "malloc (outcomes m)")
  show ?case
  proof (cases ok)
    case True
    then have "malloc (outcomes m) = (True, as1)" using as1 by simp
    then obtain a m1 where m1: "new_block m b = (a, m1)" "a \<noteq> 0" "owns m1 (add_mset (a, b) F)"
      "outcomes m1 = as1"
      using owns_new_block[OF Cons.prems] by blast
    obtain as m' where "new_blocks m1 bs = (as, m')" "length as = length bs"
      "mallocs (length bs) (outcomes m1) = (0 \<notin> set as, outcomes m')"
      "owns m' (allocated as bs + add_mset (a, b) F)"
      using Cons.IH[OF m1(3)] by blast
    then show ?thesis
      using m1 as1 True by (intro exI[of _ "a # as"] exI[of _ m']) (simp add: region_ac)
  next
    case False
    then have failed: "malloc (outcomes m) = (False, as1)" using as1 by simp
    note f = new_block_failed[OF Cons.prems failed]
    obtain as m' where "new_blocks (m\<lparr>outcomes := as1\<rparr>) bs = (as, m')" "length as = length bs"
      "mallocs (length bs) as1 = (0 \<notin> set as, outcomes m')" "owns m' (allocated as bs + F)"
      using Cons.IH[OF f(2)] by auto
    then show ?thesis
      using f(1) failed by (intro exI[of _ "0 # as"] exI[of _ m']) simp
  qed
qed

lemma free_blocks_run:
  assumes "owns m (allocated as bs + F)" and "length as = length bs"
  shows "\<exists>m'. free_blocks m as = Inr m' \<and> owns m' F \<and> outcomes m' = outcomes m"
  using assms(2,1)
proof (induction as bs arbitrary: m rule: list_induct2)
  case Nil
  then show ?case by simp
next
  case (Cons a as b bs)
  show ?case
  proof (cases "a = 0")
    case True
    then show ?thesis using Cons by (simp add: free_def)
  next
    case False
    then have "owns m (add_mset (a, b) (allocated as bs + F))" using Cons.prems by simp
    then obtain m1 where "free m a = Inr m1" "owns m1 (allocated as bs + F)" "outcomes m1 = outcomes m"
      using owns_free by blast
    then show ?thesis using Cons.IH by fastforce
  qed
qed

text \<open>The message that is made, with its blocks.\<close>

definition a_assembled ::
  "addr \<Rightarrow> addr \<Rightarrow> addr \<Rightarrow> addr \<Rightarrow> addr \<Rightarrow> addr \<Rightarrow> addr \<Rightarrow> bytes \<Rightarrow> a_segment \<Rightarrow> u16 \<Rightarrow> a_option list \<Rightarrow> u32 \<Rightarrow> a_segment"
where
  "a_assembled p h md s d op ct bs sg tb ys len =
     \<lparr>sg_addr = p, sg_header_addr = h,
      sg_header = (copy_unyte_seg_met_headers new_header (sg_header sg))
        \<lparr>header_length := ucast (of_nat HEADER_BYTES + len),
         message_length := ucast (of_nat HEADER_BYTES + len + ucast tb)\<rparr>,
      sg_options_addr = op, sg_options = ys, sg_metadata_addr = md,
      sg_src = map_option (\<lambda>x. (s, snd x)) (sg_src sg), sg_dest = map_option (\<lambda>x. (d, snd x)) (sg_dest sg),
      sg_payload_addr = ct, sg_payload = bs\<rparr>"

text \<open>The message in the table after its options were taken: the tail pointer is not updated.\<close>

definition without_options :: "a_message \<Rightarrow> addr \<Rightarrow> a_message" where
  "without_options am p = am\<lparr>am_options := Some (p, [])\<rparr>"

lemma without_options_region:
  assumes "am_options am = Some (p, ys)"
  shows "\<exists>R. message_blocks am = add_mset (p, head_node (first_addr ys 0)) (option_blocks ys 0 + R) \<and>
    message_blocks (without_options am p) = add_mset (p, head_node 0) R"
proof -
  have "head_fields (without_options am p) = head_fields am"
    using assms by (simp add: without_options_def head_fields_def)
  then show ?thesis
    using assms by (intro exI[of _ "add_mset (am_addr am, Msl_Head (head_fields am)) (cell_blocks (am_cells am) 0)"])
      (simp add: message_blocks_def am_option_blocks_def without_options_def option_list_blocks_def region_ac)
qed

text \<open>Writing one block of a region, wherever it stands in the sum.\<close>

lemma owns_store_in:
  "owns m M \<Longrightarrow> M = add_mset (a, b) R \<Longrightarrow> N = add_mset (a, b') R \<Longrightarrow> owns (store m a b') N"
  using owns_store by blast

definition dest_block :: "addr \<Rightarrow> sockaddr_storage \<Rightarrow> (addr \<times> sockaddr_storage) option \<Rightarrow> region" where
  "dest_block d v x = (case x of None \<Rightarrow> {#} | Some _ \<Rightarrow> {#(d, Sockaddr v)#})"

lemma frame_members:
  assumes "owns m M" and "set_mset (frame_blocks sg) \<subseteq> set_mset M"
  shows "header_at m (sg_header_addr sg) = Inr (sg_header sg, sg_options_addr sg)"
    "sg_src sg = Some (a, v) \<Longrightarrow> sockaddr_at m a = Inr v"
    "sg_dest sg = Some (a', v') \<Longrightarrow> sockaddr_at m a' = Inr v' \<and> a' \<noteq> 0"
proof -
  show "header_at m (sg_header_addr sg) = Inr (sg_header sg, sg_options_addr sg)"
    using owns_load(8)[OF assms(1)] assms(2) by (simp add: frame_blocks_def)
  show "sockaddr_at m a = Inr v" if "sg_src sg = Some (a, v)"
    using owns_load(7)[OF assms(1), of a v] assms(2) that by (auto simp: frame_blocks_def sock_blocks_def)
  show "sockaddr_at m a' = Inr v' \<and> a' \<noteq> 0" if "sg_dest sg = Some (a', v')"
    using owns_load(7)[OF assms(1), of a' v'] owns_mem(2)[OF assms(1), of a' "Sockaddr v'"] assms(2) that
    by (auto simp: frame_blocks_def sock_blocks_def)
qed

text \<open>The blocks that \<^verbatim>\<open>fill_assembled_msg\<close> writes to.\<close>

definition parts ::
  "(addr \<times> block) \<Rightarrow> (addr \<times> block) \<Rightarrow> (addr \<times> block) \<Rightarrow> (addr \<times> block) \<Rightarrow> (addr \<times> block) \<Rightarrow> (addr \<times> block) \<Rightarrow>
    region \<Rightarrow> region" where
  "parts x1 x2 x3 x4 x5 x6 F = {#x1, x2, x3, x4, x5, x6#} + F"

lemma parts_store:
  assumes "owns m (parts (a1, b1) (a2, b2) (a3, b3) (a4, b4) (a5, b5) (a6, b6) F)"
  shows "owns (store m a1 c) (parts (a1, c) (a2, b2) (a3, b3) (a4, b4) (a5, b5) (a6, b6) F)"
    "owns (store m a2 c) (parts (a1, b1) (a2, c) (a3, b3) (a4, b4) (a5, b5) (a6, b6) F)"
    "owns (store m a3 c) (parts (a1, b1) (a2, b2) (a3, c) (a4, b4) (a5, b5) (a6, b6) F)"
    "owns (store m a4 c) (parts (a1, b1) (a2, b2) (a3, b3) (a4, c) (a5, b5) (a6, b6) F)"
    "owns (store m a5 c) (parts (a1, b1) (a2, b2) (a3, b3) (a4, b4) (a5, c) (a6, b6) F)"
    "owns (store m a6 c) (parts (a1, b1) (a2, b2) (a3, b3) (a4, b4) (a5, b5) (a6, c) F)"
  by (rule owns_store_in[OF assms]; simp add: parts_def region_ac)+

lemma fill_assembled_run:
  assumes o: "owns m (parts (p, P) (h, H) (md, M) (s, Sockaddr sv0) (op, head_node 0) (oh, head_node (first_addr ys 0))
      (dest_block d dv0 (sg_dest sg) + (frame_blocks sg + F)))"
    and src: "sg_src sg = Some (sa, sv)" and d: "sg_dest sg = None \<Longrightarrow> d = 0"
  shows "\<exists>m'. fill_assembled_msg m p h md s d op ct
      \<lparr>sm_metadata = sg_metadata_addr sg, sm_header = sg_header_addr sg, sm_payload = sg_payload_addr sg\<rparr>
      \<lparr>md_src = sock_pointer (sg_src sg), md_dest = sock_pointer (sg_dest sg)\<rparr> tb oh len = Inr (p, m') \<and>
    outcomes m' = outcomes m \<and>
    owns m' (frame_blocks (a_assembled p h md s d op ct bs sg tb ys len) +
      add_mset (op, head_node (first_addr ys 0)) (add_mset (oh, head_node 0) (frame_blocks sg + F)))"
proof -
  let ?hd = "sg_header (a_assembled p h md s d op ct bs sg tb ys len)" and ?q = "first_addr ys 0"
  let ?sm = "\<lambda>x. Seg_Met \<lparr>sm_metadata = md, sm_header = h, sm_payload = x\<rparr>"
  let ?md = "Metadata \<lparr>md_src = s, md_dest = d\<rparr>"
  define m2 where "m2 = store (store m p (?sm 0)) md ?md"
  note o2 = parts_store(3)[OF parts_store(1)[OF o, of "?sm 0"], of ?md, folded m2_def]
  define m5 where "m5 = store (store (store m2 op (head_node ?q)) h (Header ?hd op)) oh (head_node 0)"
  note o5 = parts_store(6)[OF parts_store(2)[OF parts_store(5)[OF o2, of "head_node ?q"],
        of "Header ?hd op"], of "head_node 0", folded m5_def]
  define m6 where "m6 = store m5 s (Sockaddr sv)"
  note o6 = parts_store(4)[OF o5, of "Sockaddr sv", folded m6_def]
  define m7 where "m7 = (case sg_dest sg of None \<Rightarrow> m6 | Some x \<Rightarrow> store m6 d (Sockaddr (snd x)))"
  define dv where "dv = (case sg_dest sg of None \<Rightarrow> dv0 | Some x \<Rightarrow> snd x)"
  have o7: "owns m7 (parts (p, ?sm 0) (h, Header ?hd op) (md, ?md) (s, Sockaddr sv) (op, head_node ?q) (oh, head_node 0)
      (dest_block d dv (sg_dest sg) + (frame_blocks sg + F)))"
  proof (cases "sg_dest sg")
    case None
    then show ?thesis using o6 by (simp add: m7_def dest_block_def)
  next
    case (Some x)
    have "owns (store m6 d (Sockaddr (snd x))) (parts (p, ?sm 0) (h, Header ?hd op) (md, ?md) (s, Sockaddr sv)
        (op, head_node ?q) (oh, head_node 0) (dest_block d dv (sg_dest sg) + (frame_blocks sg + F)))"
      by (rule owns_store_in[OF o6]) (simp_all add: parts_def dest_block_def dv_def Some region_ac)
    then show ?thesis by (simp add: m7_def Some)
  qed
  note o8 = parts_store(1)[OF o7, of "?sm ct"]
  have sub: "set_mset (frame_blocks sg) \<subseteq> set_mset (parts x1 x2 x3 x4 x5 x6 (D + (frame_blocks sg + F)))"
    for x1 x2 x3 x4 x5 x6 D by (auto simp: parts_def)
  have "node_at m2 oh = Inr \<lparr>on_type = 0, on_length = 0, on_data = 0, on_next = ?q\<rparr>"
    using owns_load(1)[OF o2, of oh] by (simp add: parts_def head_node_def)
  moreover have "(if sock_pointer (sg_dest sg) \<noteq> 0
      then bind_fault (sockaddr_at m6 (sock_pointer (sg_dest sg))) (\<lambda>b. Inr (store m6 d (Sockaddr b)))
      else Inr m6) = Inr m7"
    using frame_members(3)[OF o6 sub] by (cases "sg_dest sg") (auto simp: sock_pointer_def m7_def)
  moreover have "sockaddr_at m5 (sock_pointer (sg_src sg)) = Inr sv"
    using frame_members(2)[OF o5 sub src] src by (simp add: sock_pointer_def)
  moreover have "store (store (store m2 op (head_node ?q)) h
        (Header ((copy_unyte_seg_met_headers new_header (sg_header sg))
          \<lparr>header_length := ucast (12 + len), message_length := ucast (12 + len + ucast tb)\<rparr>) op))
      oh (Option_Node \<lparr>on_type = 0, on_length = 0, on_data = 0, on_next = 0\<rparr>) = m5"
    by (simp add: m5_def a_assembled_def head_node_def[of 0])
  ultimately have "fill_assembled_msg m p h md s d op ct
      \<lparr>sm_metadata = sg_metadata_addr sg, sm_header = sg_header_addr sg, sm_payload = sg_payload_addr sg\<rparr>
      \<lparr>md_src = sock_pointer (sg_src sg), md_dest = sock_pointer (sg_dest sg)\<rparr> tb oh len =
      Inr (p, store m7 p (?sm ct))"
    using frame_members(1)[OF o2 sub]
    by (cases "sock_pointer (sg_dest sg) = 0")
      (simp_all add: fill_assembled_msg_def Let_def m2_def[symmetric] m6_def[symmetric])
  moreover have "outcomes (store m7 p (?sm ct)) = outcomes m"
    by (simp add: m7_def m6_def m5_def m2_def split: option.splits)
  moreover have "parts (p, ?sm ct) (h, Header ?hd op) (md, ?md) (s, Sockaddr sv) (op, head_node ?q) (oh, head_node 0)
      (dest_block d dv (sg_dest sg) + (frame_blocks sg + F)) =
      frame_blocks (a_assembled p h md s d op ct bs sg tb ys len) +
      add_mset (op, head_node ?q) (add_mset (oh, head_node 0) (frame_blocks sg + F))"
    using src d
    by (cases "sg_dest sg") (simp_all add: parts_def frame_blocks_def
        a_assembled_def sock_blocks_def sock_pointer_def dest_block_def dv_def region_ac)
  ultimately show ?thesis using o8 by (intro exI[of _ "store m7 p (?sm ct)"]) simp
qed

lemma seg_of_assembled:
  assumes "sg_src sg = Some (sa, sv)"
  shows "create_assembled_msg (Some bs) (seg_of sg) tb (Some (vals ys)) len as =
    (let (ok, as1) = mallocs (if sg_dest sg = None then 5 else 6) as in
     Inr (if ok then Some (seg_of (a_assembled p h md s d op ct bs sg tb ys len)) else None, as1))"
  using assms
  by (cases "sg_dest sg")
    (simp_all add: create_assembled_msg_def seg_of_def a_assembled_def copy_unyte_seg_met_metadata_def
      copy_unyte_seg_met_headers_def new_header_def case_prod_beta)

text \<open>The blocks that \<^verbatim>\<open>create_assembled_msg\<close> allocates, in its order.\<close>

definition new_parts :: "bool \<Rightarrow> block list" where
  "new_parts has_dest =
     [Seg_Met \<lparr>sm_metadata = 0, sm_header = 0, sm_payload = 0\<rparr>, Header new_header 0,
      Metadata \<lparr>md_src = 0, md_dest = 0\<rparr>, Sockaddr new_sockaddr, head_node 0] @
     (if has_dest then [Sockaddr new_sockaddr] else [])"

lemma new_parts_addrs:
  assumes "length as = length (new_parts has_dest)" and "0 \<notin> set as"
  defines "d \<equiv> if has_dest then as ! 5 else 0"
  shows "allocated as (new_parts has_dest) =
    {#(as ! 0, Seg_Met \<lparr>sm_metadata = 0, sm_header = 0, sm_payload = 0\<rparr>), (as ! 1, Header new_header 0),
      (as ! 2, Metadata \<lparr>md_src = 0, md_dest = 0\<rparr>), (as ! 3, Sockaddr new_sockaddr), (as ! 4, head_node 0)#} +
    (if has_dest then {#(d, Sockaddr new_sockaddr)#} else {#})"
proof -
  obtain a0 a1 a2 a3 a4 rest where as: "as = a0 # a1 # a2 # a3 # a4 # rest"
    "length rest = (if has_dest then 1 else 0)"
    using assms(1) by (auto simp: new_parts_def length_Suc_conv split: if_splits)
  show ?thesis
  proof (cases has_dest)
    case True
    then obtain a5 where "rest = [a5]" using as(2) by (auto simp: length_Suc_conv)
    then show ?thesis using as(1) True assms(2) by (simp add: new_parts_def d_def)
  next
    case False
    then show ?thesis using as assms(2) by (simp add: new_parts_def d_def)
  qed
qed

lemma free_parts_run:
  assumes o: "owns m (allocated as (new_parts has_dest) + F)" and len: "length as = length (new_parts has_dest)"
  defines "d \<equiv> if has_dest then as ! 5 else 0"
  shows "\<exists>m'. free_blocks m [as ! 0, as ! 1, as ! 2, as ! 3, d, as ! 4] = Inr m' \<and> owns m' F \<and>
    outcomes m' = outcomes m"
proof -
  obtain a0 a1 a2 a3 a4 rest where as: "as = a0 # a1 # a2 # a3 # a4 # rest"
    "length rest = (if has_dest then 1 else 0)"
    using len by (auto simp: new_parts_def length_Suc_conv split: if_splits)
  obtain b0 b1 b2 b3 b4 where bs: "new_parts has_dest =
      [b0, b1, b2, b3, b4] @ (if has_dest then [Sockaddr new_sockaddr] else [])"
    by (simp add: new_parts_def)
  have "allocated [as ! 0, as ! 1, as ! 2, as ! 3, d, as ! 4] [b0, b1, b2, b3, Sockaddr new_sockaddr, b4] =
      allocated as (new_parts has_dest)"
    using as unfolding bs by (cases has_dest) (auto simp: length_Suc_conv allocated_def d_def)
  then show ?thesis
    using o free_blocks_run[of m "[as ! 0, as ! 1, as ! 2, as ! 3, d, as ! 4]"
        "[b0, b1, b2, b3, Sockaddr new_sockaddr, b4]" F] by simp
qed

lemma create_assembled_msg_run:
  assumes o: "owns m (message_blocks am + (frame_blocks sg + add_mset (ct, Raw bs) F))"
    and ys: "am_options am = Some (oh, ys)" and src: "sg_src sg = Some (sa, sv)"
    and f: "create_assembled_msg (Some bs) (seg_of sg) tb (Some (vals ys)) len (outcomes m) = Inr (res, as')"
  shows "\<exists>a m'. create_assembled_msg_mem m ct (sg_addr sg) tb oh len = Inr (a, m') \<and> outcomes m' = as' \<and>
    (case res of
       None \<Rightarrow> a = 0 \<and> owns m' (message_blocks am + (frame_blocks sg + add_mset (ct, Raw bs) F))
     | Some msg \<Rightarrow> \<exists>sg'. a = sg_addr sg' \<and> a \<noteq> 0 \<and> seg_of sg' = msg \<and>
         owns m' (segment_blocks sg' + (message_blocks (without_options am oh) + (frame_blocks sg + F))))"
proof -
  let ?G = "message_blocks am + (frame_blocks sg + add_mset (ct, Raw bs) F)"
  let ?sm = "\<lparr>sm_metadata = sg_metadata_addr sg, sm_header = sg_header_addr sg, sm_payload = sg_payload_addr sg\<rparr>"
  let ?md = "\<lparr>md_src = sock_pointer (sg_src sg), md_dest = sock_pointer (sg_dest sg)\<rparr>"
  let ?hd = "sg_dest sg \<noteq> None"
  have "owns m (frame_blocks sg + (message_blocks am + add_mset (ct, Raw bs) F))"
    using o by (simp add: region_ac)
  note reads = frame_reads[OF this]
  have ct: "ct \<noteq> 0" using owns_mem(2)[OF o, of ct "Raw bs"] by simp
  have "set_mset (frame_blocks sg) \<subseteq> set_mset ?G" by auto
  then have dest: "sock_pointer (sg_dest sg) \<noteq> 0 \<longleftrightarrow> ?hd"
    using frame_members(3)[OF o] by (cases "sg_dest sg") (auto simp: sock_pointer_def)
  obtain as m1 where m1: "new_blocks m (new_parts ?hd) = (as, m1)" "length as = length (new_parts ?hd)"
    "mallocs (length (new_parts ?hd)) (outcomes m) = (0 \<notin> set as, outcomes m1)"
    "owns m1 (allocated as (new_parts ?hd) + ?G)"
    using new_blocks_run[OF o] by blast
  define d where "d = (if ?hd then as ! 5 else 0)"
  have n: "length (new_parts ?hd) = (if sg_dest sg = None then 5 else 6)" by (simp add: new_parts_def)
  note val = f[unfolded seg_of_assembled[OF src, where p = "as ! 0" and h = "as ! 1" and md = "as ! 2"
        and s = "as ! 3" and d = d and op = "as ! 4" and ct = ct] n[symmetric] m1(3) Let_def prod.case]
  have mem: "create_assembled_msg_mem m ct (sg_addr sg) tb oh len =
      (if 0 \<in> set as
       then bind_fault (free_blocks m1 [as ! 0, as ! 1, as ! 2, as ! 3, d, as ! 4]) (\<lambda>m2. Inr (0, m2))
       else fill_assembled_msg m1 (as ! 0) (as ! 1) (as ! 2) (as ! 3) d (as ! 4) ct ?sm ?md tb oh len)"
    using ct reads dest m1(1) by (simp add: create_assembled_msg_mem_def new_parts_def d_def Let_def)
  show ?thesis
  proof (cases "0 \<in> set as")
    case True
    then show ?thesis
      using free_parts_run[OF m1(4,2)] val mem d_def by auto
  next
    case False
    let ?msg = "a_assembled (as ! 0) (as ! 1) (as ! 2) (as ! 3) d (as ! 4) ct bs sg tb ys len"
    obtain R where R: "message_blocks am = add_mset (oh, head_node (first_addr ys 0)) (option_blocks ys 0 + R)"
      "message_blocks (without_options am oh) = add_mset (oh, head_node 0) R"
      using without_options_region[OF ys] by blast
    let ?F = "option_blocks ys 0 + R + add_mset (ct, Raw bs) F"
    have o1: "owns m1 (parts (as ! 0, Seg_Met \<lparr>sm_metadata = 0, sm_header = 0, sm_payload = 0\<rparr>)
        (as ! 1, Header new_header 0) (as ! 2, Metadata \<lparr>md_src = 0, md_dest = 0\<rparr>)
        (as ! 3, Sockaddr new_sockaddr) (as ! 4, head_node 0) (oh, head_node (first_addr ys 0))
        (dest_block d new_sockaddr (sg_dest sg) + (frame_blocks sg + ?F)))"
      using m1(4) unfolding new_parts_addrs[OF m1(2) False] R(1) d_def[symmetric]
      by (cases "sg_dest sg") (simp_all add: parts_def dest_block_def region_ac)
    have d0: "sg_dest sg = None \<Longrightarrow> d = 0" by (simp add: d_def)
    obtain m' where m': "fill_assembled_msg m1 (as ! 0) (as ! 1) (as ! 2) (as ! 3) d (as ! 4) ct ?sm ?md tb oh len =
        Inr (as ! 0, m')" "outcomes m' = outcomes m1"
      "owns m' (frame_blocks ?msg + add_mset (as ! 4, head_node (first_addr ys 0))
        (add_mset (oh, head_node 0) (frame_blocks sg + ?F)))"
      using fill_assembled_run[OF o1 src d0] by blast
    have "segment_blocks ?msg = frame_blocks ?msg + (add_mset (ct, Raw bs) (option_list_blocks (as ! 4) ys))"
      by (simp add: segment_blocks_def a_assembled_def)
    then have "owns m' (segment_blocks ?msg + (message_blocks (without_options am oh) + (frame_blocks sg + F)))"
      using m'(3) by (simp add: R(2) option_list_blocks_def region_ac)
    moreover have "as ! 0 \<in> set as" using m1(2) by (intro nth_mem) (simp add: new_parts_def)
    then have "as ! 0 \<noteq> 0" using False by metis
    moreover have "sg_addr ?msg = as ! 0" by (simp add: a_assembled_def)
    moreover have "res = Some (seg_of ?msg)" "as' = outcomes m'" using val False m'(2) by auto
    moreover have "create_assembled_msg_mem m ct (sg_addr sg) tb oh len = Inr (as ! 0, m')"
      using mem False m'(1) by simp
    ultimately show ?thesis
      by (intro exI[of _ "as ! 0"] exI[of _ m']) (simp, intro exI[of _ ?msg], simp)
  qed
qed

end
