(* ===== verification/Memory_Parser.thy ===== *)
theory Memory_Parser
  imports Memory_Segments
begin

text \<open>
  The parsing worker at the level of blocks: what the loop of \<^verbatim>\<open>src/parsing_worker.c\<close> does
  with a parsed segment. The output queue holds the addresses of the messages. The counters of
  the monitoring are left to \<open>Parser\<close>.
\<close>

section \<open>Operations\<close>

record worker_mem =
  wm_memory :: memory
  wm_segment_buff :: addr
  wm_output :: "addr unyte_udp_queue"
  wm_max_malloc_errs :: int

definition options_total_bytes_mem :: "memory \<Rightarrow> addr \<Rightarrow> (fault + u32) option" where
  "options_total_bytes_mem m opts = bind_run (options_walk m opts 0) (\<lambda>(_, len). Some (Inr len))"

text \<open>A message that the output queue does not take is freed.\<close>

definition push_output_mem :: "worker_mem \<Rightarrow> addr \<Rightarrow> (fault + worker_mem) option" where
  "push_output_mem w msg =
     bind_run (unyte_udp_queue_write (wm_output w) (Some msg)) (\<lambda>(ret, out).
     let w1 = w\<lparr>wm_output := out\<rparr> in
     if ret < 0 then
       bind_run (unyte_udp_free_all_mem (wm_memory w1) msg) (\<lambda>m. Some (Inr (w1\<lparr>wm_memory := m\<rparr>)))
     else Some (Inr w1))"

definition seg_header_at :: "memory \<Rightarrow> addr \<Rightarrow> fault + (unyte_header \<times> addr)" where
  "seg_header_at m seg = bind_fault (seg_met_at m seg) (\<lambda>s. header_at m (sm_header s))"

definition complete_message_mem :: "worker_mem \<Rightarrow> addr \<Rightarrow> (fault + worker_mem) option" where
  "complete_message_mem w seg =
     bind_run (Some (seg_header_at (wm_memory w) seg)) (\<lambda>(h, _).
     let odid = observation_domain_id h; mid = message_id h; buf = wm_segment_buff w in
     bind_run (get_segment_list_mem (wm_memory w) buf odid mid) (\<lambda>l.
     bind_run (reassemble_payload_mem (wm_memory w) l) (\<lambda>(complete_msg, m1).
     bind_run (Some (msl_head_at m1 l)) (\<lambda>f.
     bind_run (Some (create_assembled_msg_mem m1 complete_msg seg (ucast (mh_total_payload_byte_size f))
         (mh_options_head f) (mh_options_length f))) (\<lambda>(parsed_msg, m2).
     bind_run
       (if parsed_msg = 0 then Some (Inr (w\<lparr>wm_memory := m2\<rparr>))
        else push_output_mem (w\<lparr>wm_memory := m2\<rparr>) parsed_msg) (\<lambda>w1.
     bind_run (clear_segment_list_mem (wm_memory w1) buf odid mid) (\<lambda>(_, m3).
     bind_run (Some (dec_count m3 buf)) (\<lambda>m4. Some (Inr (w1\<lparr>wm_memory := m4\<rparr>))))))))))"

definition maybe_cleanup_mem :: "int \<Rightarrow> worker_mem \<Rightarrow> (fault + worker_mem) option" where
  "maybe_cleanup_mem now w =
     bind_run (Some (buffer_at (wm_memory w) (wm_segment_buff w))) (\<lambda>b.
     if bf_cleanup b = 1 \<and> bf_count b > of_nat CLEAN_COUNT_MAX then
       bind_run (cleanup_seg_buff_mem now (wm_memory w) (wm_segment_buff w) CLEAN_UP_PASS_SIZE) (\<lambda>m.
       Some (Inr (w\<lparr>wm_memory := m\<rparr>)))
     else Some (Inr w))"

text \<open>The segment without its payload.\<close>

definition free_partial_mem :: "memory \<Rightarrow> addr \<Rightarrow> (fault + memory) option" where
  "free_partial_mem m seg =
     bind_run (unyte_udp_free_header_mem m seg) (\<lambda>m1.
     bind_run (Some (unyte_udp_free_metadata_mem m1 seg)) (\<lambda>m2. Some (free m2 seg)))"

definition store_segment_mem :: "int \<Rightarrow> worker_mem \<Rightarrow> addr \<Rightarrow> (fault + (int option \<times> worker_mem)) option" where
  "store_segment_mem now w seg =
     bind_run (Some (seg_met_at (wm_memory w) seg)) (\<lambda>s.
     bind_run (Some (header_at (wm_memory w) (sm_header s))) (\<lambda>(h, opts).
     case (f_num h, f_last h) of
       (Some num, Some lst) \<Rightarrow>
         bind_run (insert_segment_mem (wm_memory w) (wm_segment_buff w) (observation_domain_id h)
             (message_id h) (ucast num) (uint lst)
             (word_of_int (uint (message_length h) - uint (header_length h))) (sm_payload s) opts)
           (\<lambda>(insert_res, m1).
         let w1 = w\<lparr>wm_memory := m1\<rparr> in
         if insert_res = -1 then
           bind_run (unyte_udp_free_all_mem m1 seg) (\<lambda>m2. Some (Inr (None, w1\<lparr>wm_memory := m2\<rparr>)))
         else
           let w2 = (if insert_res = -3 then w1\<lparr>wm_max_malloc_errs := wm_max_malloc_errs w1 - 1\<rparr> else w1) in
           if insert_res = -3 \<and> wm_max_malloc_errs w2 \<le> 0 then
             bind_run (unyte_udp_free_all_mem m1 seg) (\<lambda>m2. Some (Inr (Some (-1), w2\<lparr>wm_memory := m2\<rparr>)))
           else
             bind_run (if insert_res = 1 \<or> insert_res = -2 then complete_message_mem w2 seg
                       else Some (Inr w2)) (\<lambda>w3.
             bind_run (maybe_cleanup_mem now w3) (\<lambda>w4.
             bind_run (free_partial_mem (wm_memory w4) seg) (\<lambda>m5.
             Some (Inr (None, w4\<lparr>wm_memory := m5\<rparr>))))))
     | _ \<Rightarrow> Some (Inl Uninit_Read)))"

text \<open>The loop body from the parsed segment on.\<close>

definition handle_segment_mem :: "int \<Rightarrow> worker_mem \<Rightarrow> addr \<Rightarrow> (fault + (int option \<times> worker_mem)) option" where
  "handle_segment_mem now w seg =
     bind_run (Some (seg_header_at (wm_memory w) seg)) (\<lambda>(h, opts).
     bind_run (options_total_bytes_mem (wm_memory w) opts) (\<lambda>opts_len.
     if \<not> is_segmented h opts_len
     then bind_run (push_output_mem w seg) (\<lambda>w1. Some (Inr (None, w1)))
     else store_segment_mem now w seg))"

text \<open>
  The first loop of \<^verbatim>\<open>unyte_udp_free_collector\<close> (\<^verbatim>\<open>src/unyte_udp_collector.c\<close>): every message in the
  queue is freed.
\<close>

partial_function (option) free_output_mem :: "memory \<Rightarrow> addr unyte_udp_queue \<Rightarrow> (fault + memory) option" where
  "free_output_mem m q =
     (if is_udp_queue_empty q \<noteq> 0 then
        Option.bind (unyte_udp_queue_read q) (\<lambda>r. case r of
            Inl e \<Rightarrow> Some (Inl e)
          | Inr p \<Rightarrow>
              Option.bind (unyte_udp_free_all_mem m (case fst p of None \<Rightarrow> 0 | Some a \<Rightarrow> a)) (\<lambda>s. case s of
                  Inl e \<Rightarrow> Some (Inl e)
                | Inr m1 \<Rightarrow> free_output_mem m1 (snd p)))
      else Some (Inr m))"

declare free_output_mem.simps [code]

text \<open>The same part of \<open>parser_step\<close>, on values.\<close>

definition handle_segment ::
  "int \<Rightarrow> parser_thread_input \<Rightarrow> unyte_seg_met \<Rightarrow> allocs \<Rightarrow>
    (fault + (int option \<times> parser_thread_input \<times> allocs)) option" where
  "handle_segment now v seg as =
     bind_run (Some (options_total_bytes (options (header seg)))) (\<lambda>opts_len.
     if \<not> is_segmented (header seg) opts_len then
       bind_run (push_output v seg (observation_domain_id (header seg)) (message_id (header seg)) as)
         (\<lambda>(v1, as1). Some (Inr (None, v1, as1)))
     else store_segment now v seg as)"

lemma parser_step_handle:
  "parser_step now w as =
     bind_run (unyte_udp_queue_read (p_input w)) (\<lambda>(queue_bef, inp).
     let w1 = w\<lparr>p_input := inp\<rparr> in
     case queue_bef of
       None \<Rightarrow> Some (Inr (None, w1, as))
     | Some um \<Rightarrow>
         bind_run (parse_datagram (p_legacy_proto w1) um as) (\<lambda>(parsed_segment, as1).
         case parsed_segment of
           None \<Rightarrow> Some (Inr (Some (-1), w1, as1))
         | Some seg \<Rightarrow> handle_segment now w1 seg as1))"
  unfolding parser_step_def handle_segment_def by (rule refl)

section \<open>The worker and its blocks\<close>

definition messages_blocks :: "a_segment list \<Rightarrow> region" where
  "messages_blocks sgs = (\<Sum>sg\<leftarrow>sgs. segment_blocks sg)"

text \<open>
  The worker \<open>w\<close> with its memory stands for the worker \<open>v\<close>: the table holds the segmentation
  buffer, the messages \<open>sgs\<close> are in the output queue, and the memory consists of the blocks of
  the table, of these messages, and of \<open>F\<close>.
\<close>

definition stands_for :: "worker_mem \<Rightarrow> parser_thread_input \<Rightarrow> a_table \<Rightarrow> a_segment list \<Rightarrow> region \<Rightarrow> bool" where
  "stands_for w v at sgs F \<longleftrightarrow>
     wm_segment_buff w = at_addr at \<and> p_segment_buff v = buffer_of at \<and> at_stale at = (\<lambda>_. 0) \<and> tails_ok at \<and>
     queue_inv (wm_output w) \<and> q_capacity (wm_output w) = q_capacity (p_output v) \<and>
     q_list (wm_output w) = map (\<lambda>sg. Some (sg_addr sg)) sgs \<and> q_list (p_output v) = map (\<lambda>sg. Some (seg_of sg)) sgs \<and>
     wm_max_malloc_errs w = p_max_malloc_errs v \<and> outcomes (wm_memory w) = [] \<and>
     owns (wm_memory w) (table_blocks at + (messages_blocks sgs + F))"

lemma messages_blocks_simps [simp]:
  "messages_blocks [] = {#}" "messages_blocks (sg # sgs) = segment_blocks sg + messages_blocks sgs"
  "messages_blocks (sgs @ sgs') = messages_blocks sgs + messages_blocks sgs'"
  by (simp_all add: messages_blocks_def)

lemma stands_forD:
  assumes "stands_for w v at sgs F"
  shows "wm_segment_buff w = at_addr at" "p_segment_buff v = buffer_of at" "at_stale at = (\<lambda>_. 0)" "tails_ok at"
    "outcomes (wm_memory w) = []" "owns (wm_memory w) (table_blocks at + (messages_blocks sgs + F))"
    "wm_max_malloc_errs w = p_max_malloc_errs v"
  using assms by (simp_all add: stands_for_def)

text \<open>Another table and another rest.\<close>

lemma stands_for_table:
  assumes "stands_for w v at sgs F" and "at_addr at' = at_addr at" "at_stale at' = at_stale at" "tails_ok at'"
    and "outcomes m = []" "owns m (table_blocks at' + (messages_blocks sgs + F'))"
  shows "stands_for (w\<lparr>wm_memory := m\<rparr>) (v\<lparr>p_segment_buff := buffer_of at'\<rparr>) at' sgs F'"
  using assms by (simp add: stands_for_def)

lemma stands_for_counters:
  "stands_for w (v\<lparr>p_counters := c\<rparr>) at sgs F \<longleftrightarrow> stands_for w v at sgs F"
  by (simp add: stands_for_def)

section \<open>Passing on a message\<close>

text \<open>A message goes to the output queue with its blocks, or it is freed.\<close>

lemma push_output_mem_run:
  assumes w: "stands_for w v at sgs F" and v: "queue_inv (p_output v)"
    and o: "outcomes m = []" "owns m (R + (messages_blocks sgs + (segment_blocks sg + G)))"
  shows "\<exists>sgs' out out' m'. push_output_mem (w\<lparr>wm_memory := m\<rparr>) (sg_addr sg) =
      Some (Inr (w\<lparr>wm_memory := m', wm_output := out'\<rparr>)) \<and>
    unyte_udp_queue_write (p_output v) (Some (seg_of sg)) = Some (Inr (if has_room v then 0 else -1, out)) \<and>
    queue_inv out \<and> queue_inv out' \<and> q_capacity out = q_capacity out' \<and> q_capacity out = q_capacity (p_output v) \<and>
    q_list out = map (\<lambda>sg. Some (seg_of sg)) sgs' \<and> q_list out' = map (\<lambda>sg. Some (sg_addr sg)) sgs' \<and>
    sgs' = sgs @ (if has_room v then [sg] else []) \<and> outcomes m' = [] \<and> owns m' (R + (messages_blocks sgs' + G))"
proof -
  have q: "queue_inv (wm_output w)" "q_capacity (wm_output w) = q_capacity (p_output v)"
    "q_list (wm_output w) = map (\<lambda>sg. Some (sg_addr sg)) sgs" "q_list (p_output v) = map (\<lambda>sg. Some (seg_of sg)) sgs"
    using w by (simp_all add: stands_for_def)
  have room: "has_room v \<longleftrightarrow> length sgs < q_capacity (p_output v)"
    by (simp add: has_room_def q(4) q_capacity_def)
  let ?sgs = "sgs @ (if has_room v then [sg] else [])" and ?r = "if has_room v then 0 else - 1 :: int"
  obtain out' where out': "unyte_udp_queue_write (wm_output w) (Some (sg_addr sg)) = Some (Inr (?r, out'))"
    "queue_inv out'" "q_list out' = map (\<lambda>sg. Some (sg_addr sg)) ?sgs" "q_capacity out' = q_capacity (p_output v)"
    using queue_write_law[OF q(1), of "Some (sg_addr sg)"] q(2,3) room by (auto simp: fifo_write_def)
  obtain out where out: "unyte_udp_queue_write (p_output v) (Some (seg_of sg)) = Some (Inr (?r, out))"
    "queue_inv out" "q_list out = map (\<lambda>sg. Some (seg_of sg)) ?sgs" "q_capacity out = q_capacity (p_output v)"
    using queue_write_law[OF v, of "Some (seg_of sg)"] q(4) room by (auto simp: fifo_write_def)
  have "owns m (segment_blocks sg + (R + (messages_blocks sgs + G)))" using o(2) by (simp add: region_ac)
  then obtain m1 where m1: "unyte_udp_free_all_mem m (sg_addr sg) = Some (Inr m1)" "outcomes m1 = []"
    "owns m1 (R + (messages_blocks sgs + G))"
    using free_all_run o(1) by fastforce
  let ?m = "if has_room v then m else m1"
  have "push_output_mem (w\<lparr>wm_memory := m\<rparr>) (sg_addr sg) = Some (Inr (w\<lparr>wm_memory := ?m, wm_output := out'\<rparr>))"
    using out'(1) m1(1) by (cases "has_room v") (simp_all add: push_output_mem_def Let_def)
  moreover have "owns ?m (R + (messages_blocks ?sgs + G))" using o(2) m1(3) by (simp add: region_ac)
  moreover have "outcomes ?m = []" using o(1) m1(2) by simp
  ultimately show ?thesis
    using out out' by (intro exI[of _ ?sgs] exI[of _ out] exI[of _ out'] exI[of _ ?m]) (simp add: out(4) out'(4))
qed

section \<open>Completing a message\<close>

lemma clear_segment_list_value:
  assumes "stored_at at odid mid b c vs am"
  shows "clear_segment_list (buffer_of at) odid mid = Inr (0, buffer_of (without_message at odid mid b vs))"
proof -
  obtain a o' m' where c: "c = (a, o', m', Some am)" using assms by (cases c) (auto simp: stored_at_def)
  have "hash_array (buffer_of at) (unat (hashKey odid mid)) = Some (bucket_val b)"
    "chain (bucket_val b) = map cell_of (ab_cells b)" "cells_from odid mid (map cell_of (ab_cells b)) = cell_of c # map cell_of vs"
    using assms by (simp_all add: stored_at_def buffer_of_def bucket_val_def)
  moreover have "bucket_val (b\<lparr>ab_cells := a_before odid mid (ab_cells b) @ vs\<rparr>) =
      (bucket_val b)\<lparr>chain := map cell_of (a_before odid mid (ab_cells b)) @ map cell_of vs\<rparr>"
    by (simp add: bucket_val_def)
  ultimately show ?thesis
    using c by (simp add: clear_segment_list_def Let_def without_message_def buffer_of_with_bucket)
qed

text \<open>Handing over the options does not move the message, and it is cleared as before.\<close>

lemma handed_over:
  assumes st: "stored_at at odid mid b c vs am" and am': "am_addr am' = am_addr am"
  shows "\<exists>at' b' c' G. stored_at at' odid mid b' c' vs am' \<and> ab_dangling b' = ab_dangling b \<and>
    at_addr at' = at_addr at \<and> without_message at' odid mid b' vs = without_message at odid mid b vs \<and>
    table_blocks at = message_blocks am + G \<and> table_blocks at' = message_blocks am' + G"
proof -
  let ?hk = "unat (hashKey odid mid)" and ?us = "a_before odid mid (ab_cells b)"
  have b: "at_buckets at ?hk = Some b" and from_c: "a_from odid mid (ab_cells b) = c # vs"
    and c: "snd (snd (snd c)) = Some am" and cells: "ab_cells b = ?us @ c # vs"
    using st before_from[of "ab_cells b" odid mid] by (auto simp: stored_at_def)
  let ?c = "(fst c, fst (snd c), fst (snd (snd c)), Some am')" and ?b = "with_message b ?us c vs am'"
  have "is_message odid mid (cell_of c)" using from_c by (rule a_from_head)
  then have m: "is_message odid mid (cell_of ?c)" by (cases c) (simp add: is_message_def)
  have us: "\<forall>u\<in>set ?us. \<not> is_message odid mid (cell_of u)" by (auto simp: a_before_def dest: set_takeWhileD)
  have b': "a_before odid mid (ab_cells ?b) = ?us" "a_from odid mid (ab_cells ?b) = ?c # vs"
    using us m unfolding a_before_def[of _ _ "ab_cells ?b"] a_from_def
    by (simp_all add: with_message_def takeWhile_append2 dropWhile_append2 del: cell_of.simps)
  have "without_message (with_bucket at ?hk ?b) odid mid ?b vs = without_message at odid mid b vs"
    unfolding without_message_def with_bucket_twice b'(1) by (simp add: with_message_def)
  moreover have "stored_at (with_bucket at ?hk ?b) odid mid ?b ?c vs am'"
    using b'(2) by (simp add: stored_at_def)
  moreover obtain G where "table_blocks at = message_blocks am + G"
    "table_blocks (with_bucket at ?hk ?b) = message_blocks am' + G"
    using table_known[OF hashKey_less b cells c] am' by blast
  moreover have "ab_dangling ?b = ab_dangling b" by (simp add: with_message_def)
  ultimately show ?thesis
    by (intro exI[of _ "with_bucket at ?hk ?b"] exI[of _ ?b] exI[of _ ?c] exI[of _ G]) simp
qed

lemma bucket_tails_fewer: "bucket_tails b \<Longrightarrow> set cs \<subseteq> set (ab_cells b) \<Longrightarrow> bucket_tails (b\<lparr>ab_cells := cs\<rparr>)"
  by (auto simp: bucket_tails_def)

lemma without_message_tails:
  assumes "tails_ok at" and "stored_at at odid mid b c vs am"
  shows "tails_ok (without_message at odid mid b vs)"
proof -
  have "ab_cells b = a_before odid mid (ab_cells b) @ c # vs"
    using assms(2) before_from[of "ab_cells b" odid mid] by (simp add: stored_at_def)
  then have "set (a_before odid mid (ab_cells b) @ vs) \<subseteq> set (ab_cells b)"
    by (metis set_append set_subset_Cons subset_refl Un_mono)
  moreover have "bucket_tails b" using assms by (auto simp: tails_ok_def stored_at_def)
  ultimately show ?thesis
    unfolding without_message_def by (intro tails_with_bucket[OF assms(1)] bucket_tails_fewer)
qed

lemma push_output_value:
  assumes "unyte_udp_queue_write (p_output v) (Some msg) = Some (Inr (ret, out))" and "counters_ok (p_counters v)"
  shows "\<exists>c. push_output v msg odid mid [] = Some (Inr (v\<lparr>p_output := out, p_counters := c\<rparr>, [])) \<and> counters_ok c"
proof (cases "p_monitoring_running v")
  case True
  then show ?thesis
    using assms update_counted[OF assms(2), of odid mid]
    by (auto simp: push_output_def Let_def counted_def intro!: exI)
next
  case False
  then show ?thesis
    using assms by (intro exI[of _ "p_counters v"]) (simp add: push_output_def Let_def)
qed

text \<open>The blocks of the complete message become those of the assembled one, the rest is freed.\<close>

lemma assemble_run:
  assumes o: "owns m (table_blocks at + (frame_blocks sg + F))" "outcomes m = []"
    and st: "stored_at at odid mid b c vs am" and ok: "stored_ok (list_value am)" and src: "sg_src sg \<noteq> None"
  shows "\<exists>ct m1 m2 sg' at' b' c' am'.
    reassemble_payload_mem m (am_addr am) = Some (Inr (ct, m1)) \<and> msl_head_at m1 (am_addr am) = Inr (head_fields am) \<and>
    create_assembled_msg_mem m1 ct (sg_addr sg) (ucast (mh_total_payload_byte_size (head_fields am)))
      (mh_options_head (head_fields am)) (mh_options_length (head_fields am)) = Inr (sg_addr sg', m2) \<and>
    sg_addr sg' \<noteq> 0 \<and> seg_of sg' = assembled (seg_of sg) (list_value am) \<and> outcomes m2 = [] \<and>
    at_addr at' = at_addr at \<and> stored_at at' odid mid b' c' vs am' \<and> ab_dangling b' = ab_dangling b \<and>
    without_message at' odid mid b' vs = without_message at odid mid b vs \<and>
    owns m2 (table_blocks at' + (segment_blocks sg' + (frame_blocks sg + F)))"
proof -
  obtain oh ys where ys: "am_options am = Some (oh, ys)"
    using ok by (cases "am_options am") (auto simp: stored_ok_def list_value_def)
  let ?am = "without_options am oh"
  have "am_addr ?am = am_addr am" by (simp add: without_options_def)
  then obtain at' b' c' G where h: "stored_at at' odid mid b' c' vs ?am" "ab_dangling b' = ab_dangling b"
    "at_addr at' = at_addr at" "without_message at' odid mid b' vs = without_message at odid mid b vs"
    "table_blocks at = message_blocks am + G" "table_blocks at' = message_blocks ?am + G"
    using handed_over[OF st, of ?am] by blast
  let ?bs = "concat (map content (segments (list_value am)))"
  have "owns m (message_blocks am + (G + (frame_blocks sg + F)))" using o(1) by (simp add: h(5) union_assoc)
  then obtain ct m1 where m1: "reassemble_payload_mem m (am_addr am) = Some (Inr (ct, m1))" "outcomes m1 = []"
    "owns m1 (message_blocks am + add_mset (ct, Raw ?bs) (G + (frame_blocks sg + F)))"
    using reassemble_payload_run[of m am "G + (frame_blocks sg + F)"] stored_ok_reassembles[OF ok] o(2) by fastforce
  have o1: "owns m1 (message_blocks am + (frame_blocks sg + add_mset (ct, Raw ?bs) (G + F)))"
    using m1(3) by (simp add: region_ac)
  obtain sa sv where s: "sg_src sg = Some (sa, sv)" using src by auto
  have f: "options_head (list_value am) = Some (vals ys)"
    "total_payload_byte_size (list_value am) = mh_total_payload_byte_size (head_fields am)"
    "options_length (list_value am) = mh_options_length (head_fields am)" "mh_options_head (head_fields am) = oh"
    using ys by (simp_all add: list_value_def head_fields_def)
  have "create_assembled_msg (Some ?bs) (seg_of sg) (ucast (mh_total_payload_byte_size (head_fields am)))
      (Some (vals ys)) (mh_options_length (head_fields am)) (outcomes m1) =
      Inr (Some (assembled (seg_of sg) (list_value am)), [])"
    using create_assembled_run[OF f(1), of "seg_of sg"] s f m1(2) by (simp add: seg_of_def)
  from create_assembled_msg_run[OF o1 ys s this]
  obtain m2 sg' where m2: "create_assembled_msg_mem m1 ct (sg_addr sg) (ucast (mh_total_payload_byte_size (head_fields am)))
      oh (mh_options_length (head_fields am)) = Inr (sg_addr sg', m2)" "outcomes m2 = []" "sg_addr sg' \<noteq> 0"
    "seg_of sg' = assembled (seg_of sg) (list_value am)"
    "owns m2 (segment_blocks sg' + (message_blocks ?am + (frame_blocks sg + (G + F))))"
    by auto
  have "owns m2 (table_blocks at' + (segment_blocks sg' + (frame_blocks sg + F)))"
    using m2(5) by (simp add: h(6) region_ac)
  moreover note msl_head_at_run[OF m1(3)]
  ultimately show ?thesis
    using m1(1) m2(1-4) h(1-4) f(4)
    by (intro exI[of _ ct] exI[of _ m1] exI[of _ m2] exI[of _ sg'] exI[of _ at'] exI[of _ b'] exI[of _ c'] exI[of _ ?am])
      simp
qed

lemma stored_at_ok:
  assumes "stored_at at odid mid b c vs am" and "buckets_ok (buffer_of at)"
  shows "\<not> ab_dangling b"
proof -
  have "hash_array (buffer_of at) (unat (hashKey odid mid)) = Some (bucket_val b)"
    using assms(1) by (simp add: stored_at_def buffer_of_def)
  then have "\<not> dangling (bucket_val b)" using assms(2) by (auto simp: buckets_ok_def bucket_ok_def)
  then show ?thesis by (simp add: bucket_val_def)
qed

lemma message_found:
  assumes o: "owns m (table_blocks at + F)" and ok: "buffer_ok (buffer_of at)"
    and "message_at (buffer_of at) odid mid = Some M"
  shows "\<exists>b c vs am. stored_at at odid mid b c vs am \<and> list_value am = M \<and> stored_ok M \<and> \<not> ab_dangling b \<and>
    get_segment_list (buffer_of at) odid mid = Inr (Some M) \<and>
    get_segment_list_mem m (at_addr at) odid mid = Some (Inr (am_addr am))"
proof -
  have b: "buckets_ok (buffer_of at)" "stored_ok M" using ok assms(3) by (auto simp: buffer_ok_def)
  then have get: "get_segment_list (buffer_of at) odid mid = Inr (Some M)"
    using assms(3) by (simp add: get_segment_list_ok)
  then show ?thesis using get_segment_list_run[OF o get] stored_at_ok b by blast
qed

lemma complete_message_mem_run:
  assumes w: "stands_for w v at sgs (frame_blocks sg + F)" and src: "sg_src sg \<noteq> None"
    and v: "buffer_ok (p_segment_buff v)" "queue_inv (p_output v)" "counters_ok (p_counters v)"
    and M: "message_at (p_segment_buff v) (observation_domain_id (sg_header sg)) (message_id (sg_header sg)) = Some M"
  shows "\<exists>w' v' at'. complete_message_mem w (sg_addr sg) = Some (Inr w') \<and>
    complete_message v (seg_of sg) [] = Some (Inr (v', [])) \<and>
    (\<exists>sgs'. stands_for w' v' at' sgs' (frame_blocks sg + F) \<and>
      (sgs' = sgs \<or> (\<exists>sg'. sgs' = sgs @ [sg'] \<and> seg_of sg' = assembled (seg_of sg) M)))"
proof -
  let ?o = "observation_domain_id (sg_header sg)" and ?m = "message_id (sg_header sg)"
  note s = stands_forD[OF w]
  obtain b c vs am where st: "stored_at at ?o ?m b c vs am" "list_value am = M" "stored_ok M" "\<not> ab_dangling b"
    "get_segment_list (buffer_of at) ?o ?m = Inr (Some M)"
    "get_segment_list_mem (wm_memory w) (at_addr at) ?o ?m = Some (Inr (am_addr am))"
    using message_found[OF s(6) v(1)[unfolded s(2)] M[unfolded s(2)]] by blast
  have o: "owns (wm_memory w) (table_blocks at + (frame_blocks sg + (messages_blocks sgs + F)))"
    using s(6) by (simp add: region_ac)
  obtain ct m1 m2 sg' at1 b' c' am' where a: "reassemble_payload_mem (wm_memory w) (am_addr am) = Some (Inr (ct, m1))"
    "msl_head_at m1 (am_addr am) = Inr (head_fields am)"
    "create_assembled_msg_mem m1 ct (sg_addr sg) (ucast (mh_total_payload_byte_size (head_fields am)))
      (mh_options_head (head_fields am)) (mh_options_length (head_fields am)) = Inr (sg_addr sg', m2)"
    "sg_addr sg' \<noteq> 0" "seg_of sg' = assembled (seg_of sg) M" "outcomes m2 = []"
    "at_addr at1 = at_addr at" "stored_at at1 ?o ?m b' c' vs am'" "ab_dangling b' = ab_dangling b"
    "without_message at1 ?o ?m b' vs = without_message at ?o ?m b vs"
    "owns m2 (table_blocks at1 + (segment_blocks sg' + (frame_blocks sg + (messages_blocks sgs + F))))"
    using assemble_run[OF o s(5) st(1)] st(2,3) src by auto
  have "owns m2 (table_blocks at1 + (messages_blocks sgs + (segment_blocks sg' + (frame_blocks sg + F))))"
    using a(11) by (simp add: region_ac)
  from push_output_mem_run[OF w v(2) a(6) this]
  obtain sgs' out out' m3 where p: "push_output_mem (w\<lparr>wm_memory := m2\<rparr>) (sg_addr sg') =
      Some (Inr (w\<lparr>wm_memory := m3, wm_output := out'\<rparr>))"
    "unyte_udp_queue_write (p_output v) (Some (assembled (seg_of sg) M)) = Some (Inr (if has_room v then 0 else -1, out))"
    "queue_inv out" "queue_inv out'" "q_capacity out = q_capacity out'"
    "q_list out = map (\<lambda>sg. Some (seg_of sg)) sgs'" "q_list out' = map (\<lambda>sg. Some (sg_addr sg)) sgs'"
    "sgs' = sgs @ (if has_room v then [sg'] else [])" "outcomes m3 = []"
    "owns m3 (table_blocks at1 + (messages_blocks sgs' + (frame_blocks sg + F)))"
    unfolding a(5) by blast
  obtain k where k: "push_output v (assembled (seg_of sg) M) ?o ?m [] =
      Some (Inr (v\<lparr>p_output := out, p_counters := k\<rparr>, []))"
    using push_output_value[OF p(2) v(3)] by blast
  let ?at = "without_message at ?o ?m b vs"
  obtain m4 where m4: "clear_segment_list_mem m3 (at_addr at) ?o ?m = Some (Inr (0, m4))" "outcomes m4 = []"
    "owns m4 (table_blocks ?at + (messages_blocks sgs' + (frame_blocks sg + F)))"
    using clear_segment_list_run[OF p(10) a(8)] a(7,9,10) st(4) p(9) by auto
  have at: "at_addr ?at = at_addr at" "at_stale ?at = at_stale at" "at_count ?at = at_count at"
    by (simp_all add: without_message_def)
  obtain m5 where m5: "dec_count m4 (at_addr at) = Inr m5" "outcomes m5 = []"
    "owns m5 (table_blocks (?at\<lparr>at_count := at_count at - 1\<rparr>) + (messages_blocks sgs' + (frame_blocks sg + F)))"
    using dec_count_run[OF m4(3)] at m4(2) by auto
  have "complete_message_mem w (sg_addr sg) = Some (Inr (w\<lparr>wm_memory := m5, wm_output := out'\<rparr>))"
    using frame_reads(1,2)[of "wm_memory w" sg "table_blocks at + (messages_blocks sgs + F)"] o s(1) st(6) a(1-4) p(1) m4(1) m5(1)
    by (simp add: complete_message_mem_def seg_header_at_def Let_def region_ac)
  moreover let ?v = "v\<lparr>p_output := out, p_counters := k, p_segment_buff := buffer_of (?at\<lparr>at_count := at_count at - 1\<rparr>)\<rparr>"
  have "complete_message v (seg_of sg) [] = Some (Inr (?v, []))"
    using st(3,5) k stored_ok_reassembles[OF st(3)] clear_segment_list_value[OF st(1)] s(2) src
      create_assembled_run[of M _ "seg_of sg"]
    by (auto simp: complete_message_def Let_def seg_of_def buffer_of_def at(3) stored_ok_def)
  moreover have "stands_for (w\<lparr>wm_memory := m5, wm_output := out'\<rparr>) ?v (?at\<lparr>at_count := at_count at - 1\<rparr>)
      sgs' (frame_blocks sg + F)"
    using w p(3-7) m5(2,3) without_message_tails[OF s(4) st(1)] at
    by (simp add: stands_for_def tails_ok_def)
  moreover have "sgs' = sgs \<or> sgs' = sgs @ [sg']" using p(8) by simp
  ultimately show ?thesis using a(5) by blast
qed

section \<open>A segment of a larger message\<close>

lemma maybe_cleanup_mem_run:
  assumes w: "stands_for w v at sgs F" and v: "buffer_ok (p_segment_buff v)"
  shows "\<exists>m at'. maybe_cleanup_mem now w = Some (Inr (w\<lparr>wm_memory := m\<rparr>)) \<and>
    maybe_cleanup now v = Inr (v\<lparr>p_segment_buff := buffer_of at'\<rparr>) \<and>
    stands_for (w\<lparr>wm_memory := m\<rparr>) (v\<lparr>p_segment_buff := buffer_of at'\<rparr>) at' sgs F"
proof -
  note s = stands_forD[OF w]
  have b: "buffer_at (wm_memory w) (wm_segment_buff w) = Inr (buffer_fields_of at)"
    using buffer_at_run[OF s(6)] s(1) by simp
  have due: "(bf_cleanup (buffer_fields_of at) = 1 \<and> bf_count (buffer_fields_of at) > of_nat CLEAN_COUNT_MAX) \<longleftrightarrow>
      (cleanup (p_segment_buff v) = 1 \<and> sb_count (p_segment_buff v) > of_nat CLEAN_COUNT_MAX)"
    using s(2) by (simp add: buffer_fields_of_def buffer_of_def)
  show ?thesis
  proof (cases "cleanup (p_segment_buff v) = 1 \<and> sb_count (p_segment_buff v) > of_nat CLEAN_COUNT_MAX")
    case True
    have "buckets_ok (buffer_of at)" using v s(2) by (simp add: buffer_ok_def)
    then obtain m at' where m: "cleanup_seg_buff_mem now (wm_memory w) (at_addr at) CLEAN_UP_PASS_SIZE = Some (Inr m)"
      "owns m (table_blocks at' + (messages_blocks sgs + F))" "at_addr at' = at_addr at" "at_stale at' = at_stale at"
      "tails_ok at'" "outcomes m = outcomes (wm_memory w)"
      "cleanup_seg_buff now (buffer_of at) CLEAN_UP_PASS_SIZE = Inr (buffer_of at')"
      using cleanup_seg_buff_mem_run[OF s(6) _ s(3,4)] by blast
    have "maybe_cleanup_mem now w = Some (Inr (w\<lparr>wm_memory := m\<rparr>))"
      using True due b m(1) s(1) unfolding maybe_cleanup_mem_def by simp
    moreover have "maybe_cleanup now v = Inr (v\<lparr>p_segment_buff := buffer_of at'\<rparr>)"
      using True m(7) s(2) unfolding maybe_cleanup_def Let_def by simp
    ultimately show ?thesis using stands_for_table[OF w m(3-5)] m(2,6) s(5) by auto
  next
    case False
    then have "maybe_cleanup_mem now w = Some (Inr (w\<lparr>wm_memory := wm_memory w\<rparr>))"
      "maybe_cleanup now v = Inr (v\<lparr>p_segment_buff := buffer_of at\<rparr>)"
      using due b s(2) unfolding maybe_cleanup_mem_def maybe_cleanup_def Let_def by auto
    then show ?thesis using stands_for_table[OF w refl refl s(4,5,6)] by blast
  qed
qed

lemma free_partial_run:
  assumes w: "stands_for w v at sgs (frame_blocks sg + (option_list_blocks (sg_options_addr sg) xs + F))"
  shows "\<exists>m. free_partial_mem (wm_memory w) (sg_addr sg) = Some (Inr m) \<and> stands_for (w\<lparr>wm_memory := m\<rparr>) v at sgs F"
proof -
  have "owns (wm_memory w) (frame_blocks sg + (option_list_blocks (sg_options_addr sg) xs +
      (table_blocks at + (messages_blocks sgs + F))))"
    using stands_forD(6)[OF w] by (simp add: region_ac)
  from free_frame_run[OF this] stands_forD(5)[OF w]
  obtain m where "free_partial_mem (wm_memory w) (sg_addr sg) = Some (Inr m)" "outcomes m = []"
    "owns m (table_blocks at + (messages_blocks sgs + F))"
    by (auto simp: free_partial_mem_def)
  then show ?thesis using w by (auto simp: stands_for_def)
qed

lemma free_segment_run:
  assumes w: "stands_for w v at sgs (segment_blocks sg + F)"
  shows "\<exists>m. unyte_udp_free_all_mem (wm_memory w) (sg_addr sg) = Some (Inr m) \<and> stands_for (w\<lparr>wm_memory := m\<rparr>) v at sgs F"
proof -
  have "owns (wm_memory w) (segment_blocks sg + (table_blocks at + (messages_blocks sgs + F)))"
    using stands_forD(6)[OF w] by (simp add: region_ac)
  from free_all_run[OF this] show ?thesis using w by (auto simp: stands_for_def)
qed

text \<open>The insertion, with what it leaves of the segment.\<close>

lemma insert_step_run:
  assumes w: "stands_for w v at sgs (segment_blocks sg + F)" and v: "buffer_ok (p_segment_buff v)"
    and seg: "segment_ok (seg_of sg)" and f: "f_num (sg_header sg) = Some num" "f_last (sg_header sg) = Some lst"
    and ins: "inserted (p_segment_buff v) (seg_of sg) = (r, M)"
  defines "odid \<equiv> observation_domain_id (sg_header sg)" and "mid \<equiv> message_id (sg_header sg)"
    and "n \<equiv> word_of_int (uint (message_length (sg_header sg)) - uint (header_length (sg_header sg)))"
  shows "\<exists>m at'. insert_segment_mem (wm_memory w) (wm_segment_buff w) odid mid (ucast num) (uint lst) n
      (sg_payload_addr sg) (sg_options_addr sg) = Some (Inr (r, m)) \<and>
    insert_segment (p_segment_buff v) odid mid (ucast num) (uint lst) n (sg_payload sg)
      (Some (vals (sg_options sg))) [] = Inr (r, buffer_of at', []) \<and>
    r \<in> {-2, -1, 0, 1} \<and> buffer_ok (buffer_of at') \<and> message_at (buffer_of at') odid mid = Some M \<and>
    stands_for (w\<lparr>wm_memory := m\<rparr>) (v\<lparr>p_segment_buff := buffer_of at'\<rparr>) at' sgs
      (frame_blocks sg + (left_over r (sg_payload_addr sg) (sg_payload sg) (sg_options_addr sg) (sg_options sg) + F))"
proof -
  note s = stands_forD[OF w]
  let ?L = "left_over r (sg_payload_addr sg) (sg_payload sg) (sg_options_addr sg) (sg_options sg)"
  have h: "options (header (seg_of sg)) = Some (vals (sg_options sg))" "payload (seg_of sg) = sg_payload sg"
    by (simp_all add: seg_of_def)
  have os: "list_all option_read (vals (sg_options sg))" and "unat num < 32768"
    using seg f(1) by (auto simp: segment_ok_def seg_of_def)
  then have num: "unat (ucast num :: u32) < 32768" by (simp add: unat_ucast_small)
  have n: "n = of_nat (length (sg_payload sg))"
    using payload_size_word(1)[OF seg] by (simp add: n_def seg_of_def)
  obtain buf where b: "insert_segment (p_segment_buff v) odid mid (ucast num) (uint lst) n (sg_payload sg)
      (Some (vals (sg_options sg))) [] = Inr (r, buf, [])" "buffer_ok buf" "r \<in> {-2, -1, 0, 1}"
    "message_at buf odid mid = Some M"
    using insert_buffer_ok[OF v payload_size_word(2,3)[OF seg] num os, of odid mid "uint lst"] ins f h
    unfolding n by (auto simp: inserted_def Let_def odid_def mid_def seg_of_def)
  have o: "owns (wm_memory w) (table_blocks at +
      (add_mset (sg_payload_addr sg, Raw (sg_payload sg)) (option_list_blocks (sg_options_addr sg) (sg_options sg)) +
       (frame_blocks sg + (messages_blocks sgs + F))))"
    using s(6) by (simp add: segment_blocks_def region_ac)
  have val: "insert_segment (buffer_of at) odid mid (ucast num) (uint lst) n (sg_payload sg)
      (Some (vals (sg_options sg))) (outcomes (wm_memory w)) = Inr (r, buf, [])"
    using b(1) s(2,5) by simp
  obtain m at' where m: "insert_segment_mem (wm_memory w) (at_addr at) odid mid (ucast num) (uint lst) n
      (sg_payload_addr sg) (sg_options_addr sg) = Some (Inr (r, m))"
    "at_addr at' = at_addr at" "at_stale at' = at_stale at" "tails_ok at'" "buffer_of at' = buf" "outcomes m = []"
    "owns m (table_blocks at' + ?L + (frame_blocks sg + (messages_blocks sgs + F)))"
    using insert_segment_run[OF o s(3,4) val] b(3) by (auto simp: inserted_blocks_def)
  have "owns m (table_blocks at' + (messages_blocks sgs + (frame_blocks sg + (?L + F))))"
    using m(7) by (simp add: region_ac)
  from stands_for_table[OF w m(2-4,6) this] show ?thesis using m(1,5) b s(1) by auto
qed

text \<open>What is left in memory when a complete message was completed once more: the payload.\<close>

definition leaked :: "int \<Rightarrow> a_segment \<Rightarrow> region" where
  "leaked r sg = (if r = -2 then {#(sg_payload_addr sg, Raw (sg_payload sg))#} else {#})"

lemma left_over_leaked:
  assumes "r \<in> {-2, 0, 1}"
  shows "\<exists>xs. left_over r (sg_payload_addr sg) (sg_payload sg) (sg_options_addr sg) (sg_options sg) =
    option_list_blocks (sg_options_addr sg) xs + leaked r sg"
  using assms
  by (intro exI[of _ "if r = -2 then sg_options sg else []"]) (auto simp: left_over_def leaked_def)

text \<open>The clean-up that may be due, and the release of the segment.\<close>

lemma finish_step_run:
  assumes w: "stands_for w v at sgs (frame_blocks sg +
      (left_over r (sg_payload_addr sg) (sg_payload sg) (sg_options_addr sg) (sg_options sg) + F))"
    and v: "buffer_ok (p_segment_buff v)" and r: "r \<in> {-2, 0, 1}"
  shows "\<exists>w' v' at'.
    bind_run (maybe_cleanup_mem now w) (\<lambda>w4.
      bind_run (free_partial_mem (wm_memory w4) (sg_addr sg)) (\<lambda>m5. Some (Inr (None, w4\<lparr>wm_memory := m5\<rparr>)))) =
      Some (Inr (None, w')) \<and>
    bind_run (Some (maybe_cleanup now v)) (\<lambda>w4. Some (Inr (None, w4, []))) = Some (Inr (None, v', [])) \<and>
    stands_for w' v' at' sgs (leaked r sg + F)"
proof -
  obtain xs where xs: "left_over r (sg_payload_addr sg) (sg_payload sg) (sg_options_addr sg) (sg_options sg) =
      option_list_blocks (sg_options_addr sg) xs + leaked r sg"
    using left_over_leaked[OF r] by blast
  obtain m at' where m: "maybe_cleanup_mem now w = Some (Inr (w\<lparr>wm_memory := m\<rparr>))"
    "maybe_cleanup now v = Inr (v\<lparr>p_segment_buff := buffer_of at'\<rparr>)"
    "stands_for (w\<lparr>wm_memory := m\<rparr>) (v\<lparr>p_segment_buff := buffer_of at'\<rparr>) at' sgs
      (frame_blocks sg + (option_list_blocks (sg_options_addr sg) xs + (leaked r sg + F)))"
    using maybe_cleanup_mem_run[OF w v, of now] unfolding xs union_assoc by blast
  from free_partial_run[OF m(3)] m(1,2) show ?thesis by auto
qed

text \<open>What follows the insertion.\<close>

definition after_insert_mem :: "int \<Rightarrow> worker_mem \<Rightarrow> addr \<Rightarrow> int \<Rightarrow> (fault + (int option \<times> worker_mem)) option" where
  "after_insert_mem now w seg r =
     (if r = -1 then bind_run (unyte_udp_free_all_mem (wm_memory w) seg) (\<lambda>m. Some (Inr (None, w\<lparr>wm_memory := m\<rparr>)))
      else
        bind_run (if r = 1 \<or> r = -2 then complete_message_mem w seg else Some (Inr w)) (\<lambda>w3.
        bind_run (maybe_cleanup_mem now w3) (\<lambda>w4.
        bind_run (free_partial_mem (wm_memory w4) seg) (\<lambda>m5. Some (Inr (None, w4\<lparr>wm_memory := m5\<rparr>))))))"

definition after_insert ::
  "int \<Rightarrow> parser_thread_input \<Rightarrow> unyte_seg_met \<Rightarrow> int \<Rightarrow> (fault + (int option \<times> parser_thread_input \<times> allocs)) option" where
  "after_insert now v seg r =
     (if r = -1 then Some (Inr (None, v, []))
      else
        bind_run (if r = 1 \<or> r = -2 then complete_message v seg [] else Some (Inr (v, []))) (\<lambda>(v3, as2).
        bind_run (Some (maybe_cleanup now v3)) (\<lambda>v4. Some (Inr (None, v4, as2)))))"

lemma after_insert_run:
  assumes w: "stands_for w v at sgs (frame_blocks sg +
      (left_over r (sg_payload_addr sg) (sg_payload sg) (sg_options_addr sg) (sg_options sg) + F))"
    and v: "buffer_ok (p_segment_buff v)" "queue_inv (p_output v)" "counters_ok (p_counters v)"
    and seg: "segment_ok (seg_of sg)" and r: "r \<in> {-2, -1, 0, 1}"
    and M: "message_at (p_segment_buff v) (observation_domain_id (sg_header sg)) (message_id (sg_header sg)) = Some M"
  shows "\<exists>w' v' at' sgs'. after_insert_mem now w (sg_addr sg) r = Some (Inr (None, w')) \<and>
    after_insert now v (seg_of sg) r = Some (Inr (None, v', [])) \<and>
    stands_for w' v' at' sgs' (leaked r sg + F) \<and>
    (sgs' = sgs \<or> (r = 1 \<or> r = -2) \<and> (\<exists>sg'. sgs' = sgs @ [sg'] \<and> seg_of sg' = assembled (seg_of sg) M))"
proof -
  consider (present) "r = -1" | (complete) "r = 1 \<or> r = -2" | (partial) "r = 0" using r by blast
  then show ?thesis
  proof cases
    case present
    then have "left_over r (sg_payload_addr sg) (sg_payload sg) (sg_options_addr sg) (sg_options sg) =
        add_mset (sg_payload_addr sg, Raw (sg_payload sg)) (option_list_blocks (sg_options_addr sg) (sg_options sg))"
      by (simp add: left_over_def)
    then have "stands_for w v at sgs (segment_blocks sg + F)"
      using w by (simp add: segment_blocks_def union_assoc)
    from free_segment_run[OF this] present show ?thesis
      by (auto simp: leaked_def after_insert_mem_def after_insert_def)
  next
    case partial
    then have "r \<in> {-2, 0, 1}" by simp
    from finish_step_run[OF w v(1) this, of now] partial show ?thesis
      by (auto simp: after_insert_mem_def after_insert_def)
  next
    case complete
    have src: "sg_src sg \<noteq> None" using seg by (auto simp: segment_ok_def seg_of_def)
    obtain w3 v3 at3 sgs' where c: "complete_message_mem w (sg_addr sg) = Some (Inr w3)"
      "complete_message v (seg_of sg) [] = Some (Inr (v3, []))"
      "stands_for w3 v3 at3 sgs' (frame_blocks sg +
        (left_over r (sg_payload_addr sg) (sg_payload sg) (sg_options_addr sg) (sg_options sg) + F))"
      "sgs' = sgs \<or> (\<exists>sg'. sgs' = sgs @ [sg'] \<and> seg_of sg' = assembled (seg_of sg) M)"
      using complete_message_mem_run[OF w src v M] by blast
    have "buffer_ok (p_segment_buff v3)"
      using complete_message_run[of v "seg_of sg" M] M v seg c(2) by (auto simp: segment_ok_def seg_of_def)
    from finish_step_run[OF c(3) this, of now] complete show ?thesis
      using c(1,2,4) by (fastforce simp: after_insert_mem_def after_insert_def)
  qed
qed

lemma store_segment_mem_run:
  assumes w: "stands_for w v at sgs (segment_blocks sg + F)"
    and v: "buffer_ok (p_segment_buff v)" "queue_inv (p_output v)" "counters_ok (p_counters v)"
    and seg: "segment_ok (seg_of sg)" "f_num (sg_header sg) \<noteq> None" "f_last (sg_header sg) \<noteq> None"
    and ins: "inserted (p_segment_buff v) (seg_of sg) = (r, M)"
  shows "\<exists>w' v' at' sgs'. store_segment_mem now w (sg_addr sg) = Some (Inr (None, w')) \<and>
    store_segment now v (seg_of sg) [] = Some (Inr (None, v', [])) \<and>
    stands_for w' v' at' sgs' (leaked r sg + F) \<and>
    (sgs' = sgs \<or> (r = 1 \<or> r = -2) \<and> (\<exists>sg'. sgs' = sgs @ [sg'] \<and> seg_of sg' = assembled (seg_of sg) M))"
proof -
  obtain num lst where f: "f_num (sg_header sg) = Some num" "f_last (sg_header sg) = Some lst" using seg by auto
  let ?h = "sg_header sg"
  let ?n = "word_of_int (uint (message_length ?h) - uint (header_length ?h)) :: u32"
  obtain m at1 where i: "insert_segment_mem (wm_memory w) (wm_segment_buff w) (observation_domain_id ?h)
      (message_id ?h) (ucast num) (uint lst) ?n (sg_payload_addr sg) (sg_options_addr sg) = Some (Inr (r, m))"
    "insert_segment (p_segment_buff v) (observation_domain_id ?h) (message_id ?h) (ucast num) (uint lst) ?n
      (sg_payload sg) (Some (vals (sg_options sg))) [] = Inr (r, buffer_of at1, [])"
    "r \<in> {-2, -1, 0, 1}" "buffer_ok (buffer_of at1)"
    "message_at (buffer_of at1) (observation_domain_id ?h) (message_id ?h) = Some M"
    "stands_for (w\<lparr>wm_memory := m\<rparr>) (v\<lparr>p_segment_buff := buffer_of at1\<rparr>) at1 sgs (frame_blocks sg +
      (left_over r (sg_payload_addr sg) (sg_payload sg) (sg_options_addr sg) (sg_options sg) + F))"
    using insert_step_run[OF w v(1) seg(1) f ins] by blast
  let ?w1 = "w\<lparr>wm_memory := m\<rparr>" and ?v1 = "v\<lparr>p_segment_buff := buffer_of at1\<rparr>"
  have "owns (wm_memory w) (frame_blocks sg + (add_mset (sg_payload_addr sg, Raw (sg_payload sg))
      (option_list_blocks (sg_options_addr sg) (sg_options sg)) + (table_blocks at + (messages_blocks sgs + F))))"
    using stands_forD(6)[OF w] by (simp add: segment_blocks_def region_ac)
  from frame_reads(1,2)[OF this]
  have "store_segment_mem now w (sg_addr sg) = after_insert_mem now ?w1 (sg_addr sg) r"
    using i(1,3) f by (auto simp: store_segment_mem_def after_insert_mem_def Let_def)
  moreover have "store_segment now v (seg_of sg) [] = after_insert now ?v1 (seg_of sg) r"
    using i(2,3) f by (auto simp: store_segment_def after_insert_def Let_def seg_of_def)
  ultimately show ?thesis using after_insert_run[OF i(6) _ _ _ seg(1) i(3)] i(4,5) v(2,3) by auto
qed

section \<open>Any parsed segment\<close>

definition segmented :: "a_segment \<Rightarrow> bool" where
  "segmented sg \<longleftrightarrow> is_segmented (sg_header sg) (opts_bytes (vals (sg_options sg)))"

text \<open>What the parser makes: a segment of a larger message has the segmentation fields.\<close>

definition parsed_ok :: "a_segment \<Rightarrow> bool" where
  "parsed_ok sg \<longleftrightarrow> segment_ok (seg_of sg) \<and>
     (segmented sg \<longrightarrow> f_num (sg_header sg) \<noteq> None \<and> f_last (sg_header sg) \<noteq> None)"

text \<open>The payload that no one frees.\<close>

definition leak :: "segment_buffer \<Rightarrow> a_segment \<Rightarrow> region" where
  "leak buf sg = (if segmented sg then leaked (fst (inserted buf (seg_of sg))) sg else {#})"

text \<open>The message that a segment gives: itself, or the one it completes.\<close>

definition message_for :: "segment_buffer \<Rightarrow> a_segment \<Rightarrow> unyte_seg_met" where
  "message_for buf sg =
     (if segmented sg then assembled (seg_of sg) (snd (inserted buf (seg_of sg))) else seg_of sg)"

lemma options_total_bytes_run:
  assumes "owns m (option_list_blocks p xs + F)"
  shows "options_total_bytes_mem m p = Some (Inr (opts_bytes (vals xs)))"
proof -
  let ?n = "\<lparr>on_type = 0, on_length = 0, on_data = 0, on_next = first_addr xs 0\<rparr>"
  have "(p, Option_Node ?n) \<in># option_list_blocks p xs + F" "on_next ?n = first_addr xs 0"
    by (simp_all add: option_list_blocks_def head_node_def)
  moreover have "set_mset (option_blocks xs 0) \<subseteq> set_mset (option_list_blocks p xs + F)"
    by (auto simp: option_list_blocks_def)
  ultimately have "options_walk m p 0 = Some (Inr (last_addr p xs, 0 + opts_bytes (vals xs)))"
    by (rule options_walk_run[OF assms])
  then show ?thesis by (simp add: options_total_bytes_mem_def)
qed

lemma segment_reads:
  assumes "owns m (segment_blocks sg + F)"
  shows "seg_header_at m (sg_addr sg) = Inr (sg_header sg, sg_options_addr sg)"
    "options_total_bytes_mem m (sg_options_addr sg) = Some (Inr (opts_bytes (vals (sg_options sg))))"
proof -
  let ?P = "add_mset (sg_payload_addr sg, Raw (sg_payload sg)) F"
  have "owns m (frame_blocks sg + (option_list_blocks (sg_options_addr sg) (sg_options sg) + ?P))"
    using assms by (simp add: segment_blocks_def region_ac)
  from frame_reads(1,2)[OF this] show "seg_header_at m (sg_addr sg) = Inr (sg_header sg, sg_options_addr sg)"
    by (simp add: seg_header_at_def)
  show "options_total_bytes_mem m (sg_options_addr sg) = Some (Inr (opts_bytes (vals (sg_options sg))))"
    using assms by (intro options_total_bytes_run[where F = "frame_blocks sg + ?P"])
      (simp add: segment_blocks_def region_ac)
qed

lemma pass_on_segment_run:
  assumes w: "stands_for w v at sgs (segment_blocks sg + F)" and v: "queue_inv (p_output v)" "counters_ok (p_counters v)"
  shows "\<exists>w' out c sgs'. push_output_mem w (sg_addr sg) = Some (Inr w') \<and>
    push_output v (seg_of sg) odid mid [] = Some (Inr (v\<lparr>p_output := out, p_counters := c\<rparr>, [])) \<and>
    stands_for w' (v\<lparr>p_output := out, p_counters := c\<rparr>) at sgs' F \<and> queue_inv out \<and> counters_ok c \<and>
    (sgs' = sgs \<or> sgs' = sgs @ [sg])"
proof -
  note s = stands_forD[OF w]
  obtain sgs' out out' m where p: "push_output_mem w (sg_addr sg) = Some (Inr (w\<lparr>wm_memory := m, wm_output := out'\<rparr>))"
    "unyte_udp_queue_write (p_output v) (Some (seg_of sg)) = Some (Inr (if has_room v then 0 else -1, out))"
    "queue_inv out" "queue_inv out'" "q_capacity out = q_capacity out'"
    "q_list out = map (\<lambda>sg. Some (seg_of sg)) sgs'" "q_list out' = map (\<lambda>sg. Some (sg_addr sg)) sgs'"
    "sgs' = sgs @ (if has_room v then [sg] else [])" "outcomes m = []"
    "owns m (table_blocks at + (messages_blocks sgs' + F))"
    using push_output_mem_run[OF w v(1) s(5,6)] by auto
  obtain c where c: "push_output v (seg_of sg) odid mid [] = Some (Inr (v\<lparr>p_output := out, p_counters := c\<rparr>, []))"
    "counters_ok c"
    using push_output_value[OF p(2) v(2)] by blast
  have "stands_for (w\<lparr>wm_memory := m, wm_output := out'\<rparr>) (v\<lparr>p_output := out, p_counters := c\<rparr>) at sgs' F"
    using w p(3-7,9,10) by (simp add: stands_for_def)
  with p(1,3,8) c show ?thesis
    by (intro exI[of _ "w\<lparr>wm_memory := m, wm_output := out'\<rparr>"] exI[of _ out] exI[of _ c] exI[of _ sgs']) simp
qed

definition values_ok :: "parser_thread_input \<Rightarrow> bool" where
  "values_ok v \<longleftrightarrow> buffer_ok (p_segment_buff v) \<and> queue_inv (p_output v) \<and> counters_ok (p_counters v)"

lemma handle_segment_mem_run:
  assumes w: "stands_for w v at sgs (segment_blocks sg + F)" and v: "values_ok v" and sg: "parsed_ok sg"
  shows "\<exists>w' v' at' sgs'. handle_segment_mem now w (sg_addr sg) = Some (Inr (None, w')) \<and>
    handle_segment now v (seg_of sg) [] = Some (Inr (None, v', [])) \<and> values_ok v' \<and>
    stands_for w' v' at' sgs' (leak (p_segment_buff v) sg + F) \<and>
    (sgs' = sgs \<or> (\<exists>sg'. sgs' = sgs @ [sg'] \<and> seg_of sg' = message_for (p_segment_buff v) sg))"
proof -
  have "owns (wm_memory w) (segment_blocks sg + (table_blocks at + (messages_blocks sgs + F)))"
    using stands_forD(6)[OF w] by (simp add: region_ac)
  note reads = segment_reads[OF this]
  have vals: "options_total_bytes (options (header (seg_of sg))) = Inr (opts_bytes (vals (sg_options sg)))"
    "is_segmented (header (seg_of sg)) (opts_bytes (vals (sg_options sg))) = segmented sg"
    by (simp_all add: options_total_bytes_def seg_of_def segmented_def is_segmented_def)
  show ?thesis
  proof (cases "segmented sg")
    case True
    then have f: "segment_ok (seg_of sg)" "f_num (sg_header sg) \<noteq> None" "f_last (sg_header sg) \<noteq> None"
      "f_num (header (seg_of sg)) \<noteq> None" "f_last (header (seg_of sg)) \<noteq> None"
      using sg by (simp_all add: parsed_ok_def seg_of_def)
    obtain r M where ins: "inserted (p_segment_buff v) (seg_of sg) = (r, M)" by fastforce
    obtain w' v' at' sgs' where st: "store_segment_mem now w (sg_addr sg) = Some (Inr (None, w'))"
      "store_segment now v (seg_of sg) [] = Some (Inr (None, v', []))" "stands_for w' v' at' sgs' (leaked r sg + F)"
      "sgs' = sgs \<or> (\<exists>sg'. sgs' = sgs @ [sg'] \<and> seg_of sg' = assembled (seg_of sg) M)"
      using store_segment_mem_run[OF w _ _ _ f(1-3) ins, of now] v unfolding values_ok_def by blast
    have "values_ok v'"
      using store_segment_run[OF _ _ _ f(1,4,5) ins, of now] v st(2) by (auto simp: values_ok_def)
    moreover have "handle_segment_mem now w (sg_addr sg) = Some (Inr (None, w'))"
      using True reads st(1) by (simp add: handle_segment_mem_def segmented_def)
    moreover have "handle_segment now v (seg_of sg) [] = Some (Inr (None, v', []))"
      using True vals st(2) by (simp add: handle_segment_def)
    ultimately show ?thesis using st(3,4) ins True by (auto simp: leak_def message_for_def)
  next
    case False
    let ?h = "header (seg_of sg)"
    obtain w' out c sgs' where p: "push_output_mem w (sg_addr sg) = Some (Inr w')"
      "push_output v (seg_of sg) (observation_domain_id ?h) (message_id ?h) [] = Some (Inr (v\<lparr>p_output := out, p_counters := c\<rparr>, []))"
      "stands_for w' (v\<lparr>p_output := out, p_counters := c\<rparr>) at sgs' F" "queue_inv out" "counters_ok c"
      "sgs' = sgs \<or> sgs' = sgs @ [sg]"
      using pass_on_segment_run[OF w] v unfolding values_ok_def by blast
    have "handle_segment_mem now w (sg_addr sg) = Some (Inr (None, w'))"
      using False reads p(1) by (simp add: handle_segment_mem_def segmented_def)
    moreover have "handle_segment now v (seg_of sg) [] = Some (Inr (None, v\<lparr>p_output := out, p_counters := c\<rparr>, []))"
      using False vals p(2) by (simp add: handle_segment_def)
    moreover have "values_ok (v\<lparr>p_output := out, p_counters := c\<rparr>)" using v p(4,5) by (simp add: values_ok_def)
    ultimately show ?thesis using p(3,6) False by (auto simp: leak_def message_for_def)
  qed
qed

section \<open>The life of the memory\<close>

text \<open>The worker on a sequence of parsed segments, each with the time it is handled at.\<close>

fun handle_segments_mem :: "(int \<times> addr) list \<Rightarrow> worker_mem \<Rightarrow> (fault + (int option \<times> worker_mem)) option" where
  "handle_segments_mem [] w = Some (Inr (None, w))"
| "handle_segments_mem ((now, seg) # xs) w =
     bind_run (handle_segment_mem now w seg) (\<lambda>(r, w1).
     case r of None \<Rightarrow> handle_segments_mem xs w1 | Some x \<Rightarrow> Some (Inr (Some x, w1)))"

definition payload_block :: "a_segment \<Rightarrow> addr \<times> block" where
  "payload_block sg = (sg_payload_addr sg, Raw (sg_payload sg))"

lemma leak_payload: "leak buf sg \<subseteq># {#payload_block sg#}"
  by (simp add: leak_def leaked_def payload_block_def)

lemma handle_segments_mem_run:
  assumes "stands_for w v at sgs (messages_blocks (map snd xs) + F)" and "values_ok v"
    and "\<forall>x\<in>set xs. parsed_ok (snd x)"
  shows "\<exists>w' v' at' sgs' L. handle_segments_mem (map (\<lambda>x. (fst x, sg_addr (snd x))) xs) w = Some (Inr (None, w')) \<and>
    values_ok v' \<and> stands_for w' v' at' sgs' (L + F) \<and> L \<subseteq># mset (map (\<lambda>x. payload_block (snd x)) xs)"
  using assms
proof (induction xs arbitrary: w v at sgs F)
  case Nil
  then show ?case by (intro exI[of _ w] exI[of _ v] exI[of _ at] exI[of _ sgs] exI[of _ "{#}"]) simp
next
  case (Cons x xs)
  obtain now sg where x: "x = (now, sg)" by (cases x)
  have "stands_for w v at sgs (segment_blocks sg + (messages_blocks (map snd xs) + F))"
    using Cons.prems(1) by (simp add: x union_assoc)
  then obtain w1 v1 at1 sgs1 where 1: "handle_segment_mem now w (sg_addr sg) = Some (Inr (None, w1))" "values_ok v1"
    "stands_for w1 v1 at1 sgs1 (leak (p_segment_buff v) sg + (messages_blocks (map snd xs) + F))"
    using handle_segment_mem_run[of w v at sgs sg "messages_blocks (map snd xs) + F" now] Cons.prems(2,3) x by auto
  let ?l = "leak (p_segment_buff v) sg"
  have st: "stands_for w1 v1 at1 sgs1 (messages_blocks (map snd xs) + (?l + F))" using 1(3) by (simp add: region_ac)
  have "\<forall>x\<in>set xs. parsed_ok (snd x)" using Cons.prems(3) by simp
  from Cons.IH[OF st 1(2) this]
  obtain w' v' at' sgs' L where 2: "handle_segments_mem (map (\<lambda>x. (fst x, sg_addr (snd x))) xs) w1 = Some (Inr (None, w'))"
    "values_ok v'" "stands_for w' v' at' sgs' (L + (?l + F))" "L \<subseteq># mset (map (\<lambda>x. payload_block (snd x)) xs)"
    by blast
  have "L + ?l \<subseteq># mset (map (\<lambda>x. payload_block (snd x)) (x # xs))"
    using subset_mset.add_mono[OF 2(4) leak_payload[of "p_segment_buff v" sg]] by (simp add: x)
  then show ?case
    using 1(1) 2(1-3) x
    by (intro exI[of _ w'] exI[of _ v'] exI[of _ at'] exI[of _ sgs'] exI[of _ "L + ?l"]) (simp add: union_assoc)
qed

text \<open>The messages are freed, and then the table.\<close>

lemma free_output_release:
  assumes "queue_inv q" and "q_list q = map Some as"
  shows "free_output_mem m q = release_each unyte_udp_free_all_mem m as"
  using assms
proof (induction as arbitrary: m q)
  case Nil
  then show ?case by (subst free_output_mem.simps) (simp add: ring.nonempty_law)
next
  case (Cons a as)
  obtain q1 where q1: "unyte_udp_queue_read q = Some (Inr (Some a, q1))" "queue_inv q1" "q_list q1 = map Some as"
    using ring.dequeue_law[OF Cons.prems(1), of "Some a" "map Some as"] Cons.prems(2) by auto
  have "is_udp_queue_empty q \<noteq> 0" using ring.nonempty_law[OF Cons.prems(1)] Cons.prems(2) by simp
  then show ?case
    using q1(1) Cons.IH[OF q1(2,3)]
    by (subst free_output_mem.simps)
      (cases "unyte_udp_free_all_mem m a"; simp split: sum.splits)
qed

lemma shutdown_run:
  assumes w: "stands_for w v at sgs F" and v: "values_ok v"
  shows "\<exists>m1 m2. free_output_mem (wm_memory w) (wm_output w) = Some (Inr m1) \<and>
    clear_buffer_mem m1 (wm_segment_buff w) = Some (Inr (int (stored (p_segment_buff v)), m2)) \<and> owns m2 F"
proof -
  note s = stands_forD[OF w]
  have "owns (wm_memory w) ((\<Sum>sg\<leftarrow>sgs. segment_blocks sg) + (table_blocks at + F))"
    using s(6) by (simp add: messages_blocks_def region_ac)
  from seg.release_each_run[OF this]
  obtain m1 where m1: "release_each unyte_udp_free_all_mem (wm_memory w) (map sg_addr sgs) = Some (Inr m1)"
    "owns m1 (table_blocks at + F)" by blast
  have "free_output_mem (wm_memory w) (wm_output w) = Some (Inr m1)"
    using free_output_release[of "wm_output w" "map sg_addr sgs"] w m1(1) by (simp add: stands_for_def)
  moreover have "buckets_ok (buffer_of at)" using v s(2) by (simp add: values_ok_def buffer_ok_def)
  ultimately show ?thesis using clear_buffer_mem_run[OF m1(2) _ s(3)] s(1,2) by auto
qed

section \<open>Properties\<close>

text \<open>
  C11. What the parsing worker does with a parsed segment, on the blocks. The worker that follows the pointers
  does what \<open>handle_segment\<close> does on the values, which is the part of \<open>parser_step\<close> that
  follows the parser. It faults nowhere: no block is read after it was freed, none is freed twice.
  Afterwards the memory consists of the blocks of the segmentation buffer, of the
  messages in the output queue, and of what was there before; at most one message was added to the queue, the segment itself or the
  message it completed. The one exception is a segment that is present already and yet completes its message
  (\<open>insert_segment\<close> returned -2): its payload stays allocated, and nothing points to it.
\<close>

theorem handle_segment_memory:
  assumes "stands_for w v at sgs (segment_blocks sg + F)" and "values_ok v" and "parsed_ok sg"
  shows "\<exists>w' v' at' sgs'. handle_segment_mem now w (sg_addr sg) = Some (Inr (None, w')) \<and>
    handle_segment now v (seg_of sg) [] = Some (Inr (None, v', [])) \<and> values_ok v' \<and>
    stands_for w' v' at' sgs'
      ((if segmented sg \<and> fst (inserted (p_segment_buff v) (seg_of sg)) = -2
        then {#(sg_payload_addr sg, Raw (sg_payload sg))#} else {#}) + F) \<and>
    (sgs' = sgs \<or> (\<exists>sg'. sgs' = sgs @ [sg'] \<and> seg_of sg' =
      (if segmented sg then assembled (seg_of sg) (snd (inserted (p_segment_buff v) (seg_of sg))) else seg_of sg)))"
proof -
  have "leak (p_segment_buff v) sg =
      (if segmented sg \<and> fst (inserted (p_segment_buff v) (seg_of sg)) = -2
       then {#(sg_payload_addr sg, Raw (sg_payload sg))#} else {#})"
    by (simp add: leak_def leaked_def)
  with handle_segment_mem_run[OF assms, of now] show ?thesis by (simp only: message_for_def)
qed


section \<open>A worker with its memory\<close>

text \<open>An empty segmentation buffer, and a parsed segment.\<close>

definition sample_parsed :: a_segment where
  "sample_parsed = \<lparr>sg_addr = 2, sg_header_addr = 3, sg_header = header (received sample_min sample_sent),
     sg_options_addr = 4, sg_options = [(5, 6, sample_option)], sg_metadata_addr = 7,
     sg_src = Some (8, new_sockaddr), sg_dest = None, sg_payload_addr = 9, sg_payload = [104, 105]\<rparr>"

definition parsed_blocks :: "(addr \<times> block) list" where
  "parsed_blocks =
     [(1, Buffer \<lparr>bf_count = 0, bf_hash_array = (\<lambda>_. 0), bf_cleanup = 0, bf_cleanup_start_index = 0\<rparr>),
      (2, Seg_Met \<lparr>sm_metadata = 7, sm_header = 3, sm_payload = 9\<rparr>),
      (3, Header (header (received sample_min sample_sent)) 4), (4, head_node 5),
      (5, Option_Node \<lparr>on_type = 3, on_length = 4, on_data = 6, on_next = 0\<rparr>), (6, Raw [65, 66]),
      (7, Metadata \<lparr>md_src = 8, md_dest = 0\<rparr>), (8, Sockaddr new_sockaddr), (9, Raw [104, 105])]"

definition sample_worker_mem :: worker_mem where
  "sample_worker_mem = \<lparr>wm_memory = memory_of parsed_blocks [], wm_segment_buff = 1,
     wm_output = \<lparr>q_head = 0, q_tail = 0, q_size = 2, q_empty = 2, q_full = 0, q_data = [Uninit, Uninit]\<rparr>,
     wm_max_malloc_errs = 3\<rparr>"

lemma sample_parsed_ok:
  "stands_for sample_worker_mem (sample_run sample_sent) (empty_table 1) [] (segment_blocks sample_parsed + {#})"
  "values_ok (sample_run sample_sent)" "parsed_ok sample_parsed" "sg_addr sample_parsed = 2"
proof -
  note ok = sample_run_ok[OF sample_packets_ok(1)]
  have "table_blocks (empty_table 1) + segment_blocks sample_parsed = mset parsed_blocks"
    by (simp add: segment_blocks_def frame_blocks_def sock_blocks_def sock_pointer_def option_list_blocks_def
        sample_parsed_def sample_option_def parsed_blocks_def add_mset_commute)
  moreover have "owns (memory_of parsed_blocks []) (mset parsed_blocks)"
    by (rule owns_memory_of) (simp_all add: parsed_blocks_def)
  moreover have "queue_inv (wm_output sample_worker_mem)" "q_list (wm_output sample_worker_mem) = []"
    "q_capacity (wm_output sample_worker_mem) = 1"
    by (simp_all add: sample_worker_mem_def queue_inv_def ring_ok_def q_used_def ring_used_def q_list_def q_capacity_def)
  ultimately show "stands_for sample_worker_mem (sample_run sample_sent) (empty_table 1) []
      (segment_blocks sample_parsed + {#})"
    using ok(4-6) by (simp add: stands_for_def q_capacity_def)
      (simp add: sample_worker_mem_def sample_worker_def)
  show "values_ok (sample_run sample_sent)" using ok(1) by (simp add: worker_ok_def values_ok_def)
  show "parsed_ok sample_parsed"
    by (simp add: parsed_ok_def segment_ok_def seg_of_def sample_parsed_def received_def sample_sent_def
        sample_option_def option_read_def)
  show "sg_addr sample_parsed = 2" by (simp add: sample_parsed_def)
qed

theorem handle_segment_memory_witness:
  "\<exists>w' v'. handle_segment_mem 0 sample_worker_mem 2 = Some (Inr (None, w')) \<and>
    handle_segment 0 (sample_run sample_sent) (seg_of sample_parsed) [] = Some (Inr (None, v', [])) \<and> values_ok v'"
  using handle_segment_memory[OF sample_parsed_ok(1-3), of 0] unfolding sample_parsed_ok(4) by blast


end
