(* ===== verification/Queue_Threads.thy ===== *)
theory Queue_Threads
  imports Queue
begin

text \<open>
  The queue under concurrency: any number of operations of \<^verbatim>\<open>src/unyte_udp_queue.c\<close> in flight
  at once. An operation is a thread with a program counter. It waits on its semaphore, runs its
  section under the mutex, which excludes every other section, and posts a semaphore after
  the mutex was released; between these three steps every interleaving is possible. A thread
  that loops over an operation is a sequence of such operations, so the runs here include
  those of the program.

  Two lists record what happened, in the order of the sections: the handles that were put into
  the ring, and the handles that left it, by a read or by a destructive write.
\<close>

section \<open>Threads and steps\<close>

datatype 'a op_pc =
    Reading
  | Read_Section
  | Read_Post "'a option" semaphore
  | Read_Done "'a option"
  | Writing bool "'a option"
  | Write_Section bool "'a option"
  | Write_Post int semaphore
  | Write_Done int

record 'a queue_run =
  run_queue :: "'a unyte_udp_queue"
  run_threads :: "'a op_pc list"
  run_in :: "'a option list"
  run_out :: "'a option list"

definition write_by :: "bool \<Rightarrow> 'a unyte_udp_queue \<Rightarrow> 'a option \<Rightarrow>
    fault + (int \<times> semaphore \<times> 'a unyte_udp_queue)" where
  "write_by destructive q x = (if destructive then destructive_section q x else write_section q x)"

inductive queue_step :: "'a queue_run \<Rightarrow> 'a queue_run \<Rightarrow> bool" where
  read_wait: "i < length (run_threads st) \<Longrightarrow> run_threads st ! i = Reading \<Longrightarrow>
    sem_wait Sem_Full (run_queue st) = Some q \<Longrightarrow>
    queue_step st (st\<lparr>run_queue := q, run_threads := (run_threads st)[i := Read_Section]\<rparr>)"
| read_section: "i < length (run_threads st) \<Longrightarrow> run_threads st ! i = Read_Section \<Longrightarrow>
    read_section (run_queue st) = Inr (x, s, q) \<Longrightarrow>
    queue_step st (st\<lparr>run_queue := q, run_threads := (run_threads st)[i := Read_Post x s],
      run_out := run_out st @ (if s = Sem_Empty then [x] else [])\<rparr>)"
| read_post: "i < length (run_threads st) \<Longrightarrow> run_threads st ! i = Read_Post x s \<Longrightarrow>
    queue_step st (st\<lparr>run_queue := sem_post s (run_queue st),
      run_threads := (run_threads st)[i := Read_Done x]\<rparr>)"
| write_wait: "i < length (run_threads st) \<Longrightarrow> run_threads st ! i = Writing d x \<Longrightarrow>
    sem_wait Sem_Empty (run_queue st) = Some q \<Longrightarrow>
    queue_step st (st\<lparr>run_queue := q, run_threads := (run_threads st)[i := Write_Section d x]\<rparr>)"
| write_section: "i < length (run_threads st) \<Longrightarrow> run_threads st ! i = Write_Section d x \<Longrightarrow>
    write_by d (run_queue st) x = Inr (r, s, q) \<Longrightarrow>
    queue_step st (st\<lparr>run_queue := q, run_threads := (run_threads st)[i := Write_Post r s],
      run_in := run_in st @ (if r = -1 then [] else [x]),
      run_out := run_out st @ (if r = 1 then [hd (q_list (run_queue st))] else [])\<rparr>)"
| write_post: "i < length (run_threads st) \<Longrightarrow> run_threads st ! i = Write_Post r s \<Longrightarrow>
    queue_step st (st\<lparr>run_queue := sem_post s (run_queue st),
      run_threads := (run_threads st)[i := Write_Done r]\<rparr>)"

inductive queue_runs :: "'a queue_run \<Rightarrow> 'a queue_run \<Rightarrow> bool" for start where
  start: "queue_runs start start"
| step: "queue_runs start st \<Longrightarrow> queue_step st st' \<Longrightarrow> queue_runs start st'"

fun at_start :: "'a op_pc \<Rightarrow> bool" where
  "at_start Reading = True"
| "at_start (Writing _ _) = True"
| "at_start _ = False"

text \<open>A new queue of \<open>n\<close> slots and operations that have not begun.\<close>

definition initial_run :: "nat \<Rightarrow> 'a op_pc list \<Rightarrow> 'a queue_run" where
  "initial_run n ops = \<lparr>run_queue = the (fst (unyte_udp_queue_init n [])), run_threads = ops,
     run_in = [], run_out = []\<rparr>"

section \<open>The invariant\<close>

text \<open>
  Units of the semaphores that threads hold: a reader between its wait and its section, and a
  writer that has not posted yet, hold one of \<^verbatim>\<open>full\<close>; the other way round for \<^verbatim>\<open>empty\<close>.
\<close>

fun holds :: "semaphore \<Rightarrow> 'a op_pc \<Rightarrow> nat" where
  "holds s Read_Section = (if s = Sem_Full then 1 else 0)"
| "holds s (Write_Section _ _) = (if s = Sem_Empty then 1 else 0)"
| "holds s (Read_Post _ s') = (if s = s' then 1 else 0)"
| "holds s (Write_Post _ s') = (if s = s' then 1 else 0)"
| "holds s _ = 0"

definition held :: "semaphore \<Rightarrow> 'a op_pc list \<Rightarrow> nat" where
  "held s ts = sum_list (map (holds s) ts)"

definition run_inv :: "'a queue_run \<Rightarrow> bool" where
  "run_inv st \<longleftrightarrow> ring_ok (run_queue st) \<and> 2 \<le> q_size (run_queue st) \<and>
     q_full (run_queue st) + held Sem_Full (run_threads st) = q_used (run_queue st) \<and>
     q_empty (run_queue st) + held Sem_Empty (run_threads st) + q_used (run_queue st) = q_size (run_queue st) \<and>
     run_in st = run_out st @ q_list (run_queue st)"

lemma held_update:
  assumes "i < length ts"
  shows "held s (ts[i := p]) + holds s (ts ! i) = held s ts + holds s p"
proof -
  have "sum_list (map (holds s) ts) = sum_list (map (holds s) (take i ts @ ts ! i # drop (Suc i) ts))"
    using assms by (simp add: id_take_nth_drop[symmetric])
  moreover have "ts[i := p] = take i ts @ p # drop (Suc i) ts"
    using assms by (simp add: upd_conv_take_nth_drop)
  ultimately show ?thesis by (simp add: held_def)
qed

lemma holds_le_held: "i < length ts \<Longrightarrow> holds s (ts ! i) \<le> held s ts"
  unfolding held_def by (rule member_le_sum_list) simp_all

lemma sems_of_sections:
  "sem_wait s q = Some q' \<Longrightarrow> ring_ok q' = ring_ok q \<and> q_list q' = q_list q \<and> q_used q' = q_used q \<and>
    q_size q' = q_size q"
  "ring_ok (sem_post s q) = ring_ok q" "q_list (sem_post s q) = q_list q"
  "q_used (sem_post s q) = q_used q" "q_size (sem_post s q) = q_size q"
  by (auto simp: sem_wait_def sem_post_def split: semaphore.splits if_splits)

lemma write_by_run:
  assumes "ring_ok q" "2 \<le> q_size q"
  shows "\<exists>r s q'. write_by d q x = Inr (r, s, q') \<and> ring_ok q' \<and> q_size q' = q_size q \<and>
    q_full q' = q_full q \<and> q_empty q' = q_empty q \<and>
    (if q_used q < q_capacity q then r = 0 \<and> s = Sem_Full \<and> q_list q' = q_list q @ [x]
     else if d then r = 1 \<and> s = Sem_Empty \<and> q_list q' = tl (q_list q) @ [x]
     else r = -1 \<and> s = Sem_Empty \<and> q' = q)"
proof (cases "q_used q < q_capacity q")
  case True
  obtain q' where "put_head q x = Inr q'" "ring_ok q'" "q_list q' = q_list q @ [x]"
    "q_size q' = q_size q" "q_full q' = q_full q" "q_empty q' = q_empty q"
    by (rule put_head_room[OF assms(1) True])
  then show ?thesis
    using True write_section_room[OF assms(1) True, of x] by (simp add: write_by_def)
next
  case False
  then have full: "q_used q = q_capacity q" using used_le_capacity[OF assms(1)] by simp
  obtain q' where "destructive_section q x = Inr (1, Sem_Empty, q')" "ring_ok q'"
    "q_list q' = tl (q_list q) @ [x]"
    "q_size q' = q_size q" "q_full q' = q_full q" "q_empty q' = q_empty q"
    by (rule destructive_section_full[OF assms(1) full assms(2)])
  then show ?thesis
    using False write_section_full[OF assms(1) full, of x] assms(1) by (cases d) (simp_all add: write_by_def)
qed

lemma read_section_run:
  assumes "run_inv st" "i < length (run_threads st)" "run_threads st ! i = Read_Section"
  obtains x xs q where "q_list (run_queue st) = x # xs" "read_section (run_queue st) = Inr (x, Sem_Empty, q)"
    "ring_ok q" "q_list q = xs" "q_size q = q_size (run_queue st)"
    "q_full q = q_full (run_queue st)" "q_empty q = q_empty (run_queue st)"
proof -
  have "0 < q_used (run_queue st)"
    using assms holds_le_held[OF assms(2), of Sem_Full] by (simp add: run_inv_def)
  then obtain x xs where l: "q_list (run_queue st) = x # xs"
    by (metis length_q_list list.size(3) neq_Nil_conv not_less_zero)
  have ok: "ring_ok (run_queue st)" using assms(1) by (simp add: run_inv_def)
  obtain q where "read_section (run_queue st) = Inr (x, Sem_Empty, q)"
    "ring_ok q" "q_list q = xs" "q_size q = q_size (run_queue st)"
    "q_full q = q_full (run_queue st)" "q_empty q = q_empty (run_queue st)"
    by (rule read_section_nonempty[OF ok l])
  with that l show thesis by blast
qed

lemma run_inv_read:
  assumes i: "i < length (run_threads st)" "run_threads st ! i = Read_Section"
    and read: "read_section (run_queue st) = Inr (x, s, q)" and inv: "run_inv st"
  shows "run_inv (st\<lparr>run_queue := q, run_threads := (run_threads st)[i := Read_Post x s],
    run_out := run_out st @ (if s = Sem_Empty then [x] else [])\<rparr>)"
proof -
  obtain y ys q' where r: "q_list (run_queue st) = y # ys" "read_section (run_queue st) = Inr (y, Sem_Empty, q')"
    "ring_ok q'" "q_list q' = ys" "q_size q' = q_size (run_queue st)"
    "q_full q' = q_full (run_queue st)" "q_empty q' = q_empty (run_queue st)"
    by (rule read_section_run[OF inv i])
  have eq: "x = y" "s = Sem_Empty" "q = q'" using read r(2) by simp_all
  have "q_used (run_queue st) = Suc (q_used q')"
    using r(1,4) length_q_list[of "run_queue st"] length_q_list[of q'] by simp
  then show ?thesis
    using i(2) inv r eq held_update[OF i(1), of Sem_Full "Read_Post y Sem_Empty"]
      held_update[OF i(1), of Sem_Empty "Read_Post y Sem_Empty"]
    by (simp add: run_inv_def)
qed

lemma run_inv_write:
  assumes i: "i < length (run_threads st)" "run_threads st ! i = Write_Section d x"
    and wr: "write_by d (run_queue st) x = Inr (r, s, q)" and inv: "run_inv st"
  shows "run_inv (st\<lparr>run_queue := q, run_threads := (run_threads st)[i := Write_Post r s],
    run_in := run_in st @ (if r = -1 then [] else [x]),
    run_out := run_out st @ (if r = 1 then [hd (q_list (run_queue st))] else [])\<rparr>)"
proof -
  let ?q = "run_queue st"
  have ok: "ring_ok ?q" "2 \<le> q_size ?q" using inv by (simp_all add: run_inv_def)
  have w: "ring_ok q" "q_size q = q_size ?q" "q_full q = q_full ?q" "q_empty q = q_empty ?q"
    "if q_used ?q < q_capacity ?q then r = 0 \<and> s = Sem_Full \<and> q_list q = q_list ?q @ [x]
     else if d then r = 1 \<and> s = Sem_Empty \<and> q_list q = tl (q_list ?q) @ [x]
     else r = -1 \<and> s = Sem_Empty \<and> q = ?q"
    using write_by_run[OF ok, of d x] wr by auto
  note h = i(2) inv w(1-4) held_update[OF i(1), of Sem_Full "Write_Post r s"] held_update[OF i(1), of Sem_Empty "Write_Post r s"]
  consider (room) "r = 0" "s = Sem_Full" "q_list q = q_list ?q @ [x]"
    | (dropped) "r = 1" "s = Sem_Empty" "q_list q = tl (q_list ?q) @ [x]" "0 < q_used ?q"
    | (refused) "r = -1" "s = Sem_Empty" "q = ?q"
    using w(5) ok(2) by (auto simp: q_capacity_def split: if_splits)
  then show ?thesis
  proof cases
    case room
    then have "q_used q = Suc (q_used ?q)" using length_q_list[of q] by simp
    with h room show ?thesis by (simp add: run_inv_def)
  next
    case dropped
    then have ne: "q_list ?q \<noteq> []" by (metis length_q_list list.size(3) less_irrefl)
    have "q_used q = q_used ?q" using dropped(3,4) length_q_list[of q] by simp
    moreover have "hd (q_list ?q) # tl (q_list ?q) = q_list ?q" using ne by simp
    ultimately show ?thesis using h dropped by (simp add: run_inv_def)
  next
    case refused
    with h show ?thesis by (simp add: run_inv_def)
  qed
qed

lemma run_inv_step:
  assumes "queue_step st st'" "run_inv st"
  shows "run_inv st'"
  using assms
proof (induction rule: queue_step.induct)
  case (read_wait i st q)
  then show ?case
    using held_update[OF read_wait(1), of Sem_Full Read_Section] held_update[OF read_wait(1), of Sem_Empty Read_Section]
      sems_of_sections(1)[OF read_wait(3)]
    by (auto simp: run_inv_def sem_wait_def split: if_splits)
next
  case (read_section i st x s q)
  then show ?case by (rule run_inv_read)
next
  case (read_post i st x s)
  then show ?case
    using held_update[OF read_post(1), of Sem_Full "Read_Done x"] held_update[OF read_post(1), of Sem_Empty "Read_Done x"]
    by (cases s) (simp_all add: run_inv_def sem_post_def)
next
  case (write_wait i st d x q)
  then show ?case
    using held_update[OF write_wait(1), of Sem_Full "Write_Section d x"]
      held_update[OF write_wait(1), of Sem_Empty "Write_Section d x"] sems_of_sections(1)[OF write_wait(3)]
    by (auto simp: run_inv_def sem_wait_def split: if_splits)
next
  case (write_section i st d x r s q)
  then show ?case by (rule run_inv_write)
next
  case (write_post i st r s)
  then show ?case
    using held_update[OF write_post(1), of Sem_Full "Write_Done r"] held_update[OF write_post(1), of Sem_Empty "Write_Done r"]
    by (cases s) (simp_all add: run_inv_def sem_post_def)
qed


lemma initial_run_inv:
  fixes ops :: "'a op_pc list"
  assumes "2 \<le> n" "list_all at_start ops"
  shows "run_inv (initial_run n ops)" "q_size (run_queue (initial_run n ops)) = n"
proof -
  obtain q :: "'a unyte_udp_queue" where q: "unyte_udp_queue_init n [] = (Some q, [])" "queue_inv q" "q_list q = []" "q_size q = n"
    using queue_inv_init[of n] assms(1) by auto
  have "holds s p = 0" if "at_start p" for s and p :: "'a op_pc" using that by (cases p) simp_all
  then have "held s ops = 0" for s
    using assms(2) by (simp add: held_def list_all_iff)
  moreover have "q_used q = 0" using q(3) length_q_list[of q] by simp
  ultimately show "run_inv (initial_run n ops)"
    using q assms(1) by (simp add: run_inv_def initial_run_def queue_inv_def)
  show "q_size (run_queue (initial_run n ops)) = n" using q by (simp add: initial_run_def)
qed

lemma queue_runs_inv:
  "queue_runs start st \<Longrightarrow> run_inv start \<Longrightarrow> run_inv st"
  by (induction rule: queue_runs.induct) (auto dest: run_inv_step)

lemma queue_step_size:
  assumes "queue_step st st'" "run_inv st"
  shows "q_size (run_queue st') = q_size (run_queue st)"
  using assms
proof (induction rule: queue_step.induct)
  case (read_section i st x s q)
  then show ?case by (metis read_section_run prod.inject queue_run.select_convs(1) queue_run.surjective
      queue_run.update_convs(1,2,4) sum.inject(2))
next
  case (write_section i st d x r s q)
  then show ?case using write_by_run[of "run_queue st" d x] by (auto simp: run_inv_def)
qed (auto simp: sems_of_sections)

lemma queue_runs_size:
  assumes "queue_runs start st" "run_inv start"
  shows "q_size (run_queue st) = q_size (run_queue start)"
  using assms by (induction rule: queue_runs.induct) (simp_all add: queue_step_size queue_runs_inv)

section \<open>Properties\<close>

text \<open>
  C30. FIFO order and safety under concurrency. With any number of reads, writes and destructive
  writes in flight on one queue of at least two slots, in every reachable state the handles that
  were put in are those that left, in the same order, followed by those the ring holds, fewer than
  it has slots. Every operation that got past its semaphore can run its section without a
  fault: a read finds the oldest handle there and never returns an error for an empty queue.
\<close>

theorem queue_threads_fifo:
  assumes "2 \<le> n" and "list_all at_start ops" and "queue_runs (initial_run n ops) st"
  shows "run_in st = run_out st @ q_list (run_queue st) \<and> length (q_list (run_queue st)) < n \<and>
    (Read_Section \<in> set (run_threads st) \<longrightarrow>
      (\<exists>x xs q. q_list (run_queue st) = x # xs \<and> read_section (run_queue st) = Inr (x, Sem_Empty, q))) \<and>
    (\<forall>d x. Write_Section d x \<in> set (run_threads st) \<longrightarrow> (\<exists>r. write_by d (run_queue st) x = Inr r))"
proof -
  have inv: "run_inv st" and ini: "run_inv (initial_run n ops)"
    using queue_runs_inv[OF assms(3)] initial_run_inv[OF assms(1,2)] by blast+
  have "q_size (run_queue st) = n"
    using queue_runs_size[OF assms(3) ini] initial_run_inv(2)[OF assms(1,2)] by simp
  moreover have "\<exists>x xs q. q_list (run_queue st) = x # xs \<and> read_section (run_queue st) = Inr (x, Sem_Empty, q)"
    if "Read_Section \<in> set (run_threads st)"
    using that read_section_run[OF inv] by (metis in_set_conv_nth)
  moreover have "\<exists>r. write_by d (run_queue st) x = Inr r" for d x
    using write_by_run[of "run_queue st" d x] inv by (auto simp: run_inv_def)
  ultimately show ?thesis
    using inv ring_ok_used_less[of "run_queue st"] by (simp add: run_inv_def)
qed

fun op_work :: "'a op_pc \<Rightarrow> nat" where
  "op_work Reading = 3" | "op_work (Writing _ _) = 3"
| "op_work Read_Section = 2" | "op_work (Write_Section _ _) = 2"
| "op_work (Read_Post _ _) = 1" | "op_work (Write_Post _ _) = 1"
| "op_work (Read_Done _) = 0" | "op_work (Write_Done _) = 0"

definition run_work :: "'a queue_run \<Rightarrow> nat" where
  "run_work st = sum_list (map op_work (run_threads st))"

lemma work_update:
  assumes "i < length ts" "op_work p < op_work (ts ! i)"
  shows "sum_list (map op_work (ts[i := p])) < sum_list (map op_work ts)"
proof -
  have "sum_list (map op_work ts) = sum_list (map op_work (take i ts @ ts ! i # drop (Suc i) ts))"
    using assms(1) by (simp add: id_take_nth_drop[symmetric])
  then show ?thesis using assms by (simp add: upd_conv_take_nth_drop)
qed

lemma queue_step_work: "queue_step st st' \<Longrightarrow> run_work st' < run_work st"
  by (induction rule: queue_step.induct) (simp_all add: run_work_def work_update)

lemma stuck_threads:
  assumes "run_inv st" "\<And>st'. \<not> queue_step st st'" "p \<in> set (run_threads st)"
  shows "p = Reading \<or> op_work p = 0 \<or> (\<exists>d x. p = Writing d x)"
proof -
  obtain i where i: "i < length (run_threads st)" "run_threads st ! i = p"
    using assms(3) by (auto simp: in_set_conv_nth)
  show ?thesis
  proof (cases p)
    case Read_Section
    then show ?thesis
      using read_section_run[OF assms(1) i(1)] i queue_step.read_section[OF i(1)] assms(2) by metis
  next
    case (Write_Section d x)
    obtain r s q where "write_by d (run_queue st) x = Inr (r, s, q)"
      using write_by_run[of "run_queue st" d x] assms(1) by (auto simp: run_inv_def)
    with queue_step.write_section[OF i(1)] i(2) Write_Section assms(2) show ?thesis by blast
  next
    case (Read_Post x s)
    with queue_step.read_post[OF i(1)] i(2) assms(2) show ?thesis by blast
  next
    case (Write_Post r s)
    with queue_step.write_post[OF i(1)] i(2) assms(2) show ?thesis by blast
  qed simp_all
qed

text \<open>
  C31. No operation is lost. Every step of the operations in flight brings them nearer to their
  end, so that they come to rest whatever the schedule is; and when none of them can move, every write
  has returned, and a read that has not is one that waits for the first handle of an empty
  queue. There is no deadlock.
\<close>

theorem queue_threads_come_to_rest:
  assumes "2 \<le> n" and "list_all at_start ops" and "queue_runs (initial_run n ops) st"
  shows "(\<forall>st'. queue_step st st' \<longrightarrow> run_work st' < run_work st) \<and>
    ((\<forall>st'. \<not> queue_step st st') \<longrightarrow>
      (\<forall>p\<in>set (run_threads st). op_work p = 0 \<or> p = Reading \<and> q_list (run_queue st) = []))"
proof (intro conjI allI impI ballI)
  show "run_work st' < run_work st" if "queue_step st st'" for st'
    using that by (rule queue_step_work)
next
  fix p
  assume stuck: "\<forall>st'. \<not> queue_step st st'" and p: "p \<in> set (run_threads st)"
  let ?q = "run_queue st"
  have inv: "run_inv st" using queue_runs_inv[OF assms(3)] initial_run_inv[OF assms(1,2)] by blast
  note ends = stuck_threads[OF inv, OF stuck[rule_format]]
  have "holds s t = 0" if "t \<in> set (run_threads st)" for s t
    using ends[OF that] by (cases t) auto
  then have held: "held s (run_threads st) = 0" for s by (simp add: held_def)
  obtain i where i: "i < length (run_threads st)" "run_threads st ! i = p"
    using p by (auto simp: in_set_conv_nth)
  have "q_empty ?q \<noteq> 0" "q_full ?q = q_used ?q"
    using inv held ring_ok_used_less[of ?q] by (auto simp: run_inv_def)
  then have w: "p \<noteq> Writing d x" for d x
    using queue_step.write_wait[OF i(1), of d x] i(2) stuck by (auto simp: sem_wait_def)
  have "q_list ?q = []" if "p = Reading"
  proof (rule ccontr)
    assume "q_list ?q \<noteq> []"
    then have "q_full ?q \<noteq> 0" using \<open>q_full ?q = q_used ?q\<close> length_q_list[of ?q] by (metis length_0_conv)
    then show False
      using queue_step.read_wait[OF i(1)] i(2) that stuck by (auto simp: sem_wait_def)
  qed
  with ends[OF p] w show "op_work p = 0 \<or> p = Reading \<and> q_list ?q = []" by blast
qed


text \<open>A read and a write on a queue of two slots: the write has returned, the read is past its wait.\<close>

definition sample_ops :: "nat op_pc list" where
  "sample_ops = [Reading, Writing False (Some 7)]"

definition sample_queue_run :: "nat queue_run" where
  "sample_queue_run =
     \<lparr>run_queue = \<lparr>q_head = 1, q_tail = 0, q_size = 2, q_empty = 1, q_full = 0,
        q_data = [Stored (Some 7), Uninit]\<rparr>,
      run_threads = [Read_Section, Write_Done 0], run_in = [Some 7], run_out = []\<rparr>"

lemma sample_queue_runs: "queue_runs (initial_run 2 sample_ops) sample_queue_run"
proof -
  let ?q = "\<lparr>q_head = 0, q_tail = 0, q_size = 2, q_empty = 1, q_full = 0, q_data = [Uninit, Uninit]\<rparr>
    :: nat unyte_udp_queue"
  let ?r = "run_queue sample_queue_run"
  let ?st = "\<lambda>q ts w. \<lparr>run_queue = q, run_threads = ts, run_in = w, run_out = []\<rparr> :: nat queue_run"
  have init: "initial_run 2 sample_ops = ?st (?q\<lparr>q_empty := 2\<rparr>) [Reading, Writing False (Some 7)] []"
    by (simp add: initial_run_def unyte_udp_queue_init_def sample_ops_def numeral_2_eq_2)
  have "queue_step (?st (?q\<lparr>q_empty := 2\<rparr>) [Reading, Writing False (Some 7)] [])
      (?st ?q [Reading, Write_Section False (Some 7)] [])"
    using queue_step.write_wait[of 1 "?st (?q\<lparr>q_empty := 2\<rparr>) [Reading, Writing False (Some 7)] []" False "Some 7" ?q]
    by (simp add: sem_wait_def)
  moreover have "queue_step (?st ?q [Reading, Write_Section False (Some 7)] [])
      (?st ?r [Reading, Write_Post 0 Sem_Full] [Some 7])"
    using queue_step.write_section[of 1 "?st ?q [Reading, Write_Section False (Some 7)] []" False "Some 7" 0 Sem_Full ?r]
    by (simp add: write_by_def queue_op_defs sample_queue_run_def numeral_2_eq_2)
  moreover have "queue_step (?st ?r [Reading, Write_Post 0 Sem_Full] [Some 7])
      (?st (?r\<lparr>q_full := 1\<rparr>) [Reading, Write_Done 0] [Some 7])"
    using queue_step.write_post[of 1 "?st ?r [Reading, Write_Post 0 Sem_Full] [Some 7]" 0 Sem_Full]
    by (simp add: sem_post_def sample_queue_run_def)
  moreover have "queue_step (?st (?r\<lparr>q_full := 1\<rparr>) [Reading, Write_Done 0] [Some 7]) sample_queue_run"
    using queue_step.read_wait[of 0 "?st (?r\<lparr>q_full := 1\<rparr>) [Reading, Write_Done 0] [Some 7]" ?r]
    by (simp add: sem_wait_def sample_queue_run_def)
  ultimately show ?thesis unfolding init by (meson queue_runs.intros)
qed

theorem queue_threads_fifo_witness:
  "queue_runs (initial_run 2 sample_ops) sample_queue_run \<and>
   (\<exists>q. read_section (run_queue sample_queue_run) = Inr (Some 7, Sem_Empty, q)) \<and>
   q_list (run_queue sample_queue_run) = [Some 7]"
proof -
  have "list_all at_start sample_ops" by (simp add: sample_ops_def)
  note fifo = queue_threads_fifo[OF _ this sample_queue_runs]
  moreover have "Read_Section \<in> set (run_threads sample_queue_run)" "run_in sample_queue_run = [Some 7]"
    "run_out sample_queue_run = []"
    by (simp_all add: sample_queue_run_def)
  ultimately show ?thesis using sample_queue_runs by auto
qed

theorem queue_threads_come_to_rest_witness:
  "queue_runs (initial_run 2 sample_ops) sample_queue_run \<and> run_work sample_queue_run = 2 \<and>
   (\<exists>st'. queue_step sample_queue_run st' \<and> run_work st' < 2)"
proof -
  have "list_all at_start sample_ops" by (simp add: sample_ops_def)
  note rest = queue_threads_come_to_rest[OF _ this sample_queue_runs]
  have w: "run_work sample_queue_run = 2" by (simp add: run_work_def sample_queue_run_def)
  have "\<exists>st'. queue_step sample_queue_run st'"
    using rest by (auto simp: sample_queue_run_def)
  with rest w sample_queue_runs show ?thesis by auto
qed

end
