(* ===== verification/Listener.thy ===== *)
theory Listener
  imports Parser
begin

text \<open>
  The listening worker of \<^verbatim>\<open>src/listening_worker.c\<close>: it creates the parsing workers and the
  monitoring thread, receives datagrams in batches and dispatches them to the workers by their
  observation domain.

  The system's part is an argument: the identifiers of the threads, and what \<^verbatim>\<open>recvmmsg\<close> left
  in the message headers (\<open>None\<close> when it failed). A received datagram is in a buffer of 65535 bytes of
  which it fills the first ones. The output queue is shared by all workers; the copies in
  their input structures are refreshed from it when a worker takes a step.
\<close>

section \<open>Data\<close>

abbreviation CLEANUP_FLAG_CRON :: int where "CLEANUP_FLAG_CRON \<equiv> 1000"
abbreviation AF_INET :: u16 where "AF_INET \<equiv> 2"
abbreviation AF_INET6 :: u16 where "AF_INET6 \<equiv> 10"

record unyte_udp_sock =
  sock_addr :: sockaddr_storage
  sock_fd :: int

record listener_thread_input =
  l_output_queue :: "unyte_seg_met unyte_udp_queue"
  l_monitoring_queue :: "sum_counter unyte_udp_queue"
  l_conn :: unyte_udp_sock
  l_recvmmsg_vlen :: u16
  l_nb_parsers :: u32
  l_parser_queue_size :: nat
  l_monitoring_delay :: u32
  l_msg_dst_ip :: bool
  l_legacy_proto :: bool

record cleanup_thread_input =
  ct_time :: int
  ct_stop :: bool

record parse_worker =
  pw_input :: parser_thread_input
  pw_cleanup :: cleanup_thread_input

record monitoring_worker =
  mw_running :: bool
  mw_delay :: u32
  mw_stop :: bool

record listener_state =
  ls_output :: "unyte_seg_met unyte_udp_queue"
  ls_monitoring_queue :: "sum_counter unyte_udp_queue"
  ls_parsers :: "parse_worker list"
  ls_monitoring :: monitoring_worker
  ls_counters :: seg_counters

datatype cmsg =
    In_Pktinfo bytes
  | In6_Pktinfo bytes
  | Other_Cmsg

record mmsghdr =
  mm_len :: nat
  mm_buffer :: bytes
  mm_name :: "sockaddr_storage option"
  mm_control :: "cmsg list"

section \<open>Creating the workers\<close>

definition create_cleanup_thread :: "allocs \<Rightarrow> cleanup_thread_input option \<times> allocs" where
  "create_cleanup_thread as =
     (let (ok, as1) = mallocs 3 as in
      (if ok then Some \<lparr>ct_time = CLEANUP_FLAG_CRON, ct_stop = False\<rparr> else None, as1))"

text \<open>
  \<open>self\<close> is the identifier of the new thread, which stores it before it parses anything. Setting the
  activity of the index entries to 0 touches entries that are not in use.
\<close>

definition create_parse_worker ::
  "listener_thread_input \<Rightarrow> seg_counters \<Rightarrow> bool \<Rightarrow> nat \<Rightarrow> allocs \<Rightarrow> parse_worker option \<times> allocs" where
  "create_parse_worker inp counters monitoring_running self as =
     (let (q, as1) = unyte_udp_queue_init (l_parser_queue_size inp) as in
      case q of
        None \<Rightarrow> (None, as1)
      | Some queue \<Rightarrow>
          (let (ok, as2) = mallocs 2 as1 in
           if \<not> ok then (None, as2)
           else
             (let (buf, as3) = create_segment_buffer as2 in
              case buf of
                None \<Rightarrow> (None, as3)
              | Some segment_buff \<Rightarrow>
                  (let input = t_parser self
                         \<lparr>parser_thread_id = 0, p_input = queue, p_output = l_output_queue inp,
                          p_segment_buff = segment_buff, p_counters = counters\<lparr>sc_type := Some PARSER_WORKER\<rparr>,
                          p_monitoring_running = monitoring_running, p_legacy_proto = l_legacy_proto inp,
                          p_max_malloc_errs = 3\<rparr>;
                       (c, as4) = create_cleanup_thread as3 in
                   (map_option (\<lambda>cl. \<lparr>pw_input = input, pw_cleanup = cl\<rparr>) c, as4)))))"

definition create_monitoring_thread ::
  "sum_counter unyte_udp_queue \<Rightarrow> u32 \<Rightarrow> allocs \<Rightarrow> monitoring_worker option \<times> allocs" where
  "create_monitoring_thread out_mnt_queue delay as =
     (let (ok, as1) = mallocs 2 as in
      if \<not> ok then (None, as1)
      else (Some \<lparr>mw_running = (q_size out_mnt_queue \<noteq> 0), mw_delay = delay, mw_stop = False\<rparr>, as1))"

fun create_parse_workers ::
  "listener_thread_input \<Rightarrow> bool \<Rightarrow> (seg_counters \<times> nat) list \<Rightarrow> allocs \<Rightarrow> parse_worker list option \<times> allocs"
where
  "create_parse_workers inp running [] as = (Some [], as)"
| "create_parse_workers inp running ((c, self) # cs) as =
     (let (w, as1) = create_parse_worker inp c running self as in
      case w of
        None \<Rightarrow> (None, as1)
      | Some p \<Rightarrow>
          (let (ps, as2) = create_parse_workers inp running cs as1 in (map_option (Cons p) ps, as2)))"

text \<open>
  The first part of \<^verbatim>\<open>listener\<close>, up to the loop. \<open>Inr None\<close> is an early return of a negative value.
  The allocations of the message headers are not checked and are written through at once.
  \<open>selves\<close> are the identifiers of the parsing threads and \<open>self\<close> that of the listener.
\<close>

definition listener_start ::
  "listener_thread_input \<Rightarrow> nat list \<Rightarrow> nat \<Rightarrow> allocs \<Rightarrow> fault + (listener_state option \<times> allocs)" where
  "listener_start inp selves self as =
     (let (ok, as1) = mallocs 2 as in
      if \<not> ok then Inr (None, as1)
      else
        (let nb = unat (l_nb_parsers inp);
             (cs, as2) = unyte_udp_init_counters (unat (l_nb_parsers inp + 1)) as1 in
         case cs of
           None \<Rightarrow> Inr (None, as2)
         | Some counters \<Rightarrow>
             (let (mw, as3) = create_monitoring_thread (l_monitoring_queue inp) (l_monitoring_delay inp) as2 in
              case mw of
                None \<Rightarrow> Inr (None, as3)
              | Some monitoring \<Rightarrow>
                  (let (ps, as4) = create_parse_workers inp (mw_running monitoring)
                         (zip (take nb counters) selves) as3 in
                   case ps of
                     None \<Rightarrow> Inr (None, as4)
                   | Some parsers \<Rightarrow>
                       (let (ok5, as5) = malloc as4 in
                        if \<not> ok5 then Inr (None, as5)
                        else
                          (let (ok6, as6) = mallocs ((if l_msg_dst_ip inp then 2 else 1) *
                                 unat (l_recvmmsg_vlen inp)) as5 in
                           if \<not> ok6 then Inl Null_Deref
                           else if nb < length counters then
                             Inr (Some \<lparr>ls_output = l_output_queue inp, ls_monitoring_queue = l_monitoring_queue inp,
                                    ls_parsers = parsers, ls_monitoring = monitoring,
                                    ls_counters = (counters ! nb)\<lparr>thread_id := self,
                                      sc_type := Some LISTENER_WORKER\<rparr>\<rparr>, as6)
                           else Inl Out_Of_Bounds))))))"

section \<open>Dispatching\<close>

text \<open>The control headers up to the first one with a destination address.\<close>

fun dest_of_cmsgs :: "sockaddr_storage \<Rightarrow> cmsg list \<Rightarrow> sockaddr_storage" where
  "dest_of_cmsgs sk [] = \<lparr>ss_family = 0, ss_port = 0, ss_addr = []\<rparr>"
| "dest_of_cmsgs sk (c # cs) =
     (case c of
        In_Pktinfo a \<Rightarrow> \<lparr>ss_family = AF_INET, ss_port = ss_port sk, ss_addr = a\<rparr>
      | In6_Pktinfo a \<Rightarrow> \<lparr>ss_family = AF_INET6, ss_port = ss_port sk, ss_addr = a\<rparr>
      | Other_Cmsg \<Rightarrow> dest_of_cmsgs sk cs)"

definition get_dest_addr ::
  "cmsg list \<Rightarrow> unyte_udp_sock \<Rightarrow> allocs \<Rightarrow> sockaddr_storage option \<times> allocs" where
  "get_dest_addr control sock as =
     (let (ok, as1) = malloc as in
      (if ok then Some (dest_of_cmsgs (sock_addr sock) control) else None, as1))"

definition set_parser_queue :: "nat \<Rightarrow> unyte_min unyte_udp_queue \<Rightarrow> listener_state \<Rightarrow> listener_state" where
  "set_parser_queue i q st =
     st\<lparr>ls_parsers := (ls_parsers st)[i := (ls_parsers st ! i)
       \<lparr>pw_input := (pw_input (ls_parsers st ! i))\<lparr>p_input := q\<rparr>\<rparr>]\<rparr>"

text \<open>One received message. The first component of the result is the value \<^verbatim>\<open>listener\<close> returns.\<close>

definition dispatch_message ::
  "listener_thread_input \<Rightarrow> mmsghdr \<Rightarrow> listener_state \<Rightarrow> allocs \<Rightarrow>
    (fault + (int option \<times> listener_state \<times> allocs)) option" where
  "dispatch_message inp m st as =
     (if mm_len m > 0 then
        (let (dest_addr, as1) =
           (if l_msg_dst_ip inp then get_dest_addr (mm_control m) (l_conn inp) as else (None, as)) in
         bind_run (Some (minimal_parse (mm_buffer m) (mm_name m) dest_addr as1)) (\<lambda>(seg, as2).
         case seg of
           None \<Rightarrow> Some (Inr (Some (-1), st, as2))
         | Some um \<Rightarrow>
             (let seg_odid = um_observation_domain_id um; seg_mid = um_message_id um;
                  i = unat (seg_odid mod l_nb_parsers inp) in
              if l_nb_parsers inp = 0 then Some (Inl Div_By_Zero)
              else if \<not> i < length (ls_parsers st) then Some (Inl Out_Of_Bounds)
              else
                bind_run (unyte_udp_queue_write (p_input (pw_input (ls_parsers st ! i))) (Some um))
                  (\<lambda>(ret, q).
                let st1 = set_parser_queue i q st in
                if \<not> mw_running (ls_monitoring st1) then Some (Inr (None, st1, as2))
                else
                  bind_run (Some (if ret < 0
                      then unyte_udp_update_dropped_segment (ls_counters st1) seg_odid seg_mid as2
                      else unyte_udp_update_received_segment (ls_counters st1) seg_odid seg_mid as2))
                    (\<lambda>(c, as3). Some (Inr (None, st1\<lparr>ls_counters := c\<rparr>, as3)))))))
      else Some (Inr (None, st, as)))"

fun dispatch_messages ::
  "listener_thread_input \<Rightarrow> mmsghdr list \<Rightarrow> listener_state \<Rightarrow> allocs \<Rightarrow>
    (fault + (int option \<times> listener_state \<times> allocs)) option"
where
  "dispatch_messages inp [] st as = Some (Inr (None, st, as))"
| "dispatch_messages inp (m # ms) st as =
     bind_run (dispatch_message inp m st as) (\<lambda>(r, st1, as1).
     case r of None \<Rightarrow> dispatch_messages inp ms st1 as1 | Some v \<Rightarrow> Some (Inr (Some v, st1, as1)))"

section \<open>Stopping\<close>

definition stop_parsers_and_monitoring :: "listener_state \<Rightarrow> listener_state" where
  "stop_parsers_and_monitoring st =
     st\<lparr>ls_parsers := map (\<lambda>p. p\<lparr>pw_cleanup := (pw_cleanup p)\<lparr>ct_stop := True\<rparr>\<rparr>) (ls_parsers st),
        ls_monitoring := (ls_monitoring st)\<lparr>mw_stop := True\<rparr>\<rparr>"

text \<open>Freeing the workers clears their segmentation buffers; the result is how many messages each held.\<close>

fun free_parsers :: "parse_worker list \<Rightarrow> fault + int list" where
  "free_parsers [] = Inr []"
| "free_parsers (p # ps) =
     bind_fault (clear_buffer (p_segment_buff (pw_input p))) (\<lambda>(n, _).
     bind_fault (free_parsers ps) (\<lambda>ns. Inr (n # ns)))"

text \<open>
  The counter tables of all threads, those of the workers first. They are freed when the
  monitoring thread, if it runs, has ended.
\<close>

definition tables :: "listener_state \<Rightarrow> seg_counters list" where
  "tables st = map (\<lambda>p. p_counters (pw_input p)) (ls_parsers st) @ [ls_counters st]"

definition free_monitoring_worker :: "listener_state \<Rightarrow> odid_counter list list" where
  "free_monitoring_worker st = unyte_udp_free_seg_counters (tables st)"

text \<open>
  The body of the loop: what \<^verbatim>\<open>recvmmsg\<close> returned is dispatched; when it failed, the workers are
  stopped and freed, then the counter tables (\<open>free_monitoring_worker\<close>), and the listener returns -1.
\<close>

definition listener_round ::
  "listener_thread_input \<Rightarrow> mmsghdr list option \<Rightarrow> listener_state \<Rightarrow> allocs \<Rightarrow>
    (fault + (int option \<times> listener_state \<times> allocs)) option" where
  "listener_round inp messages st as =
     (case messages of
        None \<Rightarrow>
          (let st1 = stop_parsers_and_monitoring st in
           bind_run (Some (free_parsers (ls_parsers st1))) (\<lambda>_. Some (Inr (Some (-1), st1, as))))
      | Some ms \<Rightarrow> dispatch_messages inp ms st as)"

section \<open>The invariant of the listener\<close>

definition listener_ok :: "listener_thread_input \<Rightarrow> listener_state \<Rightarrow> bool" where
  "listener_ok inp st \<longleftrightarrow> 0 < l_nb_parsers inp \<and> length (ls_parsers st) = unat (l_nb_parsers inp) \<and>
     queue_inv (ls_output st) \<and> counters_ok (ls_counters st) \<and>
     list_all (\<lambda>p. worker_ok (pw_input p)) (ls_parsers st)"

text \<open>Workers that have not received anything.\<close>

definition idle :: "parse_worker \<Rightarrow> bool" where
  "idle p \<longleftrightarrow> q_list (p_input (pw_input p)) = [] \<and> p_segment_buff (pw_input p) = empty_buffer"

lemma counters_ok_fields [simp]:
  "counters_ok (c\<lparr>thread_id := n\<rparr>) = counters_ok c" "counters_ok (c\<lparr>sc_type := t\<rparr>) = counters_ok c"
  by (simp_all add: counters_ok_def chains_ok_def index_ok_def active_list_def counter_of_def bucket_of_def)

lemma init_counters_ok:
  "\<exists>cs. init_counters n [] = (Some cs, []) \<and> length cs = n \<and> list_all counters_ok cs"
proof (induction n)
  case (Suc n)
  let ?c = "fresh_counters\<lparr>active_odids := replicate ACTIVE_ODIDS None, active_odids_length := 0,
    active_odids_max_length := ACTIVE_ODIDS\<rparr>"
  have "counters_ok ?c"
    by (simp add: counters_ok_def chains_ok_def index_ok_def active_list_def counter_of_def bucket_of_def
        fresh_counters_def)
  with Suc show ?case
    by (auto simp: init_active_odid_index_def case_prod_beta Let_def)
qed simp

lemma create_parse_worker_ok:
  assumes "queue_inv (l_output_queue inp)" "0 < l_parser_queue_size inp" "counters_ok c"
  shows "\<exists>p. create_parse_worker inp c running self [] = (Some p, []) \<and> worker_ok (pw_input p) \<and> idle p \<and>
    parser_thread_id (pw_input p) = self \<and> p_monitoring_running (pw_input p) = running \<and>
    p_legacy_proto (pw_input p) = l_legacy_proto inp"
proof -
  obtain q :: "unyte_min unyte_udp_queue" where
    "unyte_udp_queue_init (l_parser_queue_size inp) [] = (Some q, [])" "queue_inv q" "q_list q = []"
    using queue_inv_init[OF assms(2)] by blast
  then show ?thesis
    using assms(1,3) empty_buffer_ok
    by (simp add: create_parse_worker_def create_empty_buffer create_cleanup_thread_def t_parser_def
        worker_ok_def idle_def)
qed

lemma create_parse_workers_ok:
  assumes "queue_inv (l_output_queue inp)" "0 < l_parser_queue_size inp" "list_all (\<lambda>(c, _). counters_ok c) cs"
  shows "\<exists>ps. create_parse_workers inp running cs [] = (Some ps, []) \<and> length ps = length cs \<and>
    list_all (\<lambda>p. worker_ok (pw_input p) \<and> idle p \<and> p_legacy_proto (pw_input p) = l_legacy_proto inp \<and>
      p_monitoring_running (pw_input p) = running) ps \<and>
    map (\<lambda>p. parser_thread_id (pw_input p)) ps = map snd cs"
  using assms(3)
proof (induction cs)
  case (Cons x cs)
  obtain c self where x: "x = (c, self)" by (cases x)
  obtain p where "create_parse_worker inp c running self [] = (Some p, [])" "worker_ok (pw_input p)" "idle p"
    "parser_thread_id (pw_input p) = self" "p_monitoring_running (pw_input p) = running"
    "p_legacy_proto (pw_input p) = l_legacy_proto inp"
    using create_parse_worker_ok[OF assms(1,2), of c running self] Cons.prems x by auto
  with Cons x show ?case by auto
qed simp

text \<open>
  Starting the listener. With at least one parser, queues of at least one slot and no failed
  allocation the listener starts without a fault: there is one worker for each of its threads, with an
  empty input queue and an empty segmentation buffer, all structures are well formed, and
  monitoring runs exactly when its queue has a size other than 0.
\<close>

lemma listener_start_run:
  assumes "0 < l_nb_parsers inp" and "unat (l_nb_parsers inp) + 1 < 4294967296"
    and "queue_inv (l_output_queue inp)" and "0 < l_parser_queue_size inp"
    and "length selves = unat (l_nb_parsers inp)"
  shows "\<exists>st. listener_start inp selves self [] = Inr (Some st, []) \<and> listener_ok inp st \<and>
    list_all idle (ls_parsers st) \<and>
    map (\<lambda>p. parser_thread_id (pw_input p)) (ls_parsers st) = selves \<and>
    ls_output st = l_output_queue inp \<and>
    (mw_running (ls_monitoring st) \<longleftrightarrow> q_size (l_monitoring_queue inp) \<noteq> 0) \<and>
    list_all (\<lambda>p. p_monitoring_running (pw_input p) = mw_running (ls_monitoring st)) (ls_parsers st) \<and>
    list_all (\<lambda>p. p_legacy_proto (pw_input p) = l_legacy_proto inp) (ls_parsers st) \<and>
    ls_monitoring_queue st = l_monitoring_queue inp"
proof -
  let ?nb = "unat (l_nb_parsers inp)"
  have nb1: "unat (l_nb_parsers inp + 1) = Suc ?nb" using assms(2) by (simp add: unat_word_ariths)
  obtain cs where cs: "init_counters (Suc ?nb) [] = (Some cs, [])" "length cs = Suc ?nb" "list_all counters_ok cs"
    using init_counters_ok by blast
  have "list_all (\<lambda>(c, _). counters_ok c) (zip (take ?nb cs) selves)"
    using cs(3) by (auto simp: list_all_iff dest!: set_zip_leftD in_set_takeD)
  moreover have z: "length (zip (take ?nb cs) selves) = ?nb" "map snd (zip (take ?nb cs) selves) = selves"
    using cs(2) assms(5) by simp_all
  ultimately obtain ps where ps: "create_parse_workers inp (q_size (l_monitoring_queue inp) \<noteq> 0)
      (zip (take ?nb cs) selves) [] = (Some ps, [])" "length ps = ?nb"
    "list_all (\<lambda>p. worker_ok (pw_input p) \<and> idle p \<and> p_legacy_proto (pw_input p) = l_legacy_proto inp \<and>
      p_monitoring_running (pw_input p) = (q_size (l_monitoring_queue inp) \<noteq> 0)) ps"
    "map (\<lambda>p. parser_thread_id (pw_input p)) ps = selves"
    using create_parse_workers_ok[OF assms(3,4), of "zip (take ?nb cs) selves"] unfolding z by blast
  let ?st = "\<lparr>ls_output = l_output_queue inp, ls_monitoring_queue = l_monitoring_queue inp,
    ls_parsers = ps,
    ls_monitoring = \<lparr>mw_running = (q_size (l_monitoring_queue inp) \<noteq> 0), mw_delay = l_monitoring_delay inp,
      mw_stop = False\<rparr>,
    ls_counters = (cs ! ?nb)\<lparr>thread_id := self, sc_type := Some LISTENER_WORKER\<rparr>\<rparr>"
  have run: "listener_start inp selves self [] = Inr (Some ?st, [])"
    using cs ps(1) nb1
    by (simp add: listener_start_def unyte_udp_init_counters_def create_monitoring_thread_def Let_def
        del: init_counters.simps)
  have "counters_ok (cs ! ?nb)" using cs(2,3) by (simp add: list_all_length)
  then have "listener_ok inp ?st"
    using assms(1,3) ps(2,3) by (simp add: listener_ok_def list_all_iff)
  then show ?thesis
    using run ps(3,4) by (intro exI[of _ ?st]) (simp add: list_all_iff)
qed


lemma minimal_parse_in:
  assumes "12 \<le> length buf"
  shows "\<exists>um. minimal_parse buf source dest_addr [] = Inr (Some um, []) \<and> um_buffer um = buf \<and>
    um_src um = source \<and> um_dest um = dest_addr"
  using assms by (simp add: minimal_parse_def)

lemma parser_queue_simps [simp]:
  "ls_counters (set_parser_queue i q st) = ls_counters st"
  "ls_monitoring (set_parser_queue i q st) = ls_monitoring st"
  "ls_output (set_parser_queue i q st) = ls_output st"
  "ls_monitoring_queue (set_parser_queue i q st) = ls_monitoring_queue st"
  "length (ls_parsers (set_parser_queue i q st)) = length (ls_parsers st)"
  "j \<noteq> i \<Longrightarrow> ls_parsers (set_parser_queue i q st) ! j = ls_parsers st ! j"
  "i < length (ls_parsers st) \<Longrightarrow> p_input (pw_input (ls_parsers (set_parser_queue i q st) ! i)) = q"
  by (simp_all add: set_parser_queue_def)

definition input_of :: "listener_state \<Rightarrow> nat \<Rightarrow> unyte_min unyte_udp_queue" where
  "input_of st i = p_input (pw_input (ls_parsers st ! i))"

definition dest_addr_of :: "listener_thread_input \<Rightarrow> mmsghdr \<Rightarrow> sockaddr_storage option" where
  "dest_addr_of inp m =
     (if l_msg_dst_ip inp then Some (dest_of_cmsgs (sock_addr (l_conn inp)) (mm_control m)) else None)"

lemma dispatch_message_run:
  assumes ok: "listener_ok inp st" and m: "0 < mm_len m" "length (mm_buffer m) = UDP_SIZE" "mm_name m \<noteq> None"
    and um: "minimal_parse (mm_buffer m) (mm_name m) (dest_addr_of inp m) [] = Inr (Some um, [])"
    and i: "i = unat (um_observation_domain_id um) mod unat (l_nb_parsers inp)"
    and room: "room \<longleftrightarrow> length (q_list (input_of st i)) < q_size (input_of st i) - 1"
  shows "\<exists>st'. dispatch_message inp m st [] = Some (Inr (None, st', [])) \<and> listener_ok inp st' \<and>
    q_list (input_of st' i) = q_list (input_of st i) @ (if room then [Some um] else []) \<and>
    (\<forall>j. j \<noteq> i \<longrightarrow> ls_parsers st' ! j = ls_parsers st ! j) \<and>
    (\<exists>q. pw_input (ls_parsers st' ! i) = (pw_input (ls_parsers st ! i))\<lparr>p_input := q\<rparr> \<and>
      q_size q = q_size (input_of st i)) \<and>
    (if mw_running (ls_monitoring st)
     then counted room (um_observation_domain_id um) (um_message_id um) (ls_counters st) (ls_counters st')
     else ls_counters st' = ls_counters st) \<and>
    ls_output st' = ls_output st \<and> ls_monitoring st' = ls_monitoring st \<and>
    ls_monitoring_queue st' = ls_monitoring_queue st"
proof -
  let ?o = "um_observation_domain_id um" and ?m = "um_message_id um"
  have nb: "l_nb_parsers inp \<noteq> 0" "0 < unat (l_nb_parsers inp)" "unat (l_nb_parsers inp) = length (ls_parsers st)"
    using ok by (auto simp: listener_ok_def word_less_nat_alt)
  have idx: "unat (?o mod l_nb_parsers inp) = i" "i < length (ls_parsers st)"
    using i nb by (simp_all add: unat_mod_distrib)
  have w: "worker_ok (pw_input (ls_parsers st ! i))" using ok idx(2) by (simp add: listener_ok_def list_all_length)
  then have inv: "queue_inv (input_of st i)" by (simp add: input_of_def worker_ok_def)
  obtain q where q: "unyte_udp_queue_write (input_of st i) (Some um) = Some (Inr (if room then 0 else -1, q))"
    "queue_inv q" "q_list q = q_list (input_of st i) @ (if room then [Some um] else [])"
    "q_size q = q_size (input_of st i)"
    using write_room_or_full[OF inv, of "Some um"] room by auto
  let ?st = "set_parser_queue i q st"
  have src: "datagram_ok (Some um)"
    using um m minimal_parse_in[of "mm_buffer m" "mm_name m" "dest_addr_of inp m"] by (auto simp: datagram_ok_def)
  have wi: "pw_input (ls_parsers ?st ! i) = (pw_input (ls_parsers st ! i))\<lparr>p_input := q\<rparr>"
    using idx(2) by (simp add: set_parser_queue_def)
  have "worker_ok (pw_input (ls_parsers ?st ! i))"
    unfolding wi using w q(2,3) src by (auto simp: worker_ok_def input_of_def)
  then have "list_all (\<lambda>p. worker_ok (pw_input p)) (ls_parsers ?st)"
    using ok idx(2) by (auto simp: listener_ok_def list_all_length) (metis parser_queue_simps(6))
  then have ok1: "listener_ok inp (?st\<lparr>ls_counters := c\<rparr>)" if "counters_ok c" for c
    using ok that by (simp add: listener_ok_def)
  obtain c where c: "(if room then unyte_udp_update_received_segment (ls_counters st) ?o ?m []
      else unyte_udp_update_dropped_segment (ls_counters st) ?o ?m []) = Inr (c, [])"
    "counted room ?o ?m (ls_counters st) c"
    using update_counted[of "ls_counters st" ?o ?m] ok by (cases room) (auto simp: listener_ok_def)
  define c' where "c' = (if mw_running (ls_monitoring st) then c else ls_counters st)"
  have "counters_ok c'" using c(2) ok by (simp add: c'_def counted_def listener_ok_def)
  note ok2 = ok1[OF this]
  have dest: "(if l_msg_dst_ip inp then get_dest_addr (mm_control m) (l_conn inp) [] else (None, [])) =
      (dest_addr_of inp m, [])"
    by (simp add: dest_addr_of_def get_dest_addr_def)
  have "dispatch_message inp m st [] = Some (Inr (None, ?st\<lparr>ls_counters := c'\<rparr>, []))"
    unfolding dispatch_message_def dest
    using m(1) um nb idx q(1) c(1) by (cases room) (simp_all add: Let_def input_of_def c'_def)
  moreover have "q_list (input_of (?st\<lparr>ls_counters := c'\<rparr>) i) =
      q_list (input_of st i) @ (if room then [Some um] else [])"
    using q(3) idx(2) by (simp add: input_of_def wi)
  ultimately show ?thesis
    using ok2 wi q(4) c(2) by (intro exI[of _ "?st\<lparr>ls_counters := c'\<rparr>"]) (auto simp: c'_def)
qed

text \<open>
  C32. Dispatching. A datagram of at least one byte goes to the end of the input queue of the worker
  whose number is its observation domain modulo the number of workers, with the addresses the
  system reported; when that queue is full it is dropped. The other workers are not touched, the
  listener's counters count it as received or dropped, and every structure stays well formed. All
  datagrams of one domain therefore meet in one worker, in the order in which they arrived.
\<close>

theorem dispatch_by_domain:
  assumes "listener_ok inp st" and "0 < mm_len m" and "length (mm_buffer m) = UDP_SIZE"
    and "mm_name m \<noteq> None"
  shows "\<exists>um st' i. minimal_parse (mm_buffer m) (mm_name m) (dest_addr_of inp m) [] = Inr (Some um, []) \<and>
    dispatch_message inp m st [] = Some (Inr (None, st', [])) \<and> listener_ok inp st' \<and>
    i = unat (um_observation_domain_id um) mod unat (l_nb_parsers inp) \<and>
    q_list (input_of st' i) = q_list (input_of st i) @
      (if length (q_list (input_of st i)) < q_size (input_of st i) - 1 then [Some um] else []) \<and>
    (\<forall>j. j \<noteq> i \<longrightarrow> ls_parsers st' ! j = ls_parsers st ! j) \<and>
    (mw_running (ls_monitoring st) \<longrightarrow>
      counted (length (q_list (input_of st i)) < q_size (input_of st i) - 1)
        (um_observation_domain_id um) (um_message_id um) (ls_counters st) (ls_counters st'))"
proof -
  obtain um where um: "minimal_parse (mm_buffer m) (mm_name m) (dest_addr_of inp m) [] = Inr (Some um, [])"
    using minimal_parse_in[of "mm_buffer m" "mm_name m" "dest_addr_of inp m"] assms(3) by auto
  from dispatch_message_run[OF assms um refl refl] um show ?thesis
    by (auto split: if_splits)
qed

lemma free_parsers_run:
  assumes "list_all (\<lambda>p. worker_ok (pw_input p)) ps"
  shows "free_parsers ps = Inr (map (\<lambda>p. int (stored (p_segment_buff (pw_input p)))) ps)"
  using assms
proof (induction ps)
  case (Cons p ps)
  then have "buckets_ok (p_segment_buff (pw_input p))" by (simp add: worker_ok_def buffer_ok_def)
  then obtain buf where "clear_buffer (p_segment_buff (pw_input p)) = Inr (int (stored (p_segment_buff (pw_input p))), buf)"
    using clear_buffer_run by blast
  with Cons show ?case by simp
qed simp


section \<open>A listener at work\<close>

definition sample_listener :: listener_thread_input where
  "sample_listener = \<lparr>l_output_queue = loaded_queue [None], l_monitoring_queue = loaded_queue [None],
     l_conn = \<lparr>sock_addr = \<lparr>ss_family = 2, ss_port = 10001, ss_addr = [0, 0, 0, 0]\<rparr>, sock_fd = 3\<rparr>,
     l_recvmmsg_vlen = 1, l_nb_parsers = 2, l_parser_queue_size = 2, l_monitoring_delay = 3,
     l_msg_dst_ip = True, l_legacy_proto = False\<rparr>"

definition sample_mmsg :: "bytes \<Rightarrow> mmsghdr" where
  "sample_mmsg bs = \<lparr>mm_len = length bs, mm_buffer = bs @ replicate (UDP_SIZE - length bs) 0,
     mm_name = um_src sample_min, mm_control = [Other_Cmsg, In_Pktinfo [10, 0, 0, 2]]\<rparr>"

lemma sample_listener_simps [simp]:
  "0 < l_nb_parsers sample_listener" "unat (l_nb_parsers sample_listener) = 2"
  "queue_inv (l_output_queue sample_listener)" "0 < l_parser_queue_size sample_listener"
  by (simp_all add: sample_listener_def loaded_queue_ok)

definition sample_parse_worker :: parse_worker where
  "sample_parse_worker = \<lparr>pw_input = sample_worker (datagram []) empty_buffer,
     pw_cleanup = \<lparr>ct_time = 1000, ct_stop = False\<rparr>\<rparr>"

definition sample_listener_state :: listener_state where
  "sample_listener_state = \<lparr>ls_output = loaded_queue [None], ls_monitoring_queue = loaded_queue [None],
     ls_parsers = [sample_parse_worker, sample_parse_worker],
     ls_monitoring = \<lparr>mw_running = True, mw_delay = 3, mw_stop = False\<rparr>, ls_counters = sample_counters\<rparr>"

lemma sample_listener_state_ok: "listener_ok sample_listener sample_listener_state"
  using sample_worker_ok(1)[of "[]" empty_buffer] empty_buffer_ok
  by (simp add: listener_ok_def sample_listener_state_def sample_parse_worker_def loaded_queue_ok sample_counters_ok)

theorem dispatch_by_domain_witness:
  "\<exists>st'. dispatch_message sample_listener (sample_mmsg sample_packet) sample_listener_state [] =
      Some (Inr (None, st', [])) \<and> listener_ok sample_listener st' \<and>
    ls_parsers st' ! 0 = ls_parsers sample_listener_state ! 0"
proof -
  have m: "0 < mm_len (sample_mmsg sample_packet)" "length (mm_buffer (sample_mmsg sample_packet)) = UDP_SIZE"
    "mm_name (sample_mmsg sample_packet) \<noteq> None"
    by (simp_all add: sample_mmsg_def sample_packet_def sample_min_def)
  obtain um st' i where r: "minimal_parse (mm_buffer (sample_mmsg sample_packet)) (mm_name (sample_mmsg sample_packet))
      (dest_addr_of sample_listener (sample_mmsg sample_packet)) [] = Inr (Some um, [])"
    "dispatch_message sample_listener (sample_mmsg sample_packet) sample_listener_state [] = Some (Inr (None, st', []))"
    "listener_ok sample_listener st'"
    "i = unat (um_observation_domain_id um) mod unat (l_nb_parsers sample_listener)"
    "\<forall>j. j \<noteq> i \<longrightarrow> ls_parsers st' ! j = ls_parsers sample_listener_state ! j"
    using dispatch_by_domain[OF sample_listener_state_ok m] by blast
  have n: "ntohl 117440512 = 7" by code_simp
  have "um_observation_domain_id um = 7"
    using r(1) by (auto simp: minimal_parse_def sample_mmsg_def sample_packet_def deserialize_uint32_def
        read_range_def le32_def n)
  with r show ?thesis by auto
qed


end
