(* ===== verification/Sender.thy ===== *)
theory Sender
  imports Packet
begin

text \<open>
  The sender of \<^verbatim>\<open>src/unyte_sender.c\<close>: choice of the MTU, the loop that serialises the packets
  of a message and hands them to \<^verbatim>\<open>send\<close>, and the freeing of the packets. The result of
  \<^verbatim>\<open>unyte_send\<close> carries the datagrams that \<^verbatim>\<open>send\<close> was called with, in order; the code ignores
  what \<^verbatim>\<open>send\<close> returns. Setting the socket up is in the theory of the sockets.
\<close>

abbreviation DEFAULT_MTU :: u32 where "DEFAULT_MTU \<equiv> 1500"

record unyte_sender_socket =
  ss_sockfd :: int
  ss_sock_in :: sockaddr_storage
  ss_default_mtu :: u32

definition chosen_mtu :: "unyte_sender_socket \<Rightarrow> unyte_message \<Rightarrow> u32" where
  "chosen_mtu sk msg =
     (if used_mtu msg \<le> 0 then (if ss_default_mtu sk > 0 then ss_default_mtu sk else DEFAULT_MTU)
      else used_mtu msg)"

text \<open>
  The loop: \<^verbatim>\<open>send\<close> reads header length plus message length bytes of the serialised packet.
\<close>

fun send_packets :: "unyte_seg_met list \<Rightarrow> allocs \<Rightarrow> fault + (bytes list \<times> allocs)" where
  "send_packets [] as = Inr ([], as)"
| "send_packets (seg # segs) as =
     bind_fault (serialize_message seg as) (\<lambda>(parsed_packet, as1).
     bind_fault (read_range parsed_packet 0
         (unat (header_length (header seg)) + unat (message_length (header seg)))) (\<lambda>sent.
     bind_fault (send_packets segs as1) (\<lambda>(rest, as2). Inr (sent # rest, as2))))"

text \<open>The options of every packet are followed when it is freed.\<close>

fun free_seg_msgs :: "unyte_seg_met list \<Rightarrow> fault + int" where
  "free_seg_msgs [] = Inr 0"
| "free_seg_msgs (seg # segs) =
     (case options (header seg) of None \<Rightarrow> Inl Null_Deref | Some _ \<Rightarrow> free_seg_msgs segs)"

definition unyte_send ::
  "unyte_sender_socket \<Rightarrow> unyte_message \<Rightarrow> allocs \<Rightarrow> fault + (int \<times> bytes list \<times> allocs)" where
  "unyte_send sender_sk message as =
     bind_fault (build_message message (chosen_mtu sender_sk message) as) (\<lambda>(packets, as1).
     case packets of
       None \<Rightarrow> Inl Null_Deref
     | Some segs \<Rightarrow>
         bind_fault (send_packets segs as1) (\<lambda>(sent, as2).
         bind_fault (free_seg_msgs segs) (\<lambda>_. Inr (0, sent, as2))))"

section \<open>What is sent\<close>

abbreviation options_of_nth :: "unyte_message \<Rightarrow> nat \<Rightarrow> unyte_option list" where
  "options_of_nth msg i \<equiv> (if i = 0 then sent_options msg else [])"

lemma send_packets_ok:
  assumes "\<And>seg. seg \<in> set segs \<Longrightarrow> \<exists>os. packet_ok seg os"
  shows "send_packets segs [] = Inr (map (\<lambda>seg. packet_bytes seg (the (options (header seg)))) segs, []) \<and>
    free_seg_msgs segs = Inr 0"
  using assms
proof (induction segs)
  case (Cons seg segs)
  obtain os where ok: "packet_ok seg os" using Cons.prems by auto
  then have os: "options (header seg) = Some os" by (simp add: packet_ok_def)
  have "read_range (packet_bytes seg os) 0 (unat (header_length (header seg)) + unat (message_length (header seg))) =
      Inr (packet_bytes seg os)"
    using length_packet_bytes[OF ok] by (simp add: read_range_def)
  with Cons os serialize_packet[OF ok] show ?case by simp
qed simp

lemma unyte_send_packets:
  assumes good: "good_message msg (chosen_mtu sk msg)" and few: "packet_count msg (chosen_mtu sk msg) \<le> 128"
  obtains segs where "build_message msg (chosen_mtu sk msg) [] = Inr (Some segs, [])"
    "length segs = packet_count msg (chosen_mtu sk msg)"
    "concat (map payload segs) = take (unat (buffer_len msg)) (msg_buffer msg)"
    "\<forall>i<length segs. packet_of_message msg (chosen_mtu sk msg) (length segs) i (segs ! i)"
    "\<forall>i<length segs. packet_ok (segs ! i) (options_of_nth msg i)"
    "unyte_send sk msg [] =
      Inr (0, map (\<lambda>i. packet_bytes (segs ! i) (options_of_nth msg i)) [0..<length segs], [])"
proof -
  obtain segs where segs: "build_message msg (chosen_mtu sk msg) [] = Inr (Some segs, [])"
    "length segs = packet_count msg (chosen_mtu sk msg)"
    "concat (map payload segs) = take (unat (buffer_len msg)) (msg_buffer msg)"
    "\<forall>i<length segs. packet_of_message msg (chosen_mtu sk msg) (length segs) i (segs ! i)"
    "\<forall>i<length segs. packet_ok (segs ! i) (options_of_nth msg i)"
    by (rule build_message_packets[OF good]) (use few in simp)
  have ok: "\<exists>os. packet_ok seg os" if "seg \<in> set segs" for seg
    using that segs(5) by (auto simp: in_set_conv_nth)
  have "map (\<lambda>seg. packet_bytes seg (the (options (header seg)))) segs =
      map (\<lambda>i. packet_bytes (segs ! i) (options_of_nth msg i)) [0..<length segs]"
    using segs(5) by (intro nth_equalityI) (auto simp: packet_ok_def)
  with segs(1) send_packets_ok[OF ok] have "unyte_send sk msg [] =
      Inr (0, map (\<lambda>i. packet_bytes (segs ! i) (options_of_nth msg i)) [0..<length segs], [])"
    by (simp add: unyte_send_def)
  with that segs show thesis by blast
qed

text \<open>
  Sending a message. The MTU is that of the message, or else that of the socket, or else 1500. For a
  message the builder is meant for that needs at most 128 packets, and with no failed
  allocation, \<^verbatim>\<open>unyte_send\<close> runs into no fault, hands exactly as many datagrams to \<^verbatim>\<open>send\<close> as
  the message needs, none longer than the MTU, and a collector that parses the datagrams one by one,
  whatever follows them in its receive buffers, gets segments with the identifiers of the message whose
  payloads together are the message.
\<close>

theorem unyte_send_datagrams:
  assumes "good_message msg (chosen_mtu sk msg)" and "packet_count msg (chosen_mtu sk msg) \<le> 128"
  shows "\<exists>sent segs. unyte_send sk msg [] = Inr (0, sent, []) \<and>
    length sent = packet_count msg (chosen_mtu sk msg) \<and>
    list_all (\<lambda>d. length d \<le> unat (chosen_mtu sk msg)) sent \<and>
    list_all2 (\<lambda>d seg. \<forall>junk um. parse_with_metadata (d @ junk) um [] = Some (Inr (Some (received um seg), [])))
      sent segs \<and>
    concat (map payload segs) = take (unat (buffer_len msg)) (msg_buffer msg) \<and>
    list_all (\<lambda>seg. observation_domain_id (header seg) = msg_observation_domain_id msg \<and>
      message_id (header seg) = msg_message_id msg) segs"
proof -
  obtain segs where s: "build_message msg (chosen_mtu sk msg) [] = Inr (Some segs, [])"
    "length segs = packet_count msg (chosen_mtu sk msg)"
    "concat (map payload segs) = take (unat (buffer_len msg)) (msg_buffer msg)"
    "\<forall>i<length segs. packet_of_message msg (chosen_mtu sk msg) (length segs) i (segs ! i)"
    "\<forall>i<length segs. packet_ok (segs ! i) (options_of_nth msg i)"
    "unyte_send sk msg [] =
      Inr (0, map (\<lambda>i. packet_bytes (segs ! i) (options_of_nth msg i)) [0..<length segs], [])"
    by (rule unyte_send_packets[OF assms])
  let ?sent = "map (\<lambda>i. packet_bytes (segs ! i) (options_of_nth msg i)) [0..<length segs]"
  have len: "length (packet_bytes (segs ! i) (options_of_nth msg i)) \<le> unat (chosen_mtu sk msg)"
    if "i < length segs" for i
    using length_packet_bytes[OF s(5)[rule_format, OF that]] s(4)[rule_format, OF that] by (simp add: packet_of_message_def)
  then have "list_all (\<lambda>d. length d \<le> unat (chosen_mtu sk msg)) ?sent"
    by (auto simp: list_all_iff simp del: upt_Suc)
  moreover have "list_all2 (\<lambda>d seg. \<forall>junk um. parse_with_metadata (d @ junk) um [] =
      Some (Inr (Some (received um seg), []))) ?sent segs"
    unfolding list_all2_conv_all_nth using parse_packet[OF s(5)[rule_format]] by simp
  moreover have "list_all (\<lambda>seg. observation_domain_id (header seg) = msg_observation_domain_id msg \<and>
      message_id (header seg) = msg_message_id msg) segs"
    unfolding list_all_length using s(4) by (simp add: packet_of_message_def)
  ultimately show ?thesis using s(2,3,6) by (intro exI[of _ ?sent] exI[of _ segs]) simp
qed

definition sample_sender :: unyte_sender_socket where
  "sample_sender = \<lparr>ss_sockfd = 3, ss_sock_in = \<lparr>ss_family = 2, ss_port = 10001, ss_addr = [10, 0, 0, 2]\<rparr>,
     ss_default_mtu = 0\<rparr>"

theorem unyte_send_datagrams_witness:
  "\<exists>sent. unyte_send sample_sender sample_message [] = Inr (0, sent, []) \<and> length sent = 4 \<and>
    list_all (\<lambda>d. length d \<le> 20) sent"
proof -
  have m: "chosen_mtu sample_sender sample_message = 20"
    by (simp add: chosen_mtu_def sample_message_def)
  have "good_message sample_message 20"
    by (simp add: good_message_def sample_message_def sent_options_def built_option_def
        good_send_option_def)
  moreover have "packet_count sample_message 20 = 4" by code_simp
  ultimately show ?thesis
    using unyte_send_datagrams[of sample_message sample_sender, unfolded m] by auto
qed

end
