(* ===== verification/Sockets.thy ===== *)
theory Sockets
  imports Sender
begin

text \<open>
  Setting sockets up: \<^verbatim>\<open>unyte_udp_create_socket\<close> and \<^verbatim>\<open>unyte_udp_create_interface_bound_socket\<close>
  of \<^verbatim>\<open>src/unyte_udp_utils.c\<close>, \<^verbatim>\<open>unyte_start_sender\<close> of \<^verbatim>\<open>src/unyte_sender.c\<close> and
  \<^verbatim>\<open>unyte_set_socket_opt\<close> of \<^verbatim>\<open>src/unyte_udp_collector.c\<close>.

  The operating system is an argument: what its calls return. A run is the list of the calls
  made, in order, and the value returned, \<open>None\<close> when the process ends by \<^verbatim>\<open>exit\<close> or by a failed
  \<^verbatim>\<open>assert\<close>. Printing is left out.
\<close>

section \<open>The system\<close>

abbreviation IFNAMSIZ :: nat where "IFNAMSIZ \<equiv> 16"
abbreviation DEFAULT_SK_SND_BUFF_SIZE :: "64 word" where "DEFAULT_SK_SND_BUFF_SIZE \<equiv> 20971520"

record addrinfo =
  ai_inet6 :: bool
  ai_addr :: sockaddr_storage

datatype sockopt =
    SO_REUSEPORT
  | SO_RCVBUF "64 word"
  | SO_SNDBUF "64 word"
  | SO_BINDTODEVICE string
  | IPV6_V6ONLY
  | IP_PKTINFO
  | IPV6_RECVPKTINFO

datatype syscall =
    Getaddrinfo string string
  | Socket addrinfo
  | Setsockopt int sockopt
  | Bind int sockaddr_storage
  | Connect int sockaddr_storage
  | Getsockname int
  | Close int
  | Freeaddrinfo

record system =
  sys_getaddrinfo :: "string \<Rightarrow> string \<Rightarrow> addrinfo option"
  sys_socket :: "addrinfo \<Rightarrow> int"
  sys_setsockopt :: "int \<Rightarrow> sockopt \<Rightarrow> int"
  sys_bind :: "int \<Rightarrow> sockaddr_storage \<Rightarrow> int"
  sys_connect :: "int \<Rightarrow> sockaddr_storage \<Rightarrow> int"
  sys_getsockname :: "int \<Rightarrow> sockaddr_storage option"

type_synonym 'a sys_run = "'a option \<times> syscall list"

definition sys_call :: "syscall \<Rightarrow> 'a \<Rightarrow> 'a sys_run" where
  "sys_call c r = (Some r, [c])"

definition sys_exit :: "'a sys_run" where
  "sys_exit = (None, [])"

definition sys_return :: "'a \<Rightarrow> 'a sys_run" where
  "sys_return x = (Some x, [])"

definition bind_sys :: "'a sys_run \<Rightarrow> ('a \<Rightarrow> 'b sys_run) \<Rightarrow> 'b sys_run" where
  "bind_sys m k =
     (case fst m of
        None \<Rightarrow> (None, snd m)
      | Some x \<Rightarrow> (fst (k x), snd m @ snd (k x)))"

text \<open>An option that must be set; \<open>undo\<close> is what is called before the process ends.\<close>

definition must_set :: "system \<Rightarrow> int \<Rightarrow> sockopt \<Rightarrow> syscall list \<Rightarrow> unit sys_run" where
  "must_set sys fd opt undo =
     bind_sys (sys_call (Setsockopt fd opt) (sys_setsockopt sys fd opt)) (\<lambda>r.
     if r < 0 then (None, undo) else sys_return ())"

definition resolve :: "system \<Rightarrow> string \<Rightarrow> string \<Rightarrow> addrinfo sys_run" where
  "resolve sys address port =
     bind_sys (sys_call (Getaddrinfo address port) (sys_getaddrinfo sys address port)) (\<lambda>ai.
     case ai of None \<Rightarrow> sys_exit | Some info \<Rightarrow> sys_return info)"

definition new_socket :: "system \<Rightarrow> addrinfo \<Rightarrow> syscall list \<Rightarrow> int sys_run" where
  "new_socket sys info undo =
     bind_sys (sys_call (Socket info) (sys_socket sys info)) (\<lambda>fd.
     if fd < 0 then (None, undo) else sys_return fd)"

section \<open>Receiving sockets\<close>

definition unyte_udp_create_socket ::
  "system \<Rightarrow> string option \<Rightarrow> string option \<Rightarrow> 64 word \<Rightarrow> int sys_run" where
  "unyte_udp_create_socket sys address port buffer_size =
     (case (address, port) of
        (Some addr, Some prt) \<Rightarrow>
          if \<not> 0 < buffer_size then sys_exit
          else
            bind_sys (resolve sys addr prt) (\<lambda>info.
            bind_sys (new_socket sys info []) (\<lambda>sockfd.
            bind_sys (must_set sys sockfd SO_REUSEPORT []) (\<lambda>_.
            bind_sys (must_set sys sockfd (SO_RCVBUF buffer_size) []) (\<lambda>_.
            bind_sys (sys_call (Bind sockfd (ai_addr info)) (sys_bind sys sockfd (ai_addr info))) (\<lambda>r.
            if r = -1 then (None, [Close sockfd])
            else bind_sys (sys_call Freeaddrinfo ()) (\<lambda>_. sys_return sockfd))))))
      | _ \<Rightarrow> sys_exit)"

text \<open>\<^verbatim>\<open>strnlen(name, IFNAMSIZ)\<close> reaches \<^verbatim>\<open>IFNAMSIZ\<close> for a name of that length or more.\<close>

definition bind_to_interface :: "system \<Rightarrow> int \<Rightarrow> string \<Rightarrow> syscall list \<Rightarrow> unit sys_run" where
  "bind_to_interface sys sockfd name undo =
     (if 0 < length name then
        if IFNAMSIZ \<le> length name then (None, undo)
        else must_set sys sockfd (SO_BINDTODEVICE name) undo
      else sys_return ())"

definition unyte_udp_create_interface_bound_socket ::
  "system \<Rightarrow> string option \<Rightarrow> string option \<Rightarrow> string option \<Rightarrow> bool \<Rightarrow> 64 word \<Rightarrow> int sys_run" where
  "unyte_udp_create_interface_bound_socket sys interface address port ipv6_only buffer_size =
     (case (interface, address, port) of
        (Some name, Some addr, Some prt) \<Rightarrow>
          if \<not> 0 < buffer_size then sys_exit
          else
            bind_sys (resolve sys addr prt) (\<lambda>info.
            bind_sys (new_socket sys info [Freeaddrinfo]) (\<lambda>sockfd.
            bind_sys (must_set sys sockfd SO_REUSEPORT [Freeaddrinfo]) (\<lambda>_.
            bind_sys (must_set sys sockfd (SO_RCVBUF buffer_size) [Freeaddrinfo]) (\<lambda>_.
            bind_sys (bind_to_interface sys sockfd name [Freeaddrinfo]) (\<lambda>_.
            bind_sys (if ai_inet6 info \<and> ipv6_only then must_set sys sockfd IPV6_V6ONLY [Freeaddrinfo]
                      else sys_return ()) (\<lambda>_.
            bind_sys (sys_call (Bind sockfd (ai_addr info)) (sys_bind sys sockfd (ai_addr info))) (\<lambda>r.
            if r = -1 then (None, [Close sockfd, Freeaddrinfo])
            else bind_sys (sys_call Freeaddrinfo ()) (\<lambda>_. sys_return sockfd))))))))
      | _ \<Rightarrow> sys_exit)"

definition unyte_set_ip_headers_options :: "system \<Rightarrow> int \<Rightarrow> bool \<Rightarrow> unit sys_run" where
  "unyte_set_ip_headers_options sys socket_fd inet6 =
     bind_sys (must_set sys socket_fd IP_PKTINFO []) (\<lambda>_.
     if inet6 then must_set sys socket_fd IPV6_RECVPKTINFO [] else sys_return ())"

section \<open>The sending socket\<close>

record unyte_sender_options =
  so_address :: string
  so_port :: string
  so_default_mtu :: u32
  so_interface :: "string option"
  so_socket_buff_size :: "64 word"

text \<open>The outcomes of the two allocations are one argument.\<close>

definition unyte_start_sender ::
  "system \<Rightarrow> unyte_sender_options \<Rightarrow> bool \<Rightarrow> unyte_sender_socket sys_run" where
  "unyte_start_sender sys opts alloc_ok =
     bind_sys (resolve sys (so_address opts) (so_port opts)) (\<lambda>info.
     if \<not> alloc_ok then sys_exit
     else
       bind_sys (new_socket sys info []) (\<lambda>sockfd.
       bind_sys (case so_interface opts of
           None \<Rightarrow> sys_return ()
         | Some name \<Rightarrow> bind_to_interface sys sockfd name []) (\<lambda>_.
       let send_buf_size = (if so_socket_buff_size opts > 0 then so_socket_buff_size opts
                            else DEFAULT_SK_SND_BUFF_SIZE) in
       bind_sys (sys_call (Setsockopt sockfd (SO_SNDBUF send_buf_size))
           (sys_setsockopt sys sockfd (SO_SNDBUF send_buf_size))) (\<lambda>r.
       if r \<noteq> 0 then sys_exit
       else
         bind_sys (sys_call (Connect sockfd (ai_addr info)) (sys_connect sys sockfd (ai_addr info))) (\<lambda>c.
         if c = -1 then (None, [Close sockfd])
         else
           bind_sys (sys_call Freeaddrinfo ()) (\<lambda>_.
           sys_return \<lparr>ss_sockfd = sockfd, ss_sock_in = ai_addr info,
                       ss_default_mtu = so_default_mtu opts\<rparr>))))))"

section \<open>Properties\<close>

lemmas sys_defs = bind_sys_def sys_call_def sys_exit_def sys_return_def must_set_def resolve_def new_socket_def

text \<open>
  The two ways of creating a receiving socket agree. With an empty interface name, and
  without the restriction to IPv6, binding a socket to an interface makes the same
  calls in the same order as creating a plain socket and has the same outcome, except that it also
  releases the address list before it gives up.
\<close>

theorem interface_bound_socket_agrees:
  "fst (unyte_udp_create_interface_bound_socket sys (Some '''') address port False buffer_size) =
    fst (unyte_udp_create_socket sys address port buffer_size) \<and>
   filter (\<lambda>c. c \<noteq> Freeaddrinfo)
      (snd (unyte_udp_create_interface_bound_socket sys (Some '''') address port False buffer_size)) =
    filter (\<lambda>c. c \<noteq> Freeaddrinfo) (snd (unyte_udp_create_socket sys address port buffer_size))"
  by (auto simp: unyte_udp_create_interface_bound_socket_def unyte_udp_create_socket_def bind_to_interface_def
      sys_defs split: option.split)

end
