(* ===== verification/Collector.thy ===== *)
theory Collector
  imports Listener Sockets
begin

text \<open>
  The interface of the library, \<^verbatim>\<open>src/unyte_udp_collector.c\<close>: default options, starting a collector,
  and freeing what it still holds; and the clean-up thread of \<^verbatim>\<open>src/cleanup_worker.c\<close>.
  The listener thread that is created is given by its input structure.
\<close>

section \<open>Options\<close>

abbreviation UNYTE_DEFAULT_VLEN :: u16 where "UNYTE_DEFAULT_VLEN \<equiv> 1"
abbreviation OUTPUT_QUEUE_SIZE :: u32 where "OUTPUT_QUEUE_SIZE \<equiv> 1000"
abbreviation MONITORING_QUEUE_SIZE :: u32 where "MONITORING_QUEUE_SIZE \<equiv> 0"
abbreviation MONITORING_DELAY :: u32 where "MONITORING_DELAY \<equiv> 3"
abbreviation PARSER_QUEUE_SIZE :: u32 where "PARSER_QUEUE_SIZE \<equiv> 500"
abbreviation DEFAULT_NB_PARSERS :: u32 where "DEFAULT_NB_PARSERS \<equiv> 10"

record unyte_udp_options =
  o_socket_fd :: int
  o_recvmmsg_vlen :: u16
  o_msg_dst_ip :: bool
  o_nb_parsers :: u32
  o_output_queue_size :: u32
  o_parsers_queue_size :: u32
  o_monitoring_queue_size :: u32
  o_monitoring_delay :: u32
  o_legacy :: bool

record unyte_udp_collector =
  c_queue :: "unyte_seg_met unyte_udp_queue"
  c_monitoring_queue :: "sum_counter unyte_udp_queue"
  c_sockfd :: int

definition set_default_options :: "unyte_udp_options option \<Rightarrow> unyte_udp_options option" where
  "set_default_options opts =
     (case opts of
        None \<Rightarrow> None
      | Some o0 \<Rightarrow>
          (let o1 = (if o_recvmmsg_vlen o0 = 0 then o0\<lparr>o_recvmmsg_vlen := UNYTE_DEFAULT_VLEN\<rparr> else o0);
               o2 = (if o_output_queue_size o1 \<le> 0 then o1\<lparr>o_output_queue_size := OUTPUT_QUEUE_SIZE\<rparr> else o1);
               o3 = (if o_nb_parsers o2 \<le> 0 then o2\<lparr>o_nb_parsers := DEFAULT_NB_PARSERS\<rparr> else o2);
               o4 = (if o_parsers_queue_size o3 \<le> 0 then o3\<lparr>o_parsers_queue_size := PARSER_QUEUE_SIZE\<rparr> else o3);
               o5 = (if o_monitoring_queue_size o4 \<le> 0
                     then o4\<lparr>o_monitoring_queue_size := MONITORING_QUEUE_SIZE\<rparr> else o4);
               o6 = (if o_monitoring_delay o5 \<le> 0 then o5\<lparr>o_monitoring_delay := MONITORING_DELAY\<rparr> else o5) in
           Some o6))"

section \<open>Starting\<close>

text \<open>
  The length given to \<^verbatim>\<open>getsockname\<close> is that of a pointer, eight bytes: family, port and, for IPv4,
  the address. A failed allocation of the address makes \<^verbatim>\<open>getsockname\<close> fail.
\<close>

definition eight_bytes :: "sockaddr_storage \<Rightarrow> sockaddr_storage" where
  "eight_bytes a = (if ss_family a = AF_INET then a else a\<lparr>ss_addr := []\<rparr>)"

definition unyte_set_socket_opt ::
  "system \<Rightarrow> int \<Rightarrow> bool \<Rightarrow> allocs \<Rightarrow> (unyte_udp_sock \<times> allocs) sys_run" where
  "unyte_set_socket_opt sys socket_fd msg_ip_dst as =
     (let (ok1, as1) = malloc as in
      if \<not> ok1 then sys_exit
      else
        (let (ok2, as2) = malloc as1 in
         if \<not> ok2 then sys_exit
         else
           (let (ok3, as3) = malloc as2 in
            bind_sys (sys_call (Getsockname socket_fd) (sys_getsockname sys socket_fd)) (\<lambda>name.
            case name of
              None \<Rightarrow> sys_exit
            | Some a \<Rightarrow>
                if \<not> ok3 then sys_exit
                else
                  bind_sys (if msg_ip_dst
                      then unyte_set_ip_headers_options sys socket_fd (ss_family (eight_bytes a) = AF_INET6)
                      else sys_return ()) (\<lambda>_.
                  sys_return (\<lparr>sock_addr = eight_bytes a, sock_fd = socket_fd\<rparr>, as3))))))"

definition unyte_udp_create_listener ::
  "unyte_seg_met unyte_udp_queue \<Rightarrow> sum_counter unyte_udp_queue \<Rightarrow> unyte_udp_sock \<Rightarrow> unyte_udp_options \<Rightarrow>
    allocs \<Rightarrow> (unyte_udp_collector \<times> listener_thread_input) option \<times> allocs" where
  "unyte_udp_create_listener output_queue monitoring_queue conn opts as =
     (let (ok, as1) = mallocs 3 as in
      if \<not> ok then (None, as1)
      else
        (Some (\<lparr>c_queue = output_queue, c_monitoring_queue = monitoring_queue, c_sockfd = sock_fd conn\<rparr>,
               \<lparr>l_output_queue = output_queue, l_monitoring_queue = monitoring_queue, l_conn = conn,
                l_recvmmsg_vlen = o_recvmmsg_vlen opts, l_nb_parsers = o_nb_parsers opts,
                l_parser_queue_size = unat (o_parsers_queue_size opts),
                l_monitoring_delay = o_monitoring_delay opts, l_msg_dst_ip = o_msg_dst_ip opts,
                l_legacy_proto = o_legacy opts\<rparr>), as1))"

definition unyte_udp_start_collector ::
  "system \<Rightarrow> unyte_udp_options option \<Rightarrow> allocs \<Rightarrow>
    (unyte_udp_collector \<times> listener_thread_input \<times> allocs) sys_run" where
  "unyte_udp_start_collector sys user_options as =
     (case set_default_options user_options of
        None \<Rightarrow> sys_exit
      | Some opts \<Rightarrow>
          (let (q1, as1) = unyte_udp_queue_init (unat (o_output_queue_size opts)) as;
               (q2, as2) = unyte_udp_queue_init (unat (o_monitoring_queue_size opts)) as1 in
           case (q1, q2) of
             (Some output_queue, Some monitoring_queue) \<Rightarrow>
               bind_sys (unyte_set_socket_opt sys (o_socket_fd opts) (o_msg_dst_ip opts) as2) (\<lambda>(conn, as3).
               case unyte_udp_create_listener output_queue monitoring_queue conn opts as3 of
                 (None, as4) \<Rightarrow> sys_exit
               | (Some (c, l), as4) \<Rightarrow> sys_return (c, l, as4))
           | _ \<Rightarrow> sys_exit))"

section \<open>Freeing\<close>

text \<open>The options list of the header is followed; a \<^verbatim>\<open>NULL\<close> message or list is dereferenced.\<close>

definition unyte_udp_free_options :: "unyte_option list option \<Rightarrow> fault + int" where
  "unyte_udp_free_options opts = (case opts of None \<Rightarrow> Inl Null_Deref | Some _ \<Rightarrow> Inr 0)"

definition unyte_udp_free_all :: "unyte_seg_met option \<Rightarrow> fault + int" where
  "unyte_udp_free_all seg =
     (case seg of
        None \<Rightarrow> Inl Null_Deref
      | Some s \<Rightarrow> bind_fault (unyte_udp_free_options (options (header s))) (\<lambda>_. Inr 0))"

text \<open>Both loops of \<^verbatim>\<open>unyte_udp_free_collector\<close>; the result is what was freed, in order.\<close>

definition unyte_udp_free_collector ::
  "unyte_udp_collector \<Rightarrow>
    (fault + (unyte_seg_met option list \<times> sum_counter option list)) option" where
  "unyte_udp_free_collector c =
     bind_run (drain is_udp_queue_empty unyte_udp_queue_read unyte_udp_free_all [] (c_queue c)) (\<lambda>(msgs, _).
     bind_run (drain is_udp_queue_empty unyte_udp_queue_read (\<lambda>_. Inr 0) [] (c_monitoring_queue c)) (\<lambda>(sums, _).
     Some (Inr (msgs, sums))))"

section \<open>The clean-up thread\<close>

record timespec =
  tv_sec :: int
  tv_nsec :: int

text \<open>
  The only value passed is \<^verbatim>\<open>CLEANUP_FLAG_CRON\<close>, 1000; the product stays in the range of an \<^verbatim>\<open>int\<close> up to a
  time of 2147.
\<close>

definition cleanup_timespec :: "int \<Rightarrow> timespec" where
  "cleanup_timespec time =
     \<lparr>tv_sec = (if time > 1000 then time div 1000 else 0), tv_nsec = 999999 * time\<rparr>"

text \<open>One round of \<^verbatim>\<open>t_clean_up\<close> after its sleep; \<open>None\<close> when the thread has been told to stop.\<close>

definition t_clean_up :: "parse_worker \<Rightarrow> parse_worker option" where
  "t_clean_up p =
     (if ct_stop (pw_cleanup p) then None
      else
        Some (p\<lparr>pw_input := (pw_input p)\<lparr>p_segment_buff :=
          (p_segment_buff (pw_input p))\<lparr>cleanup := 1\<rparr>\<rparr>\<rparr>))"


section \<open>Properties\<close>

lemma default_options_eq:
  "set_default_options (Some o0) = Some (o0\<lparr>
     o_recvmmsg_vlen := (if o_recvmmsg_vlen o0 = 0 then UNYTE_DEFAULT_VLEN else o_recvmmsg_vlen o0),
     o_output_queue_size := (if o_output_queue_size o0 = 0 then OUTPUT_QUEUE_SIZE else o_output_queue_size o0),
     o_nb_parsers := (if o_nb_parsers o0 = 0 then DEFAULT_NB_PARSERS else o_nb_parsers o0),
     o_parsers_queue_size := (if o_parsers_queue_size o0 = 0 then PARSER_QUEUE_SIZE else o_parsers_queue_size o0),
     o_monitoring_delay := (if o_monitoring_delay o0 = 0 then MONITORING_DELAY else o_monitoring_delay o0)\<rparr>)"
  by (cases o0) (simp add: set_default_options_def Let_def)

lemma default_options:
  assumes "set_default_options (Some o0) = Some opts"
  shows "0 < o_nb_parsers opts" "0 < o_output_queue_size opts" "0 < o_parsers_queue_size opts"
    "o_socket_fd opts = o_socket_fd o0" "o_msg_dst_ip opts = o_msg_dst_ip o0" "o_legacy opts = o_legacy o0"
    "o_nb_parsers opts = (if o_nb_parsers o0 = 0 then 10 else o_nb_parsers o0)"
    "o_monitoring_queue_size opts = o_monitoring_queue_size o0"
  using assms[unfolded default_options_eq option.inject, symmetric] by (simp_all add: word_gt_0)

lemma queue_init_ok: "\<exists>q. unyte_udp_queue_init n [] = (Some q, []) \<and> (0 < n \<longrightarrow> queue_inv q) \<and> q_list q = [] \<and>
    q_full q = 0 \<and> q_size q = n"
  using queue_inv_init[of n]
  by (cases "0 < n") (auto simp: unyte_udp_queue_init_def q_list_def q_used_def ring_used_def)

lemma set_socket_opt_ok:
  assumes "sys_getsockname sys fd = Some a" "\<And>opt. 0 \<le> sys_setsockopt sys fd opt"
  shows "fst (unyte_set_socket_opt sys fd dst []) = Some (\<lparr>sock_addr = eight_bytes a, sock_fd = fd\<rparr>, [])"
proof -
  have "\<not> sys_setsockopt sys fd opt < 0" for opt using assms(2)[of opt] by simp
  then show ?thesis
    using assms(1)
    by (simp add: unyte_set_socket_opt_def unyte_set_ip_headers_options_def sys_defs)
qed

text \<open>
  Starting with no failed allocation and no failing system call: both queues are empty, and the one for the
  summaries is a working queue only when it was given a size.
\<close>

lemma start_collector_run:
  assumes "sys_getsockname sys (o_socket_fd opts) = Some a"
    and "\<And>opt. 0 \<le> sys_setsockopt sys (o_socket_fd opts) opt"
    and "set_default_options (Some opts) = Some o1"
  shows "\<exists>c l. fst (unyte_udp_start_collector sys (Some opts) []) = Some (c, l, []) \<and>
    queue_inv (c_queue c) \<and> q_list (c_queue c) = [] \<and> q_size (c_queue c) = unat (o_output_queue_size o1) \<and>
    (o_monitoring_queue_size opts \<noteq> 0 \<longrightarrow> queue_inv (c_monitoring_queue c)) \<and> q_list (c_monitoring_queue c) = [] \<and>
    q_full (c_monitoring_queue c) = 0 \<and> q_size (c_monitoring_queue c) = unat (o_monitoring_queue_size opts) \<and>
    c_sockfd c = o_socket_fd opts \<and>
    l = \<lparr>l_output_queue = c_queue c, l_monitoring_queue = c_monitoring_queue c,
      l_conn = \<lparr>sock_addr = eight_bytes a, sock_fd = o_socket_fd opts\<rparr>,
      l_recvmmsg_vlen = o_recvmmsg_vlen o1, l_nb_parsers = o_nb_parsers o1,
      l_parser_queue_size = unat (o_parsers_queue_size o1), l_monitoring_delay = o_monitoring_delay o1,
      l_msg_dst_ip = o_msg_dst_ip o1, l_legacy_proto = o_legacy o1\<rparr>"
proof -
  note d = default_options[OF assms(3)]
  obtain q1 :: "unyte_seg_met unyte_udp_queue" where q1: "unyte_udp_queue_init (unat (o_output_queue_size o1)) [] = (Some q1, [])"
    "0 < unat (o_output_queue_size o1) \<longrightarrow> queue_inv q1" "q_list q1 = []" "q_size q1 = unat (o_output_queue_size o1)"
    using queue_init_ok by blast
  have inv: "queue_inv q1" using q1(2) d(2) by (simp add: word_less_nat_alt)
  obtain q2 :: "sum_counter unyte_udp_queue" where q2: "unyte_udp_queue_init (unat (o_monitoring_queue_size o1)) [] = (Some q2, [])"
    "0 < unat (o_monitoring_queue_size o1) \<longrightarrow> queue_inv q2" "q_list q2 = []" "q_full q2 = 0"
    "q_size q2 = unat (o_monitoring_queue_size o1)"
    using queue_init_ok by blast
  let ?c = "\<lparr>c_queue = q1, c_monitoring_queue = q2, c_sockfd = o_socket_fd opts\<rparr>"
  have mon: "o_monitoring_queue_size opts \<noteq> 0 \<longrightarrow> queue_inv q2" using q2(2) d(8) by (simp add: unat_gt_0)
  have "\<exists>l. fst (unyte_udp_start_collector sys (Some opts) []) = Some (?c, l, []) \<and>
    l = \<lparr>l_output_queue = q1, l_monitoring_queue = q2,
      l_conn = \<lparr>sock_addr = eight_bytes a, sock_fd = o_socket_fd opts\<rparr>,
      l_recvmmsg_vlen = o_recvmmsg_vlen o1, l_nb_parsers = o_nb_parsers o1,
      l_parser_queue_size = unat (o_parsers_queue_size o1), l_monitoring_delay = o_monitoring_delay o1,
      l_msg_dst_ip = o_msg_dst_ip o1, l_legacy_proto = o_legacy o1\<rparr>"
    using assms(3) q1(1) q2(1) set_socket_opt_ok[OF assms(1,2), of "o_msg_dst_ip o1"] d(4)
    by (simp add: unyte_udp_start_collector_def unyte_udp_create_listener_def bind_sys_def sys_return_def)
  then show ?thesis using inv q1(3,4) q2(3-5) mon d(8) by (intro exI[of _ ?c]) simp
qed


text \<open>
  Freeing a collector. With both queues at rest (the one for the summaries may be of size 0) and well-formed messages, both loops end, run
  into no fault, and free exactly the messages and the counter summaries that were
  left in the queues, each once and in order.
\<close>

lemma free_collector_frees_all:
  assumes "queue_inv (c_queue c)" and "queue_inv (c_monitoring_queue c) \<or>
      q_full (c_monitoring_queue c) = 0 \<and> q_list (c_monitoring_queue c) = []"
    and "list_all (\<lambda>x. \<exists>s. x = Some s \<and> options (header s) \<noteq> None) (q_list (c_queue c))"
  shows "unyte_udp_free_collector c = Some (Inr (q_list (c_queue c), q_list (c_monitoring_queue c)))"
proof -
  have "\<forall>x\<in>set (q_list (c_queue c)). \<exists>n. unyte_udp_free_all x = Inr n"
    using assms(3) by (auto simp: list_all_iff unyte_udp_free_all_def unyte_udp_free_options_def)
  then obtain q1 where "drain is_udp_queue_empty unyte_udp_queue_read unyte_udp_free_all [] (c_queue c) =
      Some (Inr (q_list (c_queue c), q1))"
    using ring.drain_run[OF assms(1), of unyte_udp_free_all "[]"] by auto
  moreover obtain q2 where "drain is_udp_queue_empty unyte_udp_queue_read (\<lambda>_. Inr 0) [] (c_monitoring_queue c) =
      Some (Inr (q_list (c_monitoring_queue c), q2))"
    using assms(2) ring.drain_run[of "c_monitoring_queue c" "\<lambda>_. Inr 0" "[]"]
    by (auto simp: drain.simps is_udp_queue_empty_def)
  ultimately show ?thesis by (simp add: unyte_udp_free_collector_def)
qed

section \<open>A system that works\<close>

definition sample_system :: system where
  "sample_system = \<lparr>sys_getaddrinfo = (\<lambda>_ _. None), sys_socket = (\<lambda>_. 3), sys_setsockopt = (\<lambda>_ _. 0),
     sys_bind = (\<lambda>_ _. 0), sys_connect = (\<lambda>_ _. 0),
     sys_getsockname = (\<lambda>_. Some \<lparr>ss_family = 2, ss_port = 10001, ss_addr = [0, 0, 0, 0]\<rparr>)\<rparr>"

definition sample_options :: unyte_udp_options where
  "sample_options = \<lparr>o_socket_fd = 3, o_recvmmsg_vlen = 0, o_msg_dst_ip = True, o_nb_parsers = 0,
     o_output_queue_size = 0, o_parsers_queue_size = 0, o_monitoring_queue_size = 0,
     o_monitoring_delay = 0, o_legacy = False\<rparr>"


end
