(* ===== verification/Pipeline.thy ===== *)
theory Pipeline
  imports Collector
begin

text \<open>
  The components together: the packets of a sent message on their way through the listener and a
  parsing worker to the output queue.
\<close>

section \<open>The segments of a sent message at a worker\<close>

lemma received_kind:
  assumes "packet_ok seg os"
  shows "options_total_bytes (options (header (received um seg))) = Inr (opts_bytes os)"
    "is_segmented (header (received um seg)) (opts_bytes os) \<longleftrightarrow> f_num (header seg) \<noteq> None"
proof -
  have os: "options (header seg) = Some os" using assms by (simp add: packet_ok_def)
  then show "options_total_bytes (options (header (received um seg))) = Inr (opts_bytes os)"
    by (simp add: received_def options_total_bytes_def)
  have "is_segmented (header (received um seg)) (opts_bytes os) \<longleftrightarrow> segment_packet seg os"
    using packet_is_segmented[OF assms] by (simp add: received_def is_segmented_def)
  also have "\<dots> \<longleftrightarrow> f_num (header seg) \<noteq> None"
    using assms by (auto simp: packet_ok_def plain_packet_def segment_packet_def split: option.splits)
  finally show "is_segmented (header (received um seg)) (opts_bytes os) \<longleftrightarrow> f_num (header seg) \<noteq> None" .
qed

lemma inserted_nth:
  assumes p: "packet_of_message msg mtu n i seg" and n: "1 < n" "n \<le> 128" "i < n"
    and ps: "length ps = n" "ps ! i = payload seg"
  shows "inserted buf (received um seg) =
    (case insert_nth (known_or_new (message_at buf (msg_observation_domain_id msg) (msg_message_id msg))
        (msg_observation_domain_id msg) (msg_message_id msg)) ps (sent_options msg) i of (r, m, _) \<Rightarrow> (r, m))"
proof -
  have num: "ucast (of_nat i :: 31 word) = (of_nat i :: u32)"
    using n by (intro word_unat_eq_iff[THEN iffD2]) (simp add: unat_ucast_small unat_of_nat_small)
  have lst: "uint (if Suc i = n then 1 else 0 :: 1 word) = (if Suc i = n then 1 else 0 :: int)"
    by simp
  show ?thesis
    using p n(1) ps num lst
    by (simp add: inserted_def received_def packet_of_message_def insert_nth_def Let_def case_prod_beta)
qed

text \<open>The datagrams of a message in a worker's input queue.\<close>

definition carries :: "unyte_message \<Rightarrow> u32 \<Rightarrow> unyte_seg_met list \<Rightarrow> unyte_min \<Rightarrow> nat \<Rightarrow> bool" where
  "carries msg mtu segs um i \<longleftrightarrow> i < length segs \<and>
     packet_of_message msg mtu (length segs) i (segs ! i) \<and>
     packet_ok (segs ! i) (options_of_nth msg i) \<and>
     (\<exists>junk. um_buffer um = packet_bytes (segs ! i) (options_of_nth msg i) @ junk)"

lemma carries_parsed:
  assumes "carries msg mtu segs um i"
  shows "parse_with_metadata (um_buffer um) um [] = Some (Inr (Some (received um (segs ! i)), []))"
  using assms parse_packet by (auto simp: carries_def)

definition message_of :: "segment_buffer \<Rightarrow> unyte_message \<Rightarrow> message_segment_list option" where
  "message_of buf msg = message_at buf (msg_observation_domain_id msg) (msg_message_id msg)"

abbreviation msl_of :: "segment_buffer \<Rightarrow> unyte_message \<Rightarrow> message_segment_list" where
  "msl_of buf msg \<equiv> known_or_new (message_of buf msg) (msg_observation_domain_id msg) (msg_message_id msg)"

text \<open>One segment arrives at the worker that holds the segments \<open>S\<close> of its message.\<close>

lemma segment_arrives:
  assumes w: "worker_ok w" "\<not> p_legacy_proto w" "cleanup (p_segment_buff w) \<noteq> 1"
    and q: "q_list (p_input w) = Some um # xs"
    and c: "carries msg mtu segs um i" and n: "1 < length segs" "length segs \<le> 128"
    and S: "collected (map payload segs) (sent_options msg) S (msl_of (p_segment_buff w) msg)"
    and ps: "sendable (map payload segs)" and new: "S \<noteq> {..<length segs}"
  shows "\<exists>w' m. parser_step now w [] = Some (Inr (None, w', [])) \<and> worker_ok w' \<and>
    q_list (p_input w') = xs \<and> p_legacy_proto w' = p_legacy_proto w \<and>
    cleanup (p_segment_buff w') = cleanup (p_segment_buff w) \<and>
    collected (map payload segs) (sent_options msg) (insert i S) m \<and>
    (if insert i S = {..<length segs}
     then passed_on w (assembled (received um (segs ! i)) m) w' \<and> message_of (p_segment_buff w') msg = None
     else p_output w' = p_output w \<and> message_of (p_segment_buff w') msg = Some m) \<and>
    (\<forall>o' m'. (o', m') \<noteq> (msg_observation_domain_id msg, msg_message_id msg) \<longrightarrow>
      message_at (p_segment_buff w') o' m' = message_at (p_segment_buff w) o' m')"
proof -
  let ?seg = "received um (segs ! i)" and ?ps = "map payload segs" and ?os = "sent_options msg"
  have i: "i < length segs" and pk: "packet_of_message msg mtu (length segs) i (segs ! i)"
    "packet_ok (segs ! i) (options_of_nth msg i)"
    using c by (simp_all add: carries_def)
  have ids: "observation_domain_id (header ?seg) = msg_observation_domain_id msg"
    "message_id (header ?seg) = msg_message_id msg"
    using pk(1) by (simp_all add: received_def packet_of_message_def)
  have seg: "is_segmented (header ?seg) (opts_bytes (options_of_nth msg i))"
    using received_kind(2)[OF pk(2)] pk(1) n(1) by (simp add: packet_of_message_def)
  obtain r m as where ins: "insert_nth (msl_of (p_segment_buff w) msg) ?ps ?os i = (r, m, as)"
    by (metis prod_cases3)
  have rm: "inserted (p_segment_buff w) ?seg = (r, m)"
    using inserted_nth[OF pk(1) n i, of ?ps "p_segment_buff w" um] ins i by (simp add: message_of_def)
  have col: "collected ?ps ?os (insert i S) m"
    "r = (if i \<in> S then (if S = {..<length ?ps} then -2 else -1)
       else if insert i S = {..<length ?ps} then 1 else 0)"
    using collected_step[OF S ps _ ins] i by simp_all
  have fin: "r = 1 \<or> r = -2 \<longleftrightarrow> insert i S = {..<length segs}"
    using col(2) new by (auto simp: insert_absorb)
  obtain w' where w': "parser_step now w [] = Some (Inr (None, w', []))" "worker_ok w'" "q_list (p_input w') = xs"
    "if r = 1 \<or> r = -2 then passed_on w (assembled ?seg m) w'
     else p_output w' = p_output w \<and> p_counters w' = p_counters w"
    "cleanup (p_segment_buff w') = cleanup (p_segment_buff w)"
    "\<forall>o' m'. message_at (p_segment_buff w') o' m' =
      (if (o', m') = (observation_domain_id (header ?seg), message_id (header ?seg))
       then (if r = 1 \<or> r = -2 then None else Some m) else message_at (p_segment_buff w) o' m')"
    "p_legacy_proto w' = p_legacy_proto w"
    using parser_step_segment[OF w(1,2) q carries_parsed[OF c] received_kind(1)[OF pk(2)] seg rm] w(3) by blast
  have "message_of (p_segment_buff w') msg = (if r = 1 \<or> r = -2 then None else Some m)"
    using w'(6) ids by (simp add: message_of_def)
  moreover have "\<forall>o' m'. (o', m') \<noteq> (msg_observation_domain_id msg, msg_message_id msg) \<longrightarrow>
      message_at (p_segment_buff w') o' m' = message_at (p_segment_buff w) o' m'"
    using w'(6) unfolding ids by metis
  ultimately show ?thesis using w'(1-5,7) col(1) fin by (intro exI[of _ w'] exI[of _ m]) (auto split: if_splits)
qed

text \<open>What the client sees of a message that was sent.\<close>

definition delivered :: "unyte_message \<Rightarrow> unyte_seg_met \<Rightarrow> bool" where
  "delivered msg out \<longleftrightarrow> payload out = take (unat (buffer_len msg)) (msg_buffer msg) \<and>
     observation_domain_id (header out) = msg_observation_domain_id msg \<and>
     message_id (header out) = msg_message_id msg \<and>
     version (header out) = msg_version msg \<and> media_type (header out) = msg_media_type msg \<and>
     options (header out) = Some (sent_options msg)"

lemma assembled_delivered:
  assumes c: "collected (map payload segs) (sent_options msg) {..<length segs} m" and ps: "sendable (map payload segs)"
    and p: "packet_of_message msg mtu n i seg"
    and all: "concat (map payload segs) = take (unat (buffer_len msg)) (msg_buffer msg)"
  shows "delivered msg (assembled (received um seg) m)"
proof -
  have full: "collected (map payload segs) (sent_options msg) {..<length (map payload segs)} m" using c by simp
  note f = collected_full[OF full ps]
  have "copy_segments (segments m) = Inr (concat (map content (segments m)))"
    using c by (intro copy_segments_ok) (simp add: collected_def msl_ok_def)
  then have "concat (map content (segments m)) = concat (map payload segs)"
    using f(1) by (auto simp: reassemble_payload_def split: if_splits)
  then show ?thesis
    using f(2) p all
    by (simp add: delivered_def assembled_def received_def copy_unyte_seg_met_headers_def packet_of_message_def)
qed

section \<open>From the socket to the worker\<close>

text \<open>A receive buffer that datagram \<open>i\<close> of those that were sent has arrived in.\<close>

definition holds_datagram :: "bytes list \<Rightarrow> mmsghdr \<Rightarrow> nat \<Rightarrow> bool" where
  "holds_datagram sent m i \<longleftrightarrow> i < length sent \<and> mm_len m = length (sent ! i) \<and>
     length (mm_buffer m) = UDP_SIZE \<and> take (mm_len m) (mm_buffer m) = sent ! i \<and> mm_name m \<noteq> None"

definition packets_sent :: "unyte_message \<Rightarrow> unyte_seg_met list \<Rightarrow> bytes list" where
  "packets_sent msg segs = map (\<lambda>i. packet_bytes (segs ! i) (options_of_nth msg i)) [0..<length segs]"

definition packets_of :: "unyte_message \<Rightarrow> u32 \<Rightarrow> unyte_seg_met list \<Rightarrow> bool" where
  "packets_of msg mtu segs \<longleftrightarrow>
     (\<forall>i<length segs. packet_of_message msg mtu (length segs) i (segs ! i)) \<and>
     (\<forall>i<length segs. packet_ok (segs ! i) (options_of_nth msg i))"

lemma datagram_identified:
  assumes p: "packets_of msg mtu segs" and m: "holds_datagram (packets_sent msg segs) m i"
  obtains um where "minimal_parse (mm_buffer m) (mm_name m) dst [] = Inr (Some um, [])"
    "carries msg mtu segs um i" "um_observation_domain_id um = msg_observation_domain_id msg"
proof -
  have i: "i < length segs" and buf: "take (mm_len m) (mm_buffer m) = packet_bytes (segs ! i) (options_of_nth msg i)"
    and len: "length (mm_buffer m) = UDP_SIZE"
    using m by (auto simp: holds_datagram_def packets_sent_def)
  have pk: "packet_of_message msg mtu (length segs) i (segs ! i)" "packet_ok (segs ! i) (options_of_nth msg i)"
    using p i by (simp_all add: packets_of_def)
  obtain um where um: "minimal_parse (mm_buffer m) (mm_name m) dst [] = Inr (Some um, [])" "um_buffer um = mm_buffer m"
    using minimal_parse_in[of "mm_buffer m" "mm_name m" dst] len by auto
  have c: "carries msg mtu segs um i"
    using i pk um(2) buf append_take_drop_id[of "mm_len m" "mm_buffer m"]
    unfolding carries_def by metis
  from minimal_parse_ids[OF um(1) carries_parsed[OF c]] pk(1)
  have "um_observation_domain_id um = msg_observation_domain_id msg"
    by (simp add: received_def packet_of_message_def)
  with that um(1) c show thesis by blast
qed

definition worker_of :: "listener_thread_input \<Rightarrow> unyte_message \<Rightarrow> nat" where
  "worker_of inp msg = unat (msg_observation_domain_id msg) mod unat (l_nb_parsers inp)"

section \<open>From the worker to the client\<close>

text \<open>
  The output queue is shared: a worker steps with the queue as it is, and leaves it for the others.
\<close>

definition worker_at :: "listener_state \<Rightarrow> nat \<Rightarrow> parser_thread_input" where
  "worker_at st i = (pw_input (ls_parsers st ! i))\<lparr>p_output := ls_output st\<rparr>"

definition put_worker :: "nat \<Rightarrow> parser_thread_input \<Rightarrow> listener_state \<Rightarrow> listener_state" where
  "put_worker i w st = st\<lparr>ls_output := p_output w,
     ls_parsers := (ls_parsers st)[i := (ls_parsers st ! i)\<lparr>pw_input := w\<rparr>]\<rparr>"

lemma worker_at_ok:
  assumes "listener_ok inp st" "i < length (ls_parsers st)"
  shows "worker_ok (worker_at st i)"
  using assms by (simp add: listener_ok_def worker_at_def worker_ok_def list_all_length)

lemma put_worker_ok:
  assumes "listener_ok inp st" "worker_ok w"
  shows "listener_ok inp (put_worker i w st)"
proof -
  have "queue_inv (p_output w)" using assms(2) by (simp add: worker_ok_def)
  moreover have "\<forall>p\<in>set ((ls_parsers st)[i := (ls_parsers st ! i)\<lparr>pw_input := w\<rparr>]). worker_ok (pw_input p)"
    using assms by (auto simp: listener_ok_def list_all_iff dest!: set_mp[OF set_update_subset_insert])
  ultimately show ?thesis using assms(1) by (simp add: listener_ok_def put_worker_def list_all_iff)
qed

lemma worker_of_less: "listener_ok inp st \<Longrightarrow> worker_of inp msg < length (ls_parsers st)"
  by (simp add: listener_ok_def worker_of_def word_less_nat_alt)

section \<open>The threads together\<close>

text \<open>
  The threads of a running collector. \<open>run_alive\<close> tells which parsing threads are still in their loop: one
  that meets a packet that the parser rejects returns, and one that meets an option list that never ends
  stays in it. The operations are taken one after the other, each with no failing allocation:
  the listener dispatches a batch of datagrams, a worker takes one datagram
  from its queue, a clean-up thread raises its flag, the monitoring thread makes a round
  over the tables of all threads, and the client reads a message or a summary.
\<close>

record collector_run =
  run_state :: listener_state
  run_alive :: "bool list"

definition received_ok :: "mmsghdr \<Rightarrow> bool" where
  "received_ok m \<longleftrightarrow> length (mm_buffer m) = UDP_SIZE \<and> mm_name m \<noteq> None"

definition put_tables :: "seg_counters list \<Rightarrow> listener_state \<Rightarrow> listener_state" where
  "put_tables cs st = st\<lparr>
     ls_parsers := map2 (\<lambda>p c. p\<lparr>pw_input := (pw_input p)\<lparr>p_counters := c\<rparr>\<rparr>) (ls_parsers st) (butlast cs),
     ls_counters := last cs\<rparr>"

inductive collector_step :: "listener_thread_input \<Rightarrow> collector_run \<Rightarrow> collector_run \<Rightarrow> bool" for inp where
  receive: "list_all received_ok ms \<Longrightarrow> listener_round inp (Some ms) (run_state s) [] = Some (Inr (None, st, [])) \<Longrightarrow>
    collector_step inp s (s\<lparr>run_state := st\<rparr>)"
| parse: "i < length (run_alive s) \<Longrightarrow> run_alive s ! i \<Longrightarrow>
    parser_step now (worker_at (run_state s) i) [] = Some (Inr (r, w, [])) \<Longrightarrow>
    collector_step inp s \<lparr>run_state = put_worker i w (run_state s), run_alive = (run_alive s)[i := r = None]\<rparr>"
| parse_forever: "i < length (run_alive s) \<Longrightarrow> run_alive s ! i \<Longrightarrow>
    unyte_udp_queue_read (input_of (run_state s) i) = Some (Inr (Some um, q)) \<Longrightarrow>
    parse_datagram (p_legacy_proto (worker_at (run_state s) i)) um [] = None \<Longrightarrow>
    collector_step inp s \<lparr>run_state = set_parser_queue i q (run_state s), run_alive = (run_alive s)[i := False]\<rparr>"
| clean_up: "i < length (ls_parsers (run_state s)) \<Longrightarrow> t_clean_up (ls_parsers (run_state s) ! i) = Some p \<Longrightarrow>
    collector_step inp s (s\<lparr>run_state := (run_state s)\<lparr>ls_parsers := (ls_parsers (run_state s))[i := p]\<rparr>\<rparr>)"
| monitor: "mw_running (ls_monitoring (run_state s)) \<Longrightarrow>
    monitoring_round (tables (run_state s)) (ls_monitoring_queue (run_state s)) [] = Some (Inr (cs, q, [])) \<Longrightarrow>
    collector_step inp s (s\<lparr>run_state := put_tables cs ((run_state s)\<lparr>ls_monitoring_queue := q\<rparr>)\<rparr>)"
| read_message: "unyte_udp_queue_read (ls_output (run_state s)) = Some (Inr (x, q)) \<Longrightarrow>
    collector_step inp s (s\<lparr>run_state := (run_state s)\<lparr>ls_output := q\<rparr>\<rparr>)"
| read_summary: "unyte_udp_queue_read (ls_monitoring_queue (run_state s)) = Some (Inr (y, q)) \<Longrightarrow>
    collector_step inp s (s\<lparr>run_state := (run_state s)\<lparr>ls_monitoring_queue := q\<rparr>\<rparr>)"

inductive collector_runs :: "listener_thread_input \<Rightarrow> collector_run \<Rightarrow> collector_run \<Rightarrow> bool" for inp start where
  start: "collector_runs inp start start"
| step: "collector_runs inp start s \<Longrightarrow> collector_step inp s s' \<Longrightarrow> collector_runs inp start s'"

definition run_ok :: "listener_thread_input \<Rightarrow> collector_run \<Rightarrow> bool" where
  "run_ok inp s \<longleftrightarrow> listener_ok inp (run_state s) \<and> length (run_alive s) = length (ls_parsers (run_state s)) \<and>
     list_all (\<lambda>p. \<not> p_legacy_proto (pw_input p)) (ls_parsers (run_state s)) \<and>
     (mw_running (ls_monitoring (run_state s)) \<longrightarrow>
       queue_inv (ls_monitoring_queue (run_state s)) \<and> 2 \<le> q_size (ls_monitoring_queue (run_state s)))"

lemma received_batch:
  assumes "list_all received_ok ms" "listener_ok inp st"
  shows "\<exists>st'. dispatch_messages inp ms st [] = Some (Inr (None, st', [])) \<and> listener_ok inp st' \<and>
    map (\<lambda>p. p_legacy_proto (pw_input p)) (ls_parsers st') = map (\<lambda>p. p_legacy_proto (pw_input p)) (ls_parsers st) \<and>
    ls_monitoring st' = ls_monitoring st \<and> ls_monitoring_queue st' = ls_monitoring_queue st"
  using assms
proof (induction ms arbitrary: st)
  case (Cons m ms)
  have "\<exists>st1. dispatch_message inp m st [] = Some (Inr (None, st1, [])) \<and> listener_ok inp st1 \<and>
    map (\<lambda>p. p_legacy_proto (pw_input p)) (ls_parsers st1) = map (\<lambda>p. p_legacy_proto (pw_input p)) (ls_parsers st) \<and>
    ls_monitoring st1 = ls_monitoring st \<and> ls_monitoring_queue st1 = ls_monitoring_queue st"
  proof (cases "mm_len m = 0")
    case True
    with Cons.prems show ?thesis by (simp add: dispatch_message_def)
  next
    case False
    have m: "0 < mm_len m" "length (mm_buffer m) = UDP_SIZE" "mm_name m \<noteq> None"
      using False Cons.prems(1) by (simp_all add: received_ok_def)
    obtain um where um: "minimal_parse (mm_buffer m) (mm_name m) (dest_addr_of inp m) [] = Inr (Some um, [])"
      using minimal_parse_in[of "mm_buffer m" "mm_name m" "dest_addr_of inp m"] m(2) by auto
    define i where "i = unat (um_observation_domain_id um) mod unat (l_nb_parsers inp)"
    obtain st1 q where s: "dispatch_message inp m st [] = Some (Inr (None, st1, []))" "listener_ok inp st1"
      "\<forall>j. j \<noteq> i \<longrightarrow> ls_parsers st1 ! j = ls_parsers st ! j"
      "pw_input (ls_parsers st1 ! i) = (pw_input (ls_parsers st ! i))\<lparr>p_input := q\<rparr>"
      "ls_monitoring st1 = ls_monitoring st" "ls_monitoring_queue st1 = ls_monitoring_queue st"
      using dispatch_message_run[OF Cons.prems(2) m um i_def refl] by blast
    have "map (\<lambda>p. p_legacy_proto (pw_input p)) (ls_parsers st1) = map (\<lambda>p. p_legacy_proto (pw_input p)) (ls_parsers st)"
    proof (rule nth_equalityI)
      fix j assume "j < length (map (\<lambda>p. p_legacy_proto (pw_input p)) (ls_parsers st1))"
      then show "map (\<lambda>p. p_legacy_proto (pw_input p)) (ls_parsers st1) ! j =
          map (\<lambda>p. p_legacy_proto (pw_input p)) (ls_parsers st) ! j"
        using s(2,3,4) Cons.prems(2) by (cases "j = i") (simp_all add: listener_ok_def)
    qed (use s(2) Cons.prems(2) in \<open>simp add: listener_ok_def\<close>)
    with s show ?thesis by blast
  qed
  then obtain st1 where s: "dispatch_message inp m st [] = Some (Inr (None, st1, []))" "listener_ok inp st1"
    "map (\<lambda>p. p_legacy_proto (pw_input p)) (ls_parsers st1) = map (\<lambda>p. p_legacy_proto (pw_input p)) (ls_parsers st)"
    "ls_monitoring st1 = ls_monitoring st" "ls_monitoring_queue st1 = ls_monitoring_queue st"
    by blast
  with Cons.IH[OF _ s(2)] Cons.prems(1) show ?case by auto
qed simp

text \<open>A step of a worker: it waits, it loops for ever, or it returns and stays well formed.\<close>

lemma parser_step_any:
  assumes "worker_ok w" "\<not> p_legacy_proto w" "parser_step now w [] = Some r"
  shows "\<exists>v w'. r = Inr (v, w', []) \<and> worker_ok w' \<and> \<not> p_legacy_proto w'"
proof (cases "q_list (p_input w)")
  case Nil
  then have "unyte_udp_queue_read (p_input w) = None" using assms(1) by (simp add: worker_ok_def read_empty)
  then show ?thesis using assms(3) by (simp add: parser_step_def)
next
  case (Cons x xs)
  show ?thesis
  proof (cases x)
    case None
    obtain q where q: "unyte_udp_queue_read (p_input w) = Some (Inr (None, q))" "queue_inv q" "q_list q = xs"
      using read_nonempty[of "p_input w" None xs] Cons None assms(1) by (metis worker_ok_def)
    then have "r = Inr (None, w\<lparr>p_input := q\<rparr>, [])" using assms(3) by (simp add: parser_step_def)
    then show ?thesis using q Cons assms(1,2) by (simp add: worker_ok_def)
  next
    case (Some um)
    then show ?thesis
      using parser_step_outcome[OF assms(1,2), of um xs now] Cons assms(2,3) by blast
  qed
qed

lemma put_tables_fields:
  assumes "length cs = Suc (length (ls_parsers st))"
  shows "length (ls_parsers (put_tables cs st)) = length (ls_parsers st)"
    "i < length (ls_parsers st) \<Longrightarrow> ls_parsers (put_tables cs st) ! i =
      (ls_parsers st ! i)\<lparr>pw_input := (pw_input (ls_parsers st ! i))\<lparr>p_counters := cs ! i\<rparr>\<rparr>"
    "ls_counters (put_tables cs st) = cs ! length (ls_parsers st)"
    "ls_output (put_tables cs st) = ls_output st" "ls_monitoring (put_tables cs st) = ls_monitoring st"
    "ls_monitoring_queue (put_tables cs st) = ls_monitoring_queue st"
proof -
  have "last cs = cs ! length (ls_parsers st)"
    using assms by (metis diff_Suc_1 last_conv_nth length_0_conv nat.distinct(1))
  then show "ls_counters (put_tables cs st) = cs ! length (ls_parsers st)" by (simp add: put_tables_def)
qed (use assms in \<open>auto simp: put_tables_def nth_butlast\<close>)

lemma put_tables_ok:
  assumes "listener_ok inp st" "list_all counters_ok cs" "length cs = Suc (length (ls_parsers st))"
  shows "listener_ok inp (put_tables cs st)"
  using assms put_tables_fields[OF assms(3)]
  by (auto simp: listener_ok_def list_all_length worker_ok_def)

lemma tables_ok: "listener_ok inp st \<Longrightarrow> list_all counters_ok (tables st)"
  by (auto simp: tables_def listener_ok_def list_all_iff worker_ok_def)

lemma read_keeps:
  assumes "queue_inv q" "unyte_udp_queue_read q = Some (Inr (x, q'))"
  shows "queue_inv q'" "q_size q' = q_size q" "q_list q = x # q_list q'"
proof -
  have "queue_inv q' \<and> q_size q' = q_size q \<and> q_list q = x # q_list q'"
  proof (cases "q_list q")
    case Nil
    then show ?thesis using read_empty[OF assms(1)] assms(2) by simp
  next
    case (Cons y ys)
    then obtain q1 where "unyte_udp_queue_read q = Some (Inr (y, q1))" "queue_inv q1" "q_list q1 = ys" "q_size q1 = q_size q"
      by (rule read_nonempty[OF assms(1)])
    then show ?thesis using assms(2) Cons by simp
  qed
  then show "queue_inv q'" "q_size q' = q_size q" "q_list q = x # q_list q'" by blast+
qed

abbreviation not_legacy :: "listener_state \<Rightarrow> bool" where
  "not_legacy st \<equiv> list_all (\<lambda>p. \<not> p_legacy_proto (pw_input p)) (ls_parsers st)"

lemma not_legacy_map:
  "map (\<lambda>p. p_legacy_proto (pw_input p)) (ls_parsers st') = map (\<lambda>p. p_legacy_proto (pw_input p)) (ls_parsers st) \<Longrightarrow>
    not_legacy st' = not_legacy st"
  by (metis (mono_tags, lifting) list.pred_map comp_apply list.pred_cong)

lemma list_all_update: "list_all P xs \<Longrightarrow> P x \<Longrightarrow> list_all P (xs[i := x])"
  by (auto simp: list_all_iff dest!: set_mp[OF set_update_subset_insert])

lemma worker_in_run:
  assumes "run_ok inp s" "i < length (run_alive s)"
  shows "worker_ok (worker_at (run_state s) i)" "\<not> p_legacy_proto (worker_at (run_state s) i)"
    "worker_ok (pw_input (ls_parsers (run_state s) ! i))" "i < length (ls_parsers (run_state s))"
  using assms worker_at_ok[of inp "run_state s" i]
  by (simp_all add: run_ok_def worker_at_def list_all_length listener_ok_def)

lemma monitor_in_run:
  assumes "run_ok inp s" "mw_running (ls_monitoring (run_state s))"
  shows "\<exists>cs q. monitoring_round (tables (run_state s)) (ls_monitoring_queue (run_state s)) [] = Some (Inr (cs, q, [])) \<and>
    run_ok inp (s\<lparr>run_state := put_tables cs ((run_state s)\<lparr>ls_monitoring_queue := q\<rparr>)\<rparr>)"
proof -
  let ?st = "run_state s"
  have ok: "listener_ok inp ?st" "not_legacy ?st" and q: "queue_inv (ls_monitoring_queue ?st)" "2 \<le> q_size (ls_monitoring_queue ?st)"
    using assms by (simp_all add: run_ok_def)
  obtain cs q' where r: "monitoring_round (tables ?st) (ls_monitoring_queue ?st) [] = Some (Inr (cs, q', []))"
    "length cs = length (tables ?st)" "list_all counters_ok cs" "queue_inv q'" "q_size q' = q_size (ls_monitoring_queue ?st)"
    using monitoring_round_safe[OF tables_ok[OF ok(1)] q] by blast
  let ?st1 = "?st\<lparr>ls_monitoring_queue := q'\<rparr>"
  have len: "length cs = Suc (length (ls_parsers ?st1))" using r(2) by (simp add: tables_def)
  have ok1: "listener_ok inp ?st1" using ok(1) by (simp add: listener_ok_def)
  have "not_legacy (put_tables cs ?st1)"
    using ok(2) put_tables_fields(1,2)[OF len] by (simp add: list_all_length)
  then have "run_ok inp (s\<lparr>run_state := put_tables cs ?st1\<rparr>)"
    using assms(1) put_tables_ok[OF ok1 r(3) len] put_tables_fields[OF len] r(4,5) q(2)
    by (simp add: run_ok_def)
  with r(1) show ?thesis by blast
qed

lemma flagged_buffer_ok: "buffer_ok buf \<Longrightarrow> buffer_ok (buf\<lparr>cleanup := x\<rparr>)"
  by (simp add: buffer_ok_def buckets_ok_def stored_def message_at_def chain_at_def)

lemma collector_step_ok:
  assumes "collector_step inp s s'" "run_ok inp s"
  shows "run_ok inp s'"
  using assms
proof (induction rule: collector_step.induct)
  case (receive ms s st)
  then show ?case
    using received_batch[OF receive(1), of inp "run_state s"] not_legacy_map[of st "run_state s"]
    by (auto simp: run_ok_def listener_round_def dest: map_eq_imp_length_eq)
next
  case (parse i s now r w)
  note w = worker_in_run[OF parse(4,1)]
  have "worker_ok w \<and> \<not> p_legacy_proto w" using parser_step_any[OF w(1,2) parse(3)] by auto
  then show ?case
    using parse(4) put_worker_ok[of inp "run_state s" w i]
    by (simp add: run_ok_def put_worker_def list_all_update)
next
  case (parse_forever i s um q)
  note w = worker_in_run[OF parse_forever(5,1)]
  have inv: "queue_inv (input_of (run_state s) i)" using w(3) by (simp add: worker_ok_def input_of_def)
  note q = read_keeps[OF inv parse_forever(3)]
  let ?w = "(pw_input (ls_parsers (run_state s) ! i))\<lparr>p_input := q\<rparr>"
  have "worker_ok ?w" "\<not> p_legacy_proto ?w"
    using w q by (auto simp: worker_ok_def input_of_def worker_at_def)
  then show ?case
    using parse_forever(5) by (simp add: run_ok_def listener_ok_def set_parser_queue_def list_all_update)
next
  case (clean_up i s p)
  then have p: "worker_ok (pw_input (ls_parsers (run_state s) ! i))" "\<not> p_legacy_proto (pw_input (ls_parsers (run_state s) ! i))"
    by (simp_all add: run_ok_def listener_ok_def list_all_length)
  have "worker_ok (pw_input p)" "\<not> p_legacy_proto (pw_input p)"
    using p clean_up(2)
    by (auto simp: t_clean_up_def worker_ok_def flagged_buffer_ok split: if_splits)
  then show ?case
    using clean_up(3) by (simp add: run_ok_def listener_ok_def list_all_update)
next
  case (monitor s cs q)
  then show ?case using monitor_in_run[OF monitor(3,1)] by simp
next
  case (read_message s x q)
  then show ?case using read_keeps[of "ls_output (run_state s)" x q] by (simp add: run_ok_def listener_ok_def)
next
  case (read_summary s y q)
  then show ?case
    using read_keeps[of "ls_monitoring_queue (run_state s)" y q] by (auto simp: run_ok_def listener_ok_def)
qed

lemma collector_runs_ok: "collector_runs inp start s \<Longrightarrow> run_ok inp start \<Longrightarrow> run_ok inp s"
  by (induction rule: collector_runs.induct) (simp_all add: collector_step_ok)

text \<open>What a collector is started with, and its first state.\<close>

definition startable :: "listener_thread_input \<Rightarrow> nat list \<Rightarrow> bool" where
  "startable inp selves \<longleftrightarrow> 0 < l_nb_parsers inp \<and> unat (l_nb_parsers inp) + 1 < 4294967296 \<and>
     queue_inv (l_output_queue inp) \<and> 0 < l_parser_queue_size inp \<and> length selves = unat (l_nb_parsers inp) \<and>
     \<not> l_legacy_proto inp \<and>
     (q_size (l_monitoring_queue inp) = 0 \<or> queue_inv (l_monitoring_queue inp) \<and> 2 \<le> q_size (l_monitoring_queue inp))"

definition first_run :: "listener_state \<Rightarrow> collector_run" where
  "first_run st = \<lparr>run_state = st, run_alive = map (\<lambda>_. True) (ls_parsers st)\<rparr>"

lemma first_run_ok:
  assumes "startable inp selves" "listener_start inp selves self [] = Inr (Some st, [])"
  shows "run_ok inp (first_run st)"
proof -
  have a: "0 < l_nb_parsers inp" "unat (l_nb_parsers inp) + 1 < 4294967296" "queue_inv (l_output_queue inp)"
    "0 < l_parser_queue_size inp" "length selves = unat (l_nb_parsers inp)"
    using assms(1) by (simp_all add: startable_def)
  have "listener_ok inp st" "list_all (\<lambda>p. p_legacy_proto (pw_input p) = l_legacy_proto inp) (ls_parsers st)"
    "mw_running (ls_monitoring st) \<longleftrightarrow> q_size (l_monitoring_queue inp) \<noteq> 0"
    "ls_monitoring_queue st = l_monitoring_queue inp"
    using listener_start_run[OF a, of self] assms(2) by auto
  with assms(1) show ?thesis
    by (auto simp: run_ok_def first_run_def startable_def list_all_iff)
qed

definition fresh_queue :: "nat \<Rightarrow> 'a unyte_udp_queue" where
  "fresh_queue n = \<lparr>q_head = 0, q_tail = 0, q_size = n, q_empty = n, q_full = 0, q_data = replicate n Uninit\<rparr>"

lemma fresh_queue_ok:
  "0 < n \<Longrightarrow> queue_inv (fresh_queue n)" "q_list (fresh_queue n) = []" "q_size (fresh_queue n) = n"
  by (simp_all add: fresh_queue_def queue_inv_def ring_ok_def q_used_def ring_used_def q_list_def)

end
