(* ===== verification/Many_Messages.thy ===== *)
theory Many_Messages
  imports Pipeline
begin

text \<open>
  Any number of messages on their way through the collector at the same time: their datagrams arrive
  interleaved, the listener spreads them over the parsing workers, and the workers take turns in any order.
  The messages are numbered; an event \<open>(a, i)\<close> is the arrival of datagram \<open>i\<close> of message \<open>a\<close>.
\<close>

section \<open>What is to be delivered\<close>

type_synonym event = "nat \<times> nat"

text \<open>
  The abstract collector: for each message the set of datagrams that have arrived. The datagram that
  makes the set complete delivers the message, which is then forgotten.
\<close>

fun completions :: "(nat \<Rightarrow> nat) \<Rightarrow> (nat \<Rightarrow> nat set) \<Rightarrow> event list \<Rightarrow> nat list" where
  "completions n C [] = []"
| "completions n C ((a, i) # es) =
     (if insert i (C a) = {..<n a} then a # completions n (C(a := {})) es
      else completions n (C(a := insert i (C a))) es)"

definition datagrams_of :: "nat \<Rightarrow> event list \<Rightarrow> nat list" where
  "datagrams_of a es = map snd (filter (\<lambda>e. fst e = a) es)"

lemma datagrams_of_simps [simp]:
  "datagrams_of a [] = []"
  "datagrams_of a ((b, i) # es) = (if b = a then i # datagrams_of a es else datagrams_of a es)"
  by (simp_all add: datagrams_of_def)

lemma completions_none:
  "C a \<union> set (datagrams_of a es) \<noteq> {..<n a} \<Longrightarrow> C a \<union> set (datagrams_of a es) \<subseteq> {..<n a} \<Longrightarrow>
    a \<notin> set (completions n C es)"
proof (induction n C es rule: completions.induct)
  case (2 n C b i es)
  show ?case
  proof (cases "b = a")
    case True
    then have "insert i (C a) \<noteq> {..<n a}" using 2(3,4) by auto
    with True 2(2) 2(3,4) show ?thesis by (simp add: fun_upd_def)
  next
    case False
    with 2 show ?thesis by (cases "insert i (C b) = {..<n b}") (simp_all add: fun_upd_def)
  qed
qed simp

text \<open>A message whose last missing datagram comes at the end is delivered exactly once.\<close>

lemma completions_once:
  assumes "datagrams_of a es = js @ [k]" "C a \<union> set (js @ [k]) = {..<n a}" "k \<notin> C a \<union> set js"
  shows "count_list (completions n C es) a = 1"
  using assms
proof (induction n C es arbitrary: js rule: completions.induct)
  case (2 n C b i es)
  show ?case
  proof (cases "b = a")
    case False
    with 2 show ?thesis by (cases "insert i (C b) = {..<n b}") (simp_all add: fun_upd_def)
  next
    case True
    show ?thesis
    proof (cases js)
      case Nil
      with True 2(3) have e: "i = k" "datagrams_of a es = []" by simp_all
      have "a \<notin> set (completions n (C(a := {})) es)"
        using 2(4) Nil e(2) by (intro completions_none) auto
      then show ?thesis using True Nil e 2(4) by (simp add: count_list_0_iff insert_absorb)
    next
      case (Cons j js')
      with True 2(3) have e: "j = i" "datagrams_of a es = js' @ [k]" by simp_all
      then have "insert i (C a) \<noteq> {..<n a}" using 2(4,5) Cons by auto
      with True Cons e 2(2)[of js'] 2(4,5) show ?thesis by (simp add: fun_upd_def insert_commute)
    qed
  qed
qed simp

text \<open>Workers that take turns: the order in which the events of the workers' queues are dealt with.\<close>

fun scheduled :: "nat list \<Rightarrow> (nat \<Rightarrow> 'e list) \<Rightarrow> 'e list" where
  "scheduled [] ev = []"
| "scheduled (v # vs) ev = (case ev v of [] \<Rightarrow> [] | e # es \<Rightarrow> e # scheduled vs (ev(v := es)))"

lemma scheduled_filter:
  assumes "\<And>v. count_list vs v = length (ev v)" "\<And>v e. e \<in> set (ev v) \<Longrightarrow> P e \<Longrightarrow> v = u"
  shows "filter P (scheduled vs ev) = filter P (ev u)"
  using assms
proof (induction vs arbitrary: ev)
  case (Cons v vs)
  obtain e es where v: "ev v = e # es" using Cons.prems(1)[of v] by (cases "ev v") auto
  have "count_list vs x = length ((ev(v := es)) x)" for x
    using Cons.prems(1)[of x] v by (cases "x = v") auto
  moreover have "x = u" if "y \<in> set ((ev(v := es)) x)" "P y" for x y
    using Cons.prems(2)[of y x] that v by (cases "x = v") auto
  ultimately have IH: "filter P (scheduled vs (ev(v := es))) = filter P ((ev(v := es)) u)"
    by (rule Cons.IH)
  show ?case
  proof (cases "P e")
    case True
    then have "v = u" using Cons.prems(2)[of e v] v by simp
    with True IH v show ?thesis by simp
  next
    case False
    with IH v show ?thesis by (cases "v = u") simp_all
  qed
qed simp

section \<open>One datagram at a worker\<close>

definition sent_as :: "unyte_message \<Rightarrow> u32 \<Rightarrow> unyte_seg_met list \<Rightarrow> bool" where
  "sent_as msg mtu segs \<longleftrightarrow> packets_of msg mtu segs \<and> 0 < length segs \<and> length segs \<le> 128 \<and>
     length (concat (map payload segs)) < 4294967296 \<and>
     concat (map payload segs) = take (unat (buffer_len msg)) (msg_buffer msg)"

text \<open>The datagrams \<open>C\<close> of a message have arrived at the worker with this segmentation buffer.\<close>

definition progress :: "segment_buffer \<Rightarrow> unyte_message \<Rightarrow> unyte_seg_met list \<Rightarrow> nat set \<Rightarrow> bool" where
  "progress buf msg segs C \<longleftrightarrow> C \<subset> {..<length segs} \<and>
     (1 < length segs \<longrightarrow> collected (map payload segs) (sent_options msg) C (msl_of buf msg))"

lemma progress_start:
  "sent_as msg mtu segs \<Longrightarrow> message_of buf msg = None \<Longrightarrow> progress buf msg segs {}"
  by (auto simp: progress_def known_or_new_def collected_new sent_as_def)

lemma progress_frame:
  "progress buf msg segs C \<Longrightarrow> message_of buf' msg = message_of buf msg \<Longrightarrow> progress buf' msg segs C"
  by (simp add: progress_def)

abbreviation ids_of :: "unyte_message \<Rightarrow> u32 \<times> u32" where
  "ids_of msg \<equiv> (msg_observation_domain_id msg, msg_message_id msg)"

lemma packet_arrives:
  assumes w: "worker_ok w" "\<not> p_legacy_proto w" "cleanup (p_segment_buff w) \<noteq> 1"
    and q: "q_list (p_input w) = Some um # xs"
    and c: "carries msg mtu segs um i" and s: "sent_as msg mtu segs"
    and C: "progress (p_segment_buff w) msg segs C"
    and room: "insert i C = {..<length segs} \<Longrightarrow> has_room w"
  shows "\<exists>w'. parser_step now w [] = Some (Inr (None, w', [])) \<and> worker_ok w' \<and>
    q_list (p_input w') = xs \<and> \<not> p_legacy_proto w' \<and> cleanup (p_segment_buff w') \<noteq> 1 \<and>
    q_capacity (p_output w') = q_capacity (p_output w) \<and>
    progress (p_segment_buff w') msg segs (if insert i C = {..<length segs} then {} else insert i C) \<and>
    (if insert i C = {..<length segs}
     then \<exists>out. q_list (p_output w') = q_list (p_output w) @ [Some out] \<and> delivered msg out
     else p_output w' = p_output w) \<and>
    (\<forall>o' m'. (o', m') \<noteq> ids_of msg \<longrightarrow>
      message_at (p_segment_buff w') o' m' = message_at (p_segment_buff w) o' m')"
proof (cases "1 < length segs")
  case True
  let ?full = "insert i C = {..<length segs}"
  have few: "length segs \<le> 128" and ps: "sendable (map payload segs)"
    using s True by (auto simp: sent_as_def sendable_def)
  have col: "collected (map payload segs) (sent_options msg) C (msl_of (p_segment_buff w) msg)"
    and sub: "C \<noteq> {..<length segs}"
    using C True by (auto simp: progress_def)
  obtain w' m where w': "parser_step now w [] = Some (Inr (None, w', []))" "worker_ok w'"
    "q_list (p_input w') = xs" "p_legacy_proto w' = p_legacy_proto w"
    "cleanup (p_segment_buff w') = cleanup (p_segment_buff w)"
    "collected (map payload segs) (sent_options msg) (insert i C) m"
    "if ?full then passed_on w (assembled (received um (segs ! i)) m) w' \<and> message_of (p_segment_buff w') msg = None
     else p_output w' = p_output w \<and> message_of (p_segment_buff w') msg = Some m"
    "\<forall>o' m'. (o', m') \<noteq> ids_of msg \<longrightarrow>
      message_at (p_segment_buff w') o' m' = message_at (p_segment_buff w) o' m'"
    using segment_arrives[OF w q c True few col ps sub] by blast
  have "delivered msg (assembled (received um (segs ! i)) m)" if ?full
    using that w'(6) assembled_delivered[of segs msg m mtu "length segs" i "segs ! i" um] ps s c
    by (simp add: sent_as_def carries_def)
  moreover have "progress (p_segment_buff w') msg segs (if ?full then {} else insert i C)"
  proof (cases ?full)
    case True
    with w'(7) show ?thesis by (simp add: progress_start[OF s])
  next
    case False
    with w'(6,7) show ?thesis by (auto simp: progress_def known_or_new_def collected_def)
  qed
  ultimately show ?thesis
    using w' w(2,3) room by (intro exI[of _ w']) (auto simp: passed_on_def)
next
  case False
  then have one: "length segs = 1" using s by (simp add: sent_as_def del: length_greater_0_conv)
  then have i: "i = 0" and C0: "C = {}" and full: "insert i C = {..<length segs}"
    using c C by (auto simp: carries_def progress_def)
  let ?seg = "received um (segs ! 0)"
  have pk: "packet_of_message msg mtu 1 0 (segs ! 0)" "packet_ok (segs ! 0) (options_of_nth msg 0)"
    using c one i by (simp_all add: carries_def)
  have "f_num (header (segs ! 0)) = None" using pk(1) by (simp add: packet_of_message_def)
  then have plain: "\<not> is_segmented (header ?seg) (opts_bytes (options_of_nth msg 0))"
    using received_kind(2)[OF pk(2)] by simp
  obtain w' where w': "parser_step now w [] = Some (Inr (None, w', []))" "worker_ok w'" "q_list (p_input w') = xs"
    "passed_on w ?seg w'" "p_segment_buff w' = p_segment_buff w" "p_legacy_proto w' = p_legacy_proto w"
    using parser_step_plain[OF w(1,2) q carries_parsed[OF c[unfolded i]] received_kind(1)[OF pk(2)] plain] by blast
  have "delivered msg ?seg"
    using pk(1) s one by (cases segs) (auto simp: delivered_def received_def packet_of_message_def sent_as_def)
  moreover have "q_list (p_output w') = q_list (p_output w) @ [Some ?seg]" "q_capacity (p_output w') = q_capacity (p_output w)"
    using w'(4) room[OF full] by (auto simp: passed_on_def)
  ultimately show ?thesis
    using w' w(2,3) full one by (intro exI[of _ w']) (auto simp: progress_def)
qed

section \<open>Workers taking turns\<close>

text \<open>A message with the packets it was sent in.\<close>

record parcel =
  pc_msg :: unyte_message
  pc_mtu :: u32
  pc_segs :: "unyte_seg_met list"

definition parcels_ok :: "parcel list \<Rightarrow> bool" where
  "parcels_ok P \<longleftrightarrow> list_all (\<lambda>p. sent_as (pc_msg p) (pc_mtu p) (pc_segs p)) P \<and>
     distinct (map (\<lambda>p. ids_of (pc_msg p)) P)"

definition carries_event :: "parcel list \<Rightarrow> unyte_min \<Rightarrow> event \<Rightarrow> bool" where
  "carries_event P um = (\<lambda>(a, i). a < length P \<and> carries (pc_msg (P ! a)) (pc_mtu (P ! a)) (pc_segs (P ! a)) um i)"

abbreviation packets_in :: "parcel list \<Rightarrow> nat \<Rightarrow> nat" where
  "packets_in P a \<equiv> length (pc_segs (P ! a))"

abbreviation msg_of :: "parcel list \<Rightarrow> nat \<Rightarrow> unyte_message" where
  "msg_of P \<equiv> \<lambda>a. pc_msg (P ! a)"

abbreviation worker_for :: "listener_thread_input \<Rightarrow> parcel list \<Rightarrow> nat \<Rightarrow> nat" where
  "worker_for inp P a \<equiv> worker_of inp (pc_msg (P ! a))"

text \<open>
  The state of the collector while the messages are on their way: \<open>C a\<close> are the datagrams of message
  \<open>a\<close> that its worker has dealt with, \<open>ev v\<close> are the events in the input queue of worker \<open>v\<close>.
\<close>

definition worker_in_flight ::
  "listener_thread_input \<Rightarrow> parcel list \<Rightarrow> nat \<Rightarrow> event list \<Rightarrow> parser_thread_input \<Rightarrow> bool" where
  "worker_in_flight inp P v es w \<longleftrightarrow> \<not> p_legacy_proto w \<and> cleanup (p_segment_buff w) \<noteq> 1 \<and>
     (\<exists>ums. q_list (p_input w) = map Some ums \<and> list_all2 (carries_event P) ums es) \<and>
     (\<forall>e\<in>set es. worker_for inp P (fst e) = v)"

definition in_flight ::
  "listener_thread_input \<Rightarrow> parcel list \<Rightarrow> (nat \<Rightarrow> nat set) \<Rightarrow> (nat \<Rightarrow> event list) \<Rightarrow> listener_state \<Rightarrow> bool" where
  "in_flight inp P C ev st \<longleftrightarrow> listener_ok inp st \<and>
     (\<forall>v<length (ls_parsers st). worker_in_flight inp P v (ev v) (pw_input (ls_parsers st ! v))) \<and>
     (\<forall>a<length P. progress (p_segment_buff (pw_input (ls_parsers st ! worker_for inp P a)))
       (pc_msg (P ! a)) (pc_segs (P ! a)) (C a))"

definition arrived :: "(nat \<Rightarrow> nat) \<Rightarrow> (nat \<Rightarrow> nat set) \<Rightarrow> event \<Rightarrow> nat \<Rightarrow> nat set" where
  "arrived n C = (\<lambda>(a, i). C(a := (if insert i (C a) = {..<n a} then {} else insert i (C a))))"

lemma other_message:
  assumes "parcels_ok P" "a < length P" "b < length P" "a \<noteq> b"
  shows "ids_of (pc_msg (P ! b)) \<noteq> ids_of (pc_msg (P ! a))"
  using assms nth_eq_iff_index_eq[of "map (\<lambda>p. ids_of (pc_msg p)) P" b a] by (auto simp: parcels_ok_def)

text \<open>Replacing the worker that dealt with a datagram of message \<open>a\<close>.\<close>

lemma in_flight_update:
  assumes P: "parcels_ok P" and f: "in_flight inp P C ev st" and v: "v < length (ls_parsers st)"
    and a: "a < length P" "worker_for inp P a = v" and ok': "worker_ok w'" and fl: "worker_in_flight inp P v es w'"
    and others: "\<forall>o' m'. (o', m') \<noteq> ids_of (pc_msg (P ! a)) \<longrightarrow>
      message_at (p_segment_buff w') o' m' = message_at (p_segment_buff (worker_at st v)) o' m'"
    and pr: "progress (p_segment_buff w') (pc_msg (P ! a)) (pc_segs (P ! a)) (arrived (packets_in P) C (a, i) a)"
  shows "in_flight inp P (arrived (packets_in P) C (a, i)) (ev(v := es)) (put_worker v w' st)"
proof -
  let ?st = "put_worker v w' st"
  have ok: "listener_ok inp st" using f by (simp add: in_flight_def)
  have st: "ls_parsers ?st ! u = (if u = v then (ls_parsers st ! v)\<lparr>pw_input := w'\<rparr> else ls_parsers st ! u)"
    if "u < length (ls_parsers st)" for u
    using that v by (simp add: put_worker_def)
  have "progress (p_segment_buff (pw_input (ls_parsers ?st ! worker_for inp P b)))
      (pc_msg (P ! b)) (pc_segs (P ! b)) (arrived (packets_in P) C (a, i) b)" if b: "b < length P" for b
  proof (cases "b = a")
    case True
    then show ?thesis using pr a(2) v by (simp add: st)
  next
    case False
    have old: "progress (p_segment_buff (pw_input (ls_parsers st ! worker_for inp P b)))
        (pc_msg (P ! b)) (pc_segs (P ! b)) (C b)"
      using f b by (simp add: in_flight_def)
    have "message_at (p_segment_buff w') (fst (ids_of (pc_msg (P ! b)))) (snd (ids_of (pc_msg (P ! b)))) =
        message_at (p_segment_buff (worker_at st v)) (fst (ids_of (pc_msg (P ! b)))) (snd (ids_of (pc_msg (P ! b))))"
      using others other_message[OF P a(1) b] False by simp
    then have "worker_for inp P b = v \<Longrightarrow> progress (p_segment_buff w') (pc_msg (P ! b)) (pc_segs (P ! b)) (C b)"
      using old by (auto simp: message_of_def worker_at_def elim!: progress_frame)
    then show ?thesis
      using old False worker_of_less[OF ok, of "pc_msg (P ! b)"] by (auto simp: st arrived_def)
  qed
  moreover have "worker_in_flight inp P u ((ev(v := es)) u) (pw_input (ls_parsers ?st ! u))"
    if u: "u < length (ls_parsers ?st)" for u
    using u f fl v by (auto simp: put_worker_def in_flight_def nth_list_update)
  ultimately show ?thesis using put_worker_ok[OF ok ok'] by (simp add: in_flight_def)
qed

text \<open>One step of one worker.\<close>

lemma in_flight_step:
  assumes P: "parcels_ok P" and f: "in_flight inp P C ev st" and v: "v < length (ls_parsers st)"
    and e: "ev v = (a, i) # es"
    and room: "insert i (C a) = {..<packets_in P a} \<Longrightarrow> length (q_list (ls_output st)) < q_capacity (ls_output st)"
  shows "\<exists>w. parser_step now (worker_at st v) [] = Some (Inr (None, w, [])) \<and>
    in_flight inp P (arrived (packets_in P) C (a, i)) (ev(v := es)) (put_worker v w st) \<and>
    q_capacity (p_output w) = q_capacity (ls_output st) \<and>
    (if insert i (C a) = {..<packets_in P a}
     then \<exists>out. q_list (p_output w) = q_list (ls_output st) @ [Some out] \<and> delivered (pc_msg (P ! a)) out
     else p_output w = ls_output st)"
proof -
  let ?w = "worker_at st v" and ?msg = "pc_msg (P ! a)" and ?segs = "pc_segs (P ! a)"
  have ok: "listener_ok inp st" using f by (simp add: in_flight_def)
  have fl: "worker_in_flight inp P v ((a, i) # es) (pw_input (ls_parsers st ! v))"
    using f v e by (auto simp: in_flight_def)
  obtain um ums where q: "q_list (p_input ?w) = Some um # map Some ums" "carries_event P um (a, i)"
    "list_all2 (carries_event P) ums es"
    using fl by (auto simp: worker_in_flight_def worker_at_def list_all2_Cons2)
  have a: "a < length P" "worker_for inp P a = v" "carries ?msg (pc_mtu (P ! a)) ?segs um i"
    using q(2) fl by (simp_all add: carries_event_def worker_in_flight_def)
  have s: "sent_as ?msg (pc_mtu (P ! a)) ?segs" using P a(1) by (simp add: parcels_ok_def list_all_length)
  have w: "worker_ok ?w" "\<not> p_legacy_proto ?w" "cleanup (p_segment_buff ?w) \<noteq> 1"
    using worker_at_ok[OF ok v] fl by (simp_all add: worker_in_flight_def worker_at_def)
  have pr: "progress (p_segment_buff ?w) ?msg ?segs (C a)"
    using f a(1,2) by (auto simp: in_flight_def worker_at_def)
  have rm: "insert i (C a) = {..<length ?segs} \<Longrightarrow> has_room ?w"
    using room by (simp add: has_room_def worker_at_def q_capacity_def)
  obtain w' where w': "parser_step now ?w [] = Some (Inr (None, w', []))" "worker_ok w'"
    "q_list (p_input w') = map Some ums" "\<not> p_legacy_proto w'" "cleanup (p_segment_buff w') \<noteq> 1"
    "q_capacity (p_output w') = q_capacity (p_output ?w)"
    "progress (p_segment_buff w') ?msg ?segs (if insert i (C a) = {..<length ?segs} then {} else insert i (C a))"
    "if insert i (C a) = {..<length ?segs}
     then \<exists>out. q_list (p_output w') = q_list (p_output ?w) @ [Some out] \<and> delivered ?msg out
     else p_output w' = p_output ?w"
    "\<forall>o' m'. (o', m') \<noteq> ids_of ?msg \<longrightarrow> message_at (p_segment_buff w') o' m' = message_at (p_segment_buff ?w) o' m'"
    using packet_arrives[OF w q(1) a(3) s pr rm] by blast
  have out: "p_output ?w = ls_output st" by (simp add: worker_at_def)
  have "worker_in_flight inp P v es w'" using w'(3-5) q(3) fl by (auto simp: worker_in_flight_def)
  then have "in_flight inp P (arrived (packets_in P) C (a, i)) (ev(v := es)) (put_worker v w' st)"
    using w'(7) by (intro in_flight_update[OF P f v a(1,2) w'(2) _ w'(9)]) (simp_all add: arrived_def)
  then show ?thesis using w'(1) w'(6,8)[unfolded out] by blast
qed

text \<open>Any order of steps: worker and time of each. A worker that returns ends the run.\<close>

fun workers_steps :: "(nat \<times> int) list \<Rightarrow> listener_state \<Rightarrow> (fault + (int option \<times> listener_state)) option" where
  "workers_steps [] st = Some (Inr (None, st))"
| "workers_steps ((v, now) # ts) st =
     bind_run (parser_step now (worker_at st v) []) (\<lambda>(r, w, _).
     case r of
       None \<Rightarrow> workers_steps ts (put_worker v w st)
     | Some x \<Rightarrow> Some (Inr (Some x, put_worker v w st)))"

lemma completions_Cons:
  "completions n C (e # es) =
    (if insert (snd e) (C (fst e)) = {..<n (fst e)} then [fst e] else []) @ completions n (arrived n C e) es"
  by (cases e) (simp add: arrived_def)

lemma in_flight_run:
  assumes P: "parcels_ok P"
  shows "in_flight inp P C ev st \<Longrightarrow> (\<And>v. count_list (map fst ts) v = length (ev v)) \<Longrightarrow>
    (\<And>v. length (ls_parsers st) \<le> v \<Longrightarrow> ev v = []) \<Longrightarrow>
    order = completions (packets_in P) C (scheduled (map fst ts) ev) \<Longrightarrow>
    length (q_list (ls_output st)) + length order \<le> q_capacity (ls_output st) \<Longrightarrow>
    \<exists>st' C' outs. workers_steps ts st = Some (Inr (None, st')) \<and> in_flight inp P C' (\<lambda>_. []) st' \<and>
      q_list (ls_output st') = q_list (ls_output st) @ map Some outs \<and>
      list_all2 (\<lambda>a out. delivered (pc_msg (P ! a)) out) order outs"
proof (induction ts arbitrary: C ev st order)
  case Nil
  then have "ev = (\<lambda>_. [])" by auto
  then show ?case using Nil by auto
next
  case (Cons t ts)
  obtain v now where t: "t = (v, now)" by fastforce
  obtain a i es where e: "ev v = (a, i) # es"
    using Cons.prems(2)[of v] t by (cases "ev v") auto
  have v: "v < length (ls_parsers st)" using Cons.prems(3)[of v] e by (metis list.distinct(1) not_less)
  let ?full = "insert i (C a) = {..<packets_in P a}"
  let ?C = "arrived (packets_in P) C (a, i)" and ?ev = "ev(v := es)"
  let ?order = "completions (packets_in P) ?C (scheduled (map fst ts) ?ev)"
  have order: "order = (if ?full then [a] else []) @ ?order"
    unfolding Cons.prems(4) using t e completions_Cons[of "packets_in P" C "(a, i)"] by simp
  have room: "length (q_list (ls_output st)) < q_capacity (ls_output st)" if ?full
    using Cons.prems(5) order that by (simp del: length_q_list)
  obtain w where w: "parser_step now (worker_at st v) [] = Some (Inr (None, w, []))"
    "in_flight inp P ?C ?ev (put_worker v w st)" "q_capacity (p_output w) = q_capacity (ls_output st)"
    "if ?full then \<exists>out. q_list (p_output w) = q_list (ls_output st) @ [Some out] \<and> delivered (pc_msg (P ! a)) out
     else p_output w = ls_output st"
    using in_flight_step[OF P Cons.prems(1) v e room] by blast
  obtain o1 where o1: "q_list (p_output w) = q_list (ls_output st) @ map Some o1"
    "list_all2 (\<lambda>a out. delivered (pc_msg (P ! a)) out) (if ?full then [a] else []) o1"
    using w(4) by (cases ?full) (auto, metis list.simps(8,9) list_all2_Cons list_all2_Nil)
  let ?st = "put_worker v w st"
  have st: "ls_output ?st = p_output w" "length (ls_parsers ?st) = length (ls_parsers st)"
    by (simp_all add: put_worker_def)
  have cnt: "count_list (map fst ts) u = length (?ev u)" for u
    using Cons.prems(2)[of u] t e by (cases "u = v") auto
  have none: "?ev u = []" if "length (ls_parsers ?st) \<le> u" for u
    using that Cons.prems(3)[of u] st v by (cases "u = v") auto
  have "length o1 = length (if ?full then [a] else [])" using o1(2) by (simp add: list_all2_lengthD)
  then have cap: "length (q_list (ls_output ?st)) + length ?order \<le> q_capacity (ls_output ?st)"
    using Cons.prems(5) w(3) arg_cong[OF o1(1), of length] arg_cong[OF order, of length]
    unfolding st by (simp del: length_q_list)
  obtain st' C' outs where r: "workers_steps ts ?st = Some (Inr (None, st'))" "in_flight inp P C' (\<lambda>_. []) st'"
    "q_list (ls_output st') = q_list (ls_output ?st) @ map Some outs"
    "list_all2 (\<lambda>a out. delivered (pc_msg (P ! a)) out) ?order outs"
    using Cons.IH[OF w(2) cnt none refl cap] by blast
  have "list_all2 (\<lambda>a out. delivered (pc_msg (P ! a)) out) order (o1 @ outs)"
    unfolding order by (rule list_all2_appendI[OF o1(2) r(4)])
  then show ?case
    using r(1-3) w(1) o1(1) t st(1) by (intro exI[of _ st'] exI[of _ C'] exI[of _ "o1 @ outs"]) simp
qed

section \<open>From the socket to the workers\<close>

text \<open>A receive buffer that holds a datagram of one of the messages.\<close>

definition holds_event :: "parcel list \<Rightarrow> mmsghdr \<Rightarrow> event \<Rightarrow> bool" where
  "holds_event P m = (\<lambda>(a, i). a < length P \<and> holds_datagram (packets_sent (pc_msg (P ! a)) (pc_segs (P ! a))) m i)"

text \<open>The events of the messages whose domain belongs to a worker.\<close>

definition events_for ::
  "listener_thread_input \<Rightarrow> (nat \<Rightarrow> unyte_message) \<Rightarrow> event list \<Rightarrow> nat \<Rightarrow> event list" where
  "events_for inp msg es v = filter (\<lambda>e. worker_of inp (msg (fst e)) = v) es"

lemma packets_nonempty:
  assumes "packets_of msg mtu segs" "i < length segs"
  shows "packets_sent msg segs ! i \<noteq> []"
  using assms length_packet_bytes
  by (fastforce simp: packets_of_def packets_sent_def packet_ok_def plain_packet_def segment_packet_def)

lemma event_dispatched:
  assumes P: "parcels_ok P" and ev: "holds_event P m e" and ok: "listener_ok inp st" and w: "w = worker_for inp P (fst e)"
    and room: "length (q_list (input_of st w)) < q_size (input_of st w) - 1"
  obtains um st1 q1 where "dispatch_message inp m st [] = Some (Inr (None, st1, []))" "listener_ok inp st1"
    "q_list (input_of st1 w) = q_list (input_of st w) @ [Some um]"
    "\<forall>j. j \<noteq> w \<longrightarrow> ls_parsers st1 ! j = ls_parsers st ! j"
    "pw_input (ls_parsers st1 ! w) = (pw_input (ls_parsers st ! w))\<lparr>p_input := q1\<rparr>"
    "q_size q1 = q_size (input_of st w)" "ls_output st1 = ls_output st"
    "length (ls_parsers st1) = length (ls_parsers st)" "carries_event P um e"
proof -
  obtain a i where e: "e = (a, i)" by fastforce
  let ?segs = "pc_segs (P ! a)" and ?msg = "pc_msg (P ! a)"
  have a: "a < length P" and h: "holds_datagram (packets_sent ?msg ?segs) m i"
    using ev e by (simp_all add: holds_event_def)
  have pk: "packets_of ?msg (pc_mtu (P ! a)) ?segs"
    using P a by (simp add: parcels_ok_def sent_as_def list_all_length)
  have i: "i < length ?segs" and m: "length (mm_buffer m) = UDP_SIZE" "mm_name m \<noteq> None"
    using h by (auto simp: holds_datagram_def packets_sent_def)
  have pos: "0 < mm_len m" using h packets_nonempty[OF pk i] by (simp add: holds_datagram_def)
  obtain um where um: "minimal_parse (mm_buffer m) (mm_name m) (dest_addr_of inp m) [] = Inr (Some um, [])"
    "carries ?msg (pc_mtu (P ! a)) ?segs um i" "um_observation_domain_id um = msg_observation_domain_id ?msg"
    by (rule datagram_identified[OF pk h])
  have w': "w = unat (um_observation_domain_id um) mod unat (l_nb_parsers inp)"
    using um(3) w e by (simp add: worker_of_def)
  have room': "True \<longleftrightarrow> length (q_list (input_of st w)) < q_size (input_of st w) - 1" using room by blast
  obtain st1 q1 where s: "dispatch_message inp m st [] = Some (Inr (None, st1, []))" "listener_ok inp st1"
    "q_list (input_of st1 w) = q_list (input_of st w) @ [Some um]"
    "\<forall>j. j \<noteq> w \<longrightarrow> ls_parsers st1 ! j = ls_parsers st ! j"
    "pw_input (ls_parsers st1 ! w) = (pw_input (ls_parsers st ! w))\<lparr>p_input := q1\<rparr>"
    "q_size q1 = q_size (input_of st w)" "ls_output st1 = ls_output st"
    using dispatch_message_run[OF ok pos m um(1) w' room'] by auto
  have "length (ls_parsers st1) = length (ls_parsers st)" using s(2) ok by (simp add: listener_ok_def)
  moreover have "carries_event P um e" using um(2) a e by (simp add: carries_event_def)
  ultimately show thesis using s that by blast
qed

lemma events_dispatched:
  assumes P: "parcels_ok P"
  shows "list_all2 (holds_event P) ms es \<Longrightarrow> listener_ok inp st \<Longrightarrow>
    (\<And>v. v < length (ls_parsers st) \<Longrightarrow>
      length (q_list (input_of st v)) + length (events_for inp (msg_of P) es v) < q_size (input_of st v)) \<Longrightarrow>
    \<exists>st' U. dispatch_messages inp ms st [] = Some (Inr (None, st', [])) \<and> listener_ok inp st' \<and>
      length (ls_parsers st') = length (ls_parsers st) \<and> ls_output st' = ls_output st \<and>
      (\<forall>v<length (ls_parsers st). \<exists>q.
        pw_input (ls_parsers st' ! v) = (pw_input (ls_parsers st ! v))\<lparr>p_input := q\<rparr> \<and>
        q_list q = q_list (input_of st v) @ map Some (U v) \<and>
        list_all2 (carries_event P) (U v) (events_for inp (msg_of P) es v))"
proof (induction arbitrary: st rule: list_all2_induct)
  case Nil
  have "pw_input (ls_parsers st ! v) = (pw_input (ls_parsers st ! v))\<lparr>p_input := input_of st v\<rparr>" for v
    by (simp add: input_of_def)
  then show ?case
    using Nil(1) by (intro exI[of _ st] exI[of _ "\<lambda>_. []"]) (auto simp: events_for_def)
next
  case (Cons m ms e es)
  let ?w = "worker_for inp P (fst e)"
  have wl: "?w < length (ls_parsers st)" by (rule worker_of_less[OF Cons.prems(1)])
  have ef: "events_for inp (msg_of P) (e # es) v = (if v = ?w then [e] else []) @ events_for inp (msg_of P) es v" for v
    by (simp add: events_for_def)
  have room: "length (q_list (input_of st ?w)) < q_size (input_of st ?w) - 1"
    using Cons.prems(2)[OF wl] ef[of ?w] by (simp del: length_q_list)
  obtain um st1 q1 where s: "dispatch_message inp m st [] = Some (Inr (None, st1, []))" "listener_ok inp st1"
    "q_list (input_of st1 ?w) = q_list (input_of st ?w) @ [Some um]"
    "\<forall>j. j \<noteq> ?w \<longrightarrow> ls_parsers st1 ! j = ls_parsers st ! j"
    "pw_input (ls_parsers st1 ! ?w) = (pw_input (ls_parsers st ! ?w))\<lparr>p_input := q1\<rparr>"
    "q_size q1 = q_size (input_of st ?w)" "ls_output st1 = ls_output st"
    and len: "length (ls_parsers st1) = length (ls_parsers st)" and ce: "carries_event P um e"
    by (rule event_dispatched[OF P Cons.hyps(1) Cons.prems(1) refl room])
  have q1: "input_of st1 ?w = q1" using s(5) by (simp add: input_of_def)
  have old: "input_of st1 v = input_of st v" if "v \<noteq> ?w" for v using s(4) that by (simp add: input_of_def)
  have room1: "length (q_list (input_of st1 v)) + length (events_for inp (msg_of P) es v) < q_size (input_of st1 v)"
    if "v < length (ls_parsers st1)" for v
    using Cons.prems(2)[of v] that len ef[of v] old[of v] arg_cong[OF s(3), of length] s(6) q1
    by (cases "v = ?w") (simp_all del: length_q_list)
  obtain st' U where t: "dispatch_messages inp ms st1 [] = Some (Inr (None, st', []))" "listener_ok inp st'"
    "length (ls_parsers st') = length (ls_parsers st1)" "ls_output st' = ls_output st1"
    and tq: "\<forall>v<length (ls_parsers st1). \<exists>q.
        pw_input (ls_parsers st' ! v) = (pw_input (ls_parsers st1 ! v))\<lparr>p_input := q\<rparr> \<and>
        q_list q = q_list (input_of st1 v) @ map Some (U v) \<and>
        list_all2 (carries_event P) (U v) (events_for inp (msg_of P) es v)"
    using Cons.IH[OF s(2) room1] by blast
  let ?U = "U(?w := um # U ?w)"
  have "\<exists>q. pw_input (ls_parsers st' ! v) = (pw_input (ls_parsers st ! v))\<lparr>p_input := q\<rparr> \<and>
        q_list q = q_list (input_of st v) @ map Some (?U v) \<and>
        list_all2 (carries_event P) (?U v) (events_for inp (msg_of P) (e # es) v)" if v: "v < length (ls_parsers st)" for v
  proof -
    obtain q where q: "pw_input (ls_parsers st' ! v) = (pw_input (ls_parsers st1 ! v))\<lparr>p_input := q\<rparr>"
      "q_list q = q_list (input_of st1 v) @ map Some (U v)"
      "list_all2 (carries_event P) (U v) (events_for inp (msg_of P) es v)"
      using tq v len by auto
    then show ?thesis
      using s(3,4,5) old[of v] ef[of v] ce by (intro exI[of _ q]) (cases "v = ?w"; simp)
  qed
  then show ?case using s(1,7) t len by (intro exI[of _ st'] exI[of _ ?U]) simp
qed

lemma events_in_flight:
  assumes P: "parcels_ok P" and "list_all2 (holds_event P) ms es" and ok: "listener_ok inp st"
    and idle: "\<And>v. v < length (ls_parsers st) \<Longrightarrow> q_list (input_of st v) = [] \<and>
      length (events_for inp (msg_of P) es v) < q_size (input_of st v) \<and>
      \<not> p_legacy_proto (worker_at st v) \<and> cleanup (p_segment_buff (worker_at st v)) \<noteq> 1"
    and new: "\<And>a. a < length P \<Longrightarrow>
      message_of (p_segment_buff (worker_at st (worker_for inp P a))) (pc_msg (P ! a)) = None"
  shows "\<exists>st'. dispatch_messages inp ms st [] = Some (Inr (None, st', [])) \<and> ls_output st' = ls_output st \<and>
    length (ls_parsers st') = length (ls_parsers st) \<and> in_flight inp P (\<lambda>_. {}) (events_for inp (msg_of P) es) st'"
proof -
  obtain st' U where t: "dispatch_messages inp ms st [] = Some (Inr (None, st', []))" "listener_ok inp st'"
    "length (ls_parsers st') = length (ls_parsers st)" "ls_output st' = ls_output st"
    and tq: "\<forall>v<length (ls_parsers st). \<exists>q.
        pw_input (ls_parsers st' ! v) = (pw_input (ls_parsers st ! v))\<lparr>p_input := q\<rparr> \<and>
        q_list q = q_list (input_of st v) @ map Some (U v) \<and>
        list_all2 (carries_event P) (U v) (events_for inp (msg_of P) es v)"
    using events_dispatched[OF assms(1,2) ok] idle by (auto simp del: length_q_list)
  have "worker_in_flight inp P v (events_for inp (msg_of P) es v) (pw_input (ls_parsers st' ! v))"
    if v: "v < length (ls_parsers st')" for v
  proof -
    obtain q where "pw_input (ls_parsers st' ! v) = (pw_input (ls_parsers st ! v))\<lparr>p_input := q\<rparr>"
      "q_list q = map Some (U v)" "list_all2 (carries_event P) (U v) (events_for inp (msg_of P) es v)"
      using tq v t(3) idle by fastforce
    then show ?thesis
      using idle[of v] v t(3) by (auto simp: worker_in_flight_def worker_at_def events_for_def)
  qed
  moreover have "progress (p_segment_buff (pw_input (ls_parsers st' ! worker_for inp P a)))
      (pc_msg (P ! a)) (pc_segs (P ! a)) {}" if a: "a < length P" for a
  proof -
    obtain q where "pw_input (ls_parsers st' ! worker_for inp P a) =
        (pw_input (ls_parsers st ! worker_for inp P a))\<lparr>p_input := q\<rparr>"
      using tq worker_of_less[OF ok, of "pc_msg (P ! a)"] by blast
    then show ?thesis
      using new[OF a] P a
      by (intro progress_start) (auto simp: parcels_ok_def list_all_length worker_at_def)
  qed
  ultimately show ?thesis using t by (auto simp: in_flight_def)
qed

section \<open>Every message once\<close>

lemma completions_subset: "set (completions n C es) \<subseteq> fst ` set es"
  by (induction es arbitrary: C) (auto simp: completions_Cons simp del: completions.simps(2) split: if_splits)

lemma scheduled_subset: "set (scheduled vs ev) \<subseteq> (\<Union>v. set (ev v))"
proof (induction vs arbitrary: ev)
  case (Cons v vs)
  note IH = Cons.IH
  show ?case
  proof (cases "ev v")
    case (Cons e es)
    have "(\<Union>u. set ((ev(v := es)) u)) \<subseteq> (\<Union>u. set (ev u))"
    proof (rule UN_least)
      fix u
      have "set ((ev(v := es)) u) \<subseteq> set (ev u)" using Cons by (cases "u = v") auto
      then show "set ((ev(v := es)) u) \<subseteq> (\<Union>u. set (ev u))" by blast
    qed
    note sub = subset_trans[OF IH[of "ev(v := es)"] this]
    have "e \<in> (\<Union>u. set (ev u))" using Cons by (auto intro: exI[of _ v])
    with sub show ?thesis by (simp only: scheduled.simps Cons list.case list.set insert_subset)
  qed simp
qed simp

lemma distinct_counts: "(\<And>x. x \<in> set xs \<Longrightarrow> count_list xs x = 1) \<Longrightarrow> distinct xs"
proof (induction xs)
  case (Cons x xs)
  have "x \<notin> set xs" using Cons.prems[of x] by (simp add: count_list_0_iff)
  moreover have "count_list xs y = 1" if "y \<in> set xs" for y
    using Cons.prems[of y] that \<open>x \<notin> set xs\<close> by (auto split: if_splits)
  ultimately show ?case using Cons.IH by simp
qed simp

lemma datagrams_scheduled:
  assumes "\<And>v. count_list vs v = length (events_for inp msg es v)"
  shows "datagrams_of a (scheduled vs (events_for inp msg es)) = datagrams_of a es"
proof -
  have "filter (\<lambda>e. fst e = a) (scheduled vs (events_for inp msg es)) =
      filter (\<lambda>e. fst e = a) (events_for inp msg es (worker_of inp (msg a)))"
    by (rule scheduled_filter[OF assms]) (auto simp: events_for_def)
  also have "\<dots> = filter (\<lambda>e. fst e = a) es" by (auto simp: events_for_def intro: filter_cong)
  finally show ?thesis by (simp add: datagrams_of_def)
qed

text \<open>
  All datagrams of a message, of one packet or more, in any order and with repetitions before the
  last one that was missing.
\<close>

definition arrival :: "nat \<Rightarrow> nat list \<Rightarrow> bool" where
  "arrival n js \<longleftrightarrow> js \<noteq> [] \<and> set js = {..<n} \<and> last js \<notin> set (butlast js)"

lemma each_message_once:
  assumes sched: "\<And>v. count_list vs v = length (events_for inp msg es v)"
    and es: "\<And>e. e \<in> set es \<Longrightarrow> fst e < k"
    and arr: "\<And>a. a < k \<Longrightarrow> arrival (n a) (datagrams_of a es)"
    and order: "order = completions n (\<lambda>_. {}) (scheduled vs (events_for inp msg es))"
  shows "distinct order \<and> set order = {..<k}"
proof -
  have sub: "set order \<subseteq> {..<k}"
    using completions_subset[of n "\<lambda>_. {}" "scheduled vs (events_for inp msg es)"]
      scheduled_subset[of vs "events_for inp msg es"] es
    unfolding order by (fastforce simp: events_for_def)
  have one: "count_list order a = 1" if a: "a < k" for a
  proof -
    obtain js j where js: "datagrams_of a es = js @ [j]" using arr[OF a] by (cases "datagrams_of a es" rule: rev_cases) (auto simp: arrival_def)
    show ?thesis
      unfolding order
    proof (rule completions_once)
      show "datagrams_of a (scheduled vs (events_for inp msg es)) = js @ [j]"
        unfolding datagrams_scheduled[OF sched] by (rule js)
    qed (use arr[OF a] js in \<open>auto simp: arrival_def\<close>)
  qed
  then have "distinct order" using sub by (intro distinct_counts) auto
  moreover have "a \<in> set order" if "a < k" for a using one[OF that] count_list_0_iff[of order a] by auto
  ultimately show ?thesis using sub by auto
qed

text \<open>The senders' messages as parcels.\<close>

definition sent_by :: "unyte_sender_socket \<Rightarrow> unyte_message \<Rightarrow> bytes list \<Rightarrow> bool" where
  "sent_by sk msg sent \<longleftrightarrow> good_message msg (chosen_mtu sk msg) \<and> packet_count msg (chosen_mtu sk msg) \<le> 128 \<and>
     unyte_send sk msg [] = Inr (0, sent, [])"

lemma sent_parcel:
  assumes "sent_by sk msg sent"
  shows "\<exists>segs. sent_as msg (chosen_mtu sk msg) segs \<and> sent = packets_sent msg segs"
proof -
  obtain segs where segs: "length segs = packet_count msg (chosen_mtu sk msg)"
    "concat (map payload segs) = take (unat (buffer_len msg)) (msg_buffer msg)"
    "\<forall>i<length segs. packet_of_message msg (chosen_mtu sk msg) (length segs) i (segs ! i)"
    "\<forall>i<length segs. packet_ok (segs ! i) (options_of_nth msg i)"
    "unyte_send sk msg [] =
      Inr (0, map (\<lambda>i. packet_bytes (segs ! i) (options_of_nth msg i)) [0..<length segs], [])"
    using assms by (auto simp: sent_by_def elim: unyte_send_packets)
  have "length (concat (map payload segs)) < 4294967296"
    unfolding segs(2) using u32_less[of "buffer_len msg"] by (simp add: min_less_iff_disj)
  moreover have "0 < packet_count msg (chosen_mtu sk msg)"
  proof (cases "HEADER_BYTES + opts_size (sent_options msg) + unat (buffer_len msg) \<le> unat (chosen_mtu sk msg)")
    case False
    have "16 < unat (chosen_mtu sk msg)" using assms by (simp add: sent_by_def good_message_def)
    with False have "0 < unat (chosen_mtu sk msg) - 16"
      "unat (chosen_mtu sk msg) - 16 < opts_size (sent_options msg) + unat (buffer_len msg)" by linarith+
    from segments_needed_bounds(3)[OF this] False show ?thesis by (simp add: packet_count_def)
  qed (simp add: packet_count_def)
  ultimately show ?thesis
    using segs assms by (intro exI[of _ segs]) (auto simp: sent_as_def packets_of_def packets_sent_def sent_by_def)
qed

lemma arrived_cong: "n (fst e) = n' (fst e) \<Longrightarrow> arrived n C e = arrived n' C e"
  by (cases e) (simp add: arrived_def)

lemma completions_cong:
  "(\<And>e. e \<in> set es \<Longrightarrow> n (fst e) = n' (fst e)) \<Longrightarrow> completions n C es = completions n' C es"
proof (induction es arbitrary: C)
  case (Cons e es)
  then show ?case using arrived_cong[of n e n'] by (simp add: completions_Cons del: completions.simps(2))
qed simp

text \<open>The parcels of the messages that were sent, and the domains of their events.\<close>

lemma parcels_of_messages:
  assumes sent: "\<And>a. a < k \<Longrightarrow> sent_by (sk a) (msg a) (sent a)" and ids: "inj_on (\<lambda>a. ids_of (msg a)) {..<k}"
  obtains P where "length P = k" "parcels_ok P"
    "\<And>a. a < k \<Longrightarrow> pc_msg (P ! a) = msg a \<and> sent a = packets_sent (msg a) (pc_segs (P ! a))"
proof -
  have "\<forall>a. \<exists>segs. a < k \<longrightarrow> sent_as (msg a) (chosen_mtu (sk a) (msg a)) segs \<and> sent a = packets_sent (msg a) segs"
    using sent_parcel[OF sent] by blast
  then obtain segs where segs: "\<And>a. a < k \<Longrightarrow> sent_as (msg a) (chosen_mtu (sk a) (msg a)) (segs a) \<and>
      sent a = packets_sent (msg a) (segs a)"
    by metis
  define P where "P = map (\<lambda>a. \<lparr>pc_msg = msg a, pc_mtu = chosen_mtu (sk a) (msg a), pc_segs = segs a\<rparr>) [0..<k]"
  have "parcels_ok P"
    using segs ids by (simp add: parcels_ok_def list_all_length P_def distinct_map comp_def atLeast0LessThan)
  then show thesis using segs by (intro that[of P]) (simp_all add: P_def)
qed

lemma scheduled_events_less:
  assumes "list_all2 (\<lambda>m (a, i). a < k \<and> Q m a i) ms es"
  shows "e \<in> set es \<Longrightarrow> fst e < k" "e \<in> set (scheduled vs (events_for inp msg es)) \<Longrightarrow> fst e < k"
proof -
  show es: "fst e < k" if "e \<in> set es" for e
    using assms that by (auto simp: list_all2_conv_all_nth in_set_conv_nth case_prod_beta)
  assume "e \<in> set (scheduled vs (events_for inp msg es))"
  then obtain v where "e \<in> set (events_for inp msg es v)"
    using scheduled_subset[of vs "events_for inp msg es"] by blast
  then show "fst e < k" using es by (simp add: events_for_def)
qed

lemma messages_run:
  assumes sent: "\<And>a. a < k \<Longrightarrow> sent_by (sk a) (msg a) (sent a)"
    and ids: "inj_on (\<lambda>a. ids_of (msg a)) {..<k}"
    and ms: "list_all2 (\<lambda>m (a, i). a < k \<and> holds_datagram (sent a) m i) ms es"
    and ok: "listener_ok inp st"
    and idle: "\<And>v. v < length (ls_parsers st) \<Longrightarrow> q_list (input_of st v) = [] \<and>
      length ms < q_size (input_of st v) \<and> \<not> p_legacy_proto (worker_at st v) \<and>
      cleanup (p_segment_buff (worker_at st v)) \<noteq> 1"
    and new: "\<And>a. a < k \<Longrightarrow> message_of (p_segment_buff (worker_at st (worker_of inp (msg a)))) (msg a) = None"
    and sched: "\<And>v. count_list (map fst ts) v = length (events_for inp msg es v)"
    and order: "order = completions (\<lambda>a. length (sent a)) (\<lambda>_. {}) (scheduled (map fst ts) (events_for inp msg es))"
    and room: "length (q_list (ls_output st)) + length order < q_size (ls_output st)"
  shows "\<exists>st' st'' outs. listener_round inp (Some ms) st [] = Some (Inr (None, st', [])) \<and>
    workers_steps ts st' = Some (Inr (None, st'')) \<and> listener_ok inp st'' \<and>
    (\<forall>v<length (ls_parsers st''). q_list (input_of st'' v) = []) \<and>
    q_list (ls_output st'') = q_list (ls_output st) @ map Some outs \<and>
    list_all2 (\<lambda>a out. delivered (msg a) out) order outs"
proof -
  obtain P where P: "length P = k" "parcels_ok P"
    "\<And>a. a < k \<Longrightarrow> pc_msg (P ! a) = msg a \<and> sent a = packets_sent (msg a) (pc_segs (P ! a))"
    using parcels_of_messages[OF sent ids] by blast
  note less = scheduled_events_less[OF ms]
  have ev: "events_for inp (msg_of P) es = events_for inp msg es"
    using less(1) P(3) by (intro ext) (auto simp: events_for_def intro!: filter_cong)
  have hold: "list_all2 (holds_event P) ms es"
    using ms by (rule list_all2_mono) (auto simp: holds_event_def P(1) P(3))
  have start: "q_list (input_of st v) = [] \<and> length (events_for inp (msg_of P) es v) < q_size (input_of st v) \<and>
      \<not> p_legacy_proto (worker_at st v) \<and> cleanup (p_segment_buff (worker_at st v)) \<noteq> 1"
    if v: "v < length (ls_parsers st)" for v
  proof -
    have "length (events_for inp (msg_of P) es v) \<le> length ms"
      unfolding events_for_def list_all2_lengthD[OF ms] by (rule length_filter_le)
    with idle[OF v] show ?thesis by linarith
  qed
  have fresh: "message_of (p_segment_buff (worker_at st (worker_for inp P a))) (pc_msg (P ! a)) = None"
    if "a < length P" for a using new[of a] that by (simp add: P(1) P(3))
  obtain st' where d: "dispatch_messages inp ms st [] = Some (Inr (None, st', []))"
    "ls_output st' = ls_output st" "length (ls_parsers st') = length (ls_parsers st)"
    "in_flight inp P (\<lambda>_. {}) (events_for inp msg es) st'"
    using events_in_flight[OF P(2) hold ok start fresh] unfolding ev by blast
  have none: "events_for inp msg es v = []" if "length (ls_parsers st') \<le> v" for v
    using that worker_of_less[OF ok] by (auto simp: d(3) events_for_def filter_empty_conv not_le[symmetric])
  have o': "order = completions (packets_in P) (\<lambda>_. {}) (scheduled (map fst ts) (events_for inp msg es))"
    unfolding order using less(2) P(3) by (intro completions_cong) (simp add: packets_sent_def)
  have cap: "length (q_list (ls_output st')) + length order \<le> q_capacity (ls_output st')"
    using room unfolding d(2) q_capacity_def by (simp del: length_q_list)
  obtain st'' C' outs where r: "workers_steps ts st' = Some (Inr (None, st''))" "in_flight inp P C' (\<lambda>_. []) st''"
    "q_list (ls_output st'') = q_list (ls_output st') @ map Some outs"
    "list_all2 (\<lambda>a out. delivered (pc_msg (P ! a)) out) order outs"
    using in_flight_run[OF P(2) d(4) sched none o' cap] by blast
  have lt: "a < k" if "a \<in> set order" for a
    using completions_subset[of "packets_in P" "\<lambda>_. {}" "scheduled (map fst ts) (events_for inp msg es)"] less(2) that
    unfolding o' by force
  have "list_all2 (\<lambda>a out. delivered (msg a) out) order outs"
    using r(4) lt P(3) by (auto simp: list_all2_conv_all_nth)
  moreover have "listener_ok inp st''" "\<forall>v<length (ls_parsers st''). q_list (input_of st'' v) = []"
    using r(2) by (auto simp: in_flight_def worker_in_flight_def input_of_def)
  ultimately show ?thesis using d(1,2) r(1,3) by (auto simp: listener_round_def)
qed

end
