(* ===== verification/Printf.thy ===== *)
theory Printf
  imports Prelude
begin

text \<open>
  The conversions of \<^verbatim>\<open>printf\<close> that the sources use, as functions to strings, and reading numbers
  back.
\<close>

section \<open>Numbers as text\<close>

definition digit_char :: "nat \<Rightarrow> char" where
  "digit_char d = char_of (if d < 10 then 48 + d else 87 + d)"

definition digit_val :: "char \<Rightarrow> nat" where
  "digit_val c = (let n = of_char c in if n < 58 then n - 48 else n - 87)"

fun num_str :: "nat \<Rightarrow> nat \<Rightarrow> string" where
  "num_str b n = (if b < 2 \<or> n < b then [digit_char n] else num_str b (n div b) @ [digit_char (n mod b)])"

declare num_str.simps [simp del]

definition num_val :: "nat \<Rightarrow> string \<Rightarrow> nat" where
  "num_val b s = foldl (\<lambda>n c. b * n + digit_val c) 0 s"

text \<open>\<open>padded c w s\<close> fills \<open>s\<close> up to the field width with blanks or zeros on the left.\<close>

definition padded :: "char \<Rightarrow> nat \<Rightarrow> string \<Rightarrow> string" where
  "padded c w s = replicate (w - length s) c @ s"

text \<open>\<^verbatim>\<open>%u\<close>, \<^verbatim>\<open>%d\<close>, \<^verbatim>\<open>%0wx\<close> and \<^verbatim>\<open>%.*s\<close>.\<close>

definition fmt_u :: "'a::len word \<Rightarrow> string" where
  "fmt_u x = num_str 10 (unat x)"

definition fmt_int :: "int \<Rightarrow> string" where
  "fmt_int i = (if i < 0 then CHR ''-'' # num_str 10 (nat (- i)) else num_str 10 (nat i))"

text \<open>An unsigned value printed with \<^verbatim>\<open>%d\<close> is read as a signed one.\<close>

definition fmt_d :: "u32 \<Rightarrow> string" where
  "fmt_d x = fmt_int (sint x)"

definition fmt_0x :: "nat \<Rightarrow> nat \<Rightarrow> string" where
  "fmt_0x w n = padded (CHR ''0'') w (num_str 16 n)"

definition byte_char :: "u8 \<Rightarrow> char" where
  "byte_char b = char_of (unat b)"

text \<open>
  A string argument ends at a zero byte. With a precision at most that many bytes are read; a
  negative precision counts as none. Without an end inside the memory that is there, the read leaves it.
\<close>

fun c_string :: "bytes \<Rightarrow> fault + string" where
  "c_string [] = Inl Out_Of_Bounds"
| "c_string (b # bs) =
     (if b = 0 then Inr [] else bind_fault (c_string bs) (\<lambda>s. Inr (byte_char b # s)))"

fun c_string_upto :: "nat \<Rightarrow> bytes \<Rightarrow> fault + string" where
  "c_string_upto 0 bs = Inr []"
| "c_string_upto (Suc n) [] = Inl Out_Of_Bounds"
| "c_string_upto (Suc n) (b # bs) =
     (if b = 0 then Inr [] else bind_fault (c_string_upto n bs) (\<lambda>s. Inr (byte_char b # s)))"

definition fmt_prec_s :: "int \<Rightarrow> bytes \<Rightarrow> fault + string" where
  "fmt_prec_s prec data = (if prec < 0 then c_string data else c_string_upto (nat prec) data)"

text \<open>A loop that prints something for each element of a list.\<close>

fun each :: "('a \<Rightarrow> fault + string) \<Rightarrow> 'a list \<Rightarrow> fault + string" where
  "each f [] = Inr []"
| "each f (x # xs) = bind_fault (f x) (\<lambda>s. bind_fault (each f xs) (\<lambda>t. Inr (s @ t)))"

lemma each_Inr:
  assumes "\<And>x. x \<in> set xs \<Longrightarrow> f x = Inr (g x)"
  shows "each f xs = Inr (concat (map g xs))"
  using assms by (induction xs) auto

lemma each_no_fault:
  assumes "\<And>x. x \<in> set xs \<Longrightarrow> \<exists>s. f x = Inr s"
  shows "\<exists>s. each f xs = Inr s"
  using each_Inr[of xs f "\<lambda>x. projr (f x)"] assms by force

lemma each_fault_iff: "(\<exists>e. each f xs = Inl e) \<longleftrightarrow> (\<exists>x\<in>set xs. \<exists>e. f x = Inl e)"
  by (induction xs) (auto simp: bind_fault_def split: sum.splits)

section \<open>Reading numbers back\<close>

lemma digit_val_char: "d < 16 \<Longrightarrow> digit_val (digit_char d) = d"
  by (auto simp: digit_val_def digit_char_def Let_def)

lemma num_str_ne: "num_str b n \<noteq> []"
  by (subst num_str.simps) simp

lemma num_val_snoc: "num_val b (s @ [c]) = b * num_val b s + digit_val c"
  by (simp add: num_val_def)

lemma num_val_str: "2 \<le> b \<Longrightarrow> b \<le> 16 \<Longrightarrow> num_val b (num_str b n) = n"
proof (induction b n rule: num_str.induct)
  case (1 b n)
  show ?case
  proof (cases "n < b")
    case True
    then show ?thesis
      using 1(2,3) by (subst num_str.simps) (simp add: num_val_def digit_val_char)
  next
    case False
    have "n mod b < 16" using 1(2,3) by (meson less_le_trans mod_less_divisor zero_less_numeral)
    then show ?thesis
      using False 1 by (subst num_str.simps) (simp add: num_val_snoc digit_val_char)
  qed
qed

lemma num_val_zeros: "num_val b (replicate k (CHR ''0'') @ s) = num_val b s"
proof (induction k)
  case (Suc k)
  then show ?case by (simp add: num_val_def digit_val_def)
qed simp

lemma num_val_0x: "num_val 16 (fmt_0x w n) = n"
  by (simp add: fmt_0x_def padded_def num_val_zeros num_val_str)

lemma length_num_str: "0 < w \<Longrightarrow> n < b ^ w \<Longrightarrow> 2 \<le> b \<Longrightarrow> length (num_str b n) \<le> w"
proof (induction w arbitrary: n)
  case (Suc w)
  show ?case
  proof (cases "n < b")
    case True
    then show ?thesis by (subst num_str.simps) simp
  next
    case False
    then have "0 < w" using Suc.prems(2) by (cases w) simp_all
    moreover have "n div b < b ^ w" using Suc.prems(2,3) by (simp add: less_mult_imp_div_less mult.commute)
    ultimately show ?thesis using Suc.IH[of "n div b"] Suc.prems(3) False by (subst num_str.simps) simp
  qed
qed simp

lemma length_0x: "0 < w \<Longrightarrow> n < 16 ^ w \<Longrightarrow> length (fmt_0x w n) = w"
  using length_num_str[of w n 16] by (simp add: fmt_0x_def padded_def)

lemma c_string_upto_ok: "n \<le> length bs \<Longrightarrow> \<exists>s. c_string_upto n bs = Inr s"
  by (induction n bs rule: c_string_upto.induct) auto

lemma c_string_fault_iff: "(\<exists>e. c_string bs = Inl e) \<longleftrightarrow> 0 \<notin> set bs"
  by (induction bs) (auto simp: bind_fault_eq_Inl bind_fault_def split: sum.splits)

end
