(* ===== verification/Printing.thy ===== *)
theory Printing
  imports Printf Parser
begin

text \<open>
  What a client does with the messages it gets: the getters of the API, and the functions that print
  headers, payloads, segment lists and counters (\<^verbatim>\<open>src/unyte_udp_utils.c\<close>,
  \<^verbatim>\<open>src/segmentation_buffer.c\<close>, \<^verbatim>\<open>src/monitoring_worker.c\<close>). A printing function returns
  the text it writes, or the fault it runs into.
\<close>

section \<open>Getters\<close>

definition unyte_udp_get_version :: "unyte_seg_met \<Rightarrow> u8" where
  "unyte_udp_get_version msg = ucast (version (header msg))"

definition unyte_udp_get_space :: "unyte_seg_met \<Rightarrow> u8" where
  "unyte_udp_get_space msg = ucast (space (header msg))"

definition unyte_udp_get_media_type :: "unyte_seg_met \<Rightarrow> u8" where
  "unyte_udp_get_media_type msg = ucast (media_type (header msg))"

definition unyte_udp_get_header_length :: "unyte_seg_met \<Rightarrow> u16" where
  "unyte_udp_get_header_length msg = ucast (header_length (header msg))"

definition unyte_udp_get_message_length :: "unyte_seg_met \<Rightarrow> u16" where
  "unyte_udp_get_message_length msg = message_length (header msg)"

definition unyte_udp_get_observation_domain_id :: "unyte_seg_met \<Rightarrow> u32" where
  "unyte_udp_get_observation_domain_id msg = observation_domain_id (header msg)"

definition unyte_udp_get_message_id :: "unyte_seg_met \<Rightarrow> u32" where
  "unyte_udp_get_message_id msg = message_id (header msg)"

definition unyte_udp_get_src :: "unyte_seg_met \<Rightarrow> sockaddr_storage option" where
  "unyte_udp_get_src msg = src (metadata msg)"

definition unyte_udp_get_dest_addr :: "unyte_seg_met \<Rightarrow> sockaddr_storage option" where
  "unyte_udp_get_dest_addr msg = dest (metadata msg)"

definition unyte_udp_get_payload :: "unyte_seg_met \<Rightarrow> bytes" where
  "unyte_udp_get_payload msg = payload msg"

section \<open>Headers and payloads\<close>

abbreviation newline :: char where "newline \<equiv> CHR 0x0A"

text \<open>A label and a value on a line of their own.\<close>

definition field :: "string \<Rightarrow> string \<Rightarrow> string" where
  "field label v = label @ v @ [newline]"

definition read_set :: "'a option \<Rightarrow> fault + 'a" where
  "read_set x = (case x of None \<Rightarrow> Inl Uninit_Read | Some v \<Rightarrow> Inr v)"

definition print_segmentation :: "unyte_header \<Rightarrow> fault + string" where
  "print_segmentation h =
     bind_fault (read_set (f_type h)) (\<lambda>t.
     bind_fault (read_set (f_len h)) (\<lambda>l.
     bind_fault (read_set (f_num h)) (\<lambda>n.
     bind_fault (read_set (f_last h)) (\<lambda>lst.
     Inr ([newline] @ ''Option segmentation:'' @ [newline] @ field ''opt type: '' (fmt_u t) @
       field ''seg length: '' (fmt_u l) @ field ''seg message number: '' (fmt_u n) @
       field ''seg last_flag: '' (fmt_u lst))))))"

definition print_option :: "unyte_option \<Rightarrow> fault + string" where
  "print_option cur =
     bind_fault (fmt_prec_s (uint (opt_length cur) - 2) (opt_data cur)) (\<lambda>d.
     Inr ([newline] @ ''Custom Option:'' @ [newline] @ field ''opt type: '' (fmt_u (opt_type cur)) @
       field ''opt length: '' (fmt_u (opt_length cur)) @ field ''opt description: '' d))"

definition print_udp_notif_header :: "unyte_header \<Rightarrow> fault + string" where
  "print_udp_notif_header h =
     (let fixed = [newline] @ ''###### Unyte header ######'' @ [newline] @
        field ''Version: '' (fmt_u (version h)) @ field ''Space: '' (fmt_u (space h)) @
        field ''Media type: '' (fmt_u (media_type h)) @ field ''Header length: '' (fmt_u (header_length h)) @
        field ''Message length: '' (fmt_u (message_length h)) @
        field ''Observation domain ID: '' (fmt_u (observation_domain_id h)) @
        field ''Mesage ID: '' (fmt_u (message_id h)) in
      bind_fault (options_total_bytes (options h)) (\<lambda>options_length.
      bind_fault (if is_segmented h options_length then print_segmentation h else Inr []) (\<lambda>seg.
      bind_fault (if options_length > 0
          then (case options h of None \<Rightarrow> Inl Null_Deref | Some os \<Rightarrow> each print_option os)
          else Inr []) (\<lambda>opts.
      Inr (fixed @ seg @ opts)))))"

definition print_udp_notif_payload :: "bytes \<Rightarrow> int \<Rightarrow> fault + string" where
  "print_udp_notif_payload p len =
     bind_fault (each (\<lambda>i. bind_fault (read_byte p i) (\<lambda>b. Inr [byte_char b])) [0..<nat len]) (\<lambda>s.
     Inr (s @ [newline]))"

section \<open>Segment lists\<close>

text \<open>The unsigned fields are printed with \<^verbatim>\<open>%d\<close>.\<close>

definition print_segment_list_header :: "message_segment_list \<Rightarrow> string" where
  "print_segment_list_header m =
     ''Segment list: odid '' @ fmt_d (msl_odid m) @ '' mid '' @ fmt_d (msl_mid m) @
     '' current size '' @ fmt_d (current_size m) @ '' total size '' @ fmt_d (total_size m) @ [newline]"

text \<open>The content read as an integer, whatever it is.\<close>

definition print_int_cell :: "segment_cell \<Rightarrow> fault + string" where
  "print_int_cell c =
     bind_fault (deserialize_uint32 (content c) 0) (\<lambda>v.
     Inr (''Value at seqnum '' @ fmt_d (seqnum c) @ '' : '' @ fmt_d v @ [newline]))"

definition print_segment_list_int :: "message_segment_list \<Rightarrow> fault + string" where
  "print_segment_list_int m =
     bind_fault (each print_int_cell (segments m)) (\<lambda>s. Inr (print_segment_list_header m @ s))"

text \<open>The content printed as a string: there must be a zero byte in it.\<close>

definition print_segment_list_string :: "message_segment_list \<Rightarrow> fault + string" where
  "print_segment_list_string m =
     bind_fault (each (\<lambda>c. bind_fault (c_string (content c)) (\<lambda>s. Inr (s @ [newline]))) (segments m)) (\<lambda>s.
     Inr (print_segment_list_header m @ s))"

definition print_collision_list_int :: "bucket option \<Rightarrow> fault + string" where
  "print_collision_list_int cell =
     (case cell of
        None \<Rightarrow> Inr []
      | Some b \<Rightarrow>
          bind_fault (each (\<lambda>c. case cl_head c of None \<Rightarrow> Inl Null_Deref | Some m \<Rightarrow> print_segment_list_int m)
            (chain b)) (\<lambda>s.
          if dangling b then Inl Uninit_Read else Inr s))"

definition print_segment_buffer_int :: "segment_buffer \<Rightarrow> fault + string" where
  "print_segment_buffer_int buf =
     each (\<lambda>i. case hash_array buf i of
         None \<Rightarrow> Inr []
       | Some b \<Rightarrow>
           bind_fault (print_collision_list_int (Some b)) (\<lambda>s.
           Inr (''Collision list at hk '' @ fmt_int (int i) @ '':'' @ [newline] @ s)))
       [0..<SIZE_BUF]"

section \<open>Counters\<close>

text \<open>\<^verbatim>\<open>%10lu\<close> and \<^verbatim>\<open>%5u\<close> fill up with blanks on the left.\<close>

definition fmt_wu :: "nat \<Rightarrow> nat \<Rightarrow> string" where
  "fmt_wu w n = padded (CHR '' '') w (num_str 10 n)"

definition unyte_udp_print_counters :: "sum_counter \<Rightarrow> fault + string" where
  "unyte_udp_print_counters c =
     bind_fault (read_set (sum_type c)) (\<lambda>t.
     Inr (''th_id:'' @ fmt_wu 10 (sum_thread_id c) @ ''|gen_id:'' @ fmt_wu 5 (unat (sum_odid c)) @
       ''|type: '' @ padded (CHR '' '') 15 (if t = PARSER_WORKER then ''PARSER_WORKER'' else ''LISTENER_WORKER'') @
       ''|received:'' @ fmt_wu 7 (unat (sum_received c)) @ ''|dropped:'' @ fmt_wu 7 (unat (sum_dropped c)) @
       ''|reordered:'' @ fmt_wu 5 (unat (sum_reordered c)) @
       ''|last_msg_id:'' @ fmt_wu 9 (unat (sum_last_message_id c)) @ [newline]))"

section \<open>Printing what the client gets\<close>

text \<open>A header that can be printed: its options are there, and its segmentation fields when they are printed.\<close>

definition printable :: "unyte_header \<Rightarrow> bool" where
  "printable h \<longleftrightarrow> (\<exists>os. options h = Some os \<and> list_all option_read os \<and>
     (is_segmented h (opts_bytes os) \<longrightarrow> f_type h \<noteq> None \<and> f_len h \<noteq> None \<and> f_num h \<noteq> None \<and> f_last h \<noteq> None))"

lemma print_option_ok: "option_read o' \<Longrightarrow> \<exists>s. print_option o' = Inr s"
  using c_string_upto_ok[of "unat (opt_length o') - 2" "opt_data o'"]
  by (auto simp: print_option_def fmt_prec_s_def option_read_def uint_nat nat_diff_distrib simp del: of_nat_unat)

lemma print_header_ok:
  assumes "printable h"
  shows "\<exists>s. print_udp_notif_header h = Inr s"
proof -
  obtain os where os: "options h = Some os" "list_all option_read os" and
    seg: "is_segmented h (opts_bytes os) \<Longrightarrow> f_type h \<noteq> None \<and> f_len h \<noteq> None \<and> f_num h \<noteq> None \<and> f_last h \<noteq> None"
    using assms by (auto simp: printable_def)
  obtain s where "each print_option os = Inr s"
    using each_no_fault[of os print_option] print_option_ok os(2) by (auto simp: list_all_iff)
  moreover have "\<exists>t. (if is_segmented h (opts_bytes os) then print_segmentation h else Inr []) = Inr t"
    using seg by (auto simp: print_segmentation_def read_set_def)
  ultimately show ?thesis
    using os(1) by (auto simp: print_udp_notif_header_def options_total_bytes_def Let_def)
qed

lemma print_payload_iff:
  "print_udp_notif_payload p len = (if len \<le> int (length p) then Inr (map byte_char (take (nat len) p) @ [newline])
     else Inl Out_Of_Bounds)"
proof (cases "len \<le> int (length p)")
  case True
  have "each (\<lambda>i. bind_fault (read_byte p i) (\<lambda>b. Inr [byte_char b])) [0..<nat len] =
      Inr (concat (map (\<lambda>i. [byte_char (p ! i)]) [0..<nat len]))"
    using True by (intro each_Inr) simp
  also have "concat (map (\<lambda>i. [byte_char (p ! i)]) [0..<nat len]) = map byte_char (take (nat len) p)"
    using True by (simp add: concat_map_singleton take_map[symmetric] list_eq_iff_nth_eq)
  finally show ?thesis using True by (simp add: print_udp_notif_payload_def)
next
  case False
  then have "length p \<in> set [0..<nat len]" by auto
  then have "\<exists>e. each (\<lambda>i. bind_fault (read_byte p i) (\<lambda>b. Inr [byte_char b])) [0..<nat len] = Inl e"
    unfolding each_fault_iff by (force simp: read_byte_def)
  moreover have "each (\<lambda>i. bind_fault (read_byte p i) (\<lambda>b. Inr [byte_char b])) is = Inl e \<Longrightarrow> e = Out_Of_Bounds" for "is" e
    by (induction "is") (auto simp: bind_fault_eq_Inl read_byte_def split: if_splits)
  ultimately show ?thesis using False by (auto simp: print_udp_notif_payload_def)
qed

text \<open>Without a zero byte in its payload, printing a segment as a string leaves the payload.\<close>

lemma print_string_fault_iff:
  "(\<exists>e. print_segment_list_string m = Inl e) \<longleftrightarrow> (\<exists>c\<in>set (segments m). 0 \<notin> set (content c))"
proof -
  have "(\<exists>e. bind_fault (c_string (content c)) (\<lambda>s. Inr (s @ [newline])) = Inl e) \<longleftrightarrow> 0 \<notin> set (content c)"
    for c unfolding c_string_fault_iff[symmetric] by (auto simp: bind_fault_eq_Inl)
  then show ?thesis
    using each_fault_iff[of "\<lambda>c. bind_fault (c_string (content c)) (\<lambda>s. Inr (s @ [newline]))" "segments m"]
    by (simp add: print_segment_list_string_def bind_fault_eq_Inl c_string_fault_iff)
qed

text \<open>What holds of every message in the output queue.\<close>

definition deliverable :: "unyte_seg_met \<Rightarrow> bool" where
  "deliverable msg \<longleftrightarrow> printable (header msg) \<and> src (metadata msg) \<noteq> None \<and>
     (opts_size (the (options (header msg))) < 244 \<longrightarrow>
       unat (unyte_udp_get_payload_length msg) \<le> length (payload msg))"

lemma finished_payload_length:
  assumes "finish_segment segment um h as = Inr (Some seg, as')"
  shows "unat (unyte_udp_get_payload_length seg) = length (payload seg)"
proof -
  have f: "header seg = h" "unat (header_length h) \<le> unat (message_length h)"
    "length (payload seg) = unat (message_length h) - unat (header_length h)"
    using finish_segment_Some[OF assms] by blast+
  have h: "unat (ucast (header_length h) :: u16) = unat (header_length h)"
    using u8_less[of "header_length h"] by (simp add: unat_ucast_small)
  have "(ucast (header_length h) :: u16) \<le> message_length h" using f h by (simp add: word_le_nat_alt)
  then show ?thesis using f h by (simp add: unyte_udp_get_payload_length_def unat_sub)
qed

lemma parsed_deliverable:
  assumes p: "parse_with_metadata segment um as = Some (Inr (Some seg, as'))" and "um_src um \<noteq> None"
  shows "deliverable seg"
proof -
  obtain os where os: "options (header seg) = Some os" "list_all option_read os"
    by (rule parsed_options_read[OF p])
  have ok: "segment_ok seg" by (rule parsed_segment_ok[OF assms])
  have "printable (header seg)"
    using os segmented_fields_set[OF p, of "opts_bytes os"] by (auto simp: printable_def options_total_bytes_def)
  moreover obtain s :: parse_state where "finish_segment segment um ((ps_header s)\<lparr>options := Some (ps_options s)\<rparr>)
      (ps_allocs s) = Inr (Some seg, as')"
    by (rule parse_with_metadata_Some[OF p]) blast
  note finished_payload_length[OF this]
  ultimately show ?thesis using ok by (simp add: deliverable_def segment_ok_def)
qed

text \<open>The legacy protocol has neither options nor segments.\<close>

lemma legacy_parsed:
  assumes "parse_with_metadata_legacy segment um as = Inr (Some seg, as')" and "um_src um \<noteq> None"
  shows "deliverable seg" "options (header seg) = Some []" "header_length (header seg) = 12" "as = [] \<Longrightarrow> as' = []"
proof -
  obtain v mt len odid mid where fin: "finish_segment segment um
      \<lparr>version = v, space = 0, media_type = mt, header_length = 12, message_length = len,
        observation_domain_id = odid, message_id = mid, f_type = None, f_len = None, f_num = None, f_last = None,
        options = Some []\<rparr> (snd (malloc3 as)) = Inr (Some seg, as')"
    using assms(1)
    by (auto simp: parse_with_metadata_legacy_def Let_def case_prod_beta bind_fault_eq_Inr split: if_splits)
  obtain h where h: "options h = Some []" "header_length h = 12"
    "finish_segment segment um h (snd (malloc3 as)) = Inr (Some seg, as')"
    using fin by force
  note f = finish_segment_Some[OF h(3)] finished_payload_length[OF h(3)]
  show "options (header seg) = Some []" "header_length (header seg) = 12" using f(1) h by simp_all
  then show "deliverable seg"
    using f assms(2) by (simp add: deliverable_def printable_def is_segmented_def)
  show "as' = []" if "as = []"
    using h(3) that
    by (auto simp: finish_segment_def Let_def case_prod_beta malloc_signed_def malloc3_def bind_fault_eq_Inr split: if_splits)
qed

lemma assembled_deliverable:
  assumes m: "stored_ok m" and "src (metadata seg) \<noteq> None"
  shows "deliverable (assembled seg m)"
proof -
  obtain os where os: "options_head m = Some os" "list_all option_read os" "options_length m = opts_bytes os"
    using m by (auto simp: stored_ok_def)
  let ?h = "header (assembled seg m)"
  have h: "options ?h = Some os" "header_length ?h = ucast (12 + opts_bytes os)"
    "message_length ?h = ucast (12 + opts_bytes os + ucast (ucast (total_payload_byte_size m) :: u16))"
    using os by (simp_all add: assembled_def)
  have "unat (ucast (ucast n :: u8) :: u32) \<le> unat n" for n :: u32
    by (simp add: unsigned_ucast_eq unsigned_take_bit_eq)
  then have "\<not> is_segmented ?h (opts_bytes os)"
    unfolding is_segmented_def h(2) by (simp add: word_less_nat_alt not_less)
  then have "printable ?h" using os h(1) by (simp add: printable_def)
  moreover have "unat (unyte_udp_get_payload_length (assembled seg m)) \<le> length (payload (assembled seg m))"
    if small: "opts_size os < 244"
  proof -
    have n: "unat (opts_bytes os) = opts_size os" using small by (simp add: unat_opts_bytes)
    have "unat (unyte_udp_get_payload_length (assembled seg m)) = unat (ucast (total_payload_byte_size m) :: u16)"
      unfolding unyte_udp_get_payload_length_def h(2,3)
      using payload_length_word[of "opts_bytes os" "ucast (total_payload_byte_size m)"] n small
        u16_less[of "ucast (total_payload_byte_size m)"] by simp
    also have "\<dots> \<le> unat (total_payload_byte_size m)" by (simp add: unsigned_ucast_eq take_bit_nat_def)
    also have "\<dots> \<le> length (payload (assembled seg m))" using stored_ok_size[OF m] by (simp add: assembled_def)
    finally show ?thesis .
  qed
  moreover have "src (metadata (assembled seg m)) \<noteq> None" using assms(2) by (simp add: assembled_def)
  ultimately show ?thesis using h(1) by (simp add: deliverable_def)
qed

lemma inserted_stored_ok:
  assumes buf: "buffer_ok buf" and seg: "segment_ok seg" "f_num (header seg) \<noteq> None"
    and ins: "inserted buf seg = (r, m)"
  shows "stored_ok m"
proof -
  let ?o = "observation_domain_id (header seg)" and ?m = "message_id (header seg)"
  obtain num os where f: "f_num (header seg) = Some num" "unat num < 32768"
    "options (header seg) = Some os" "list_all option_read os"
    using seg by (auto simp: segment_ok_def)
  have num: "unat (ucast num :: u32) < 32768" using f(2) by (simp add: unat_ucast_small)
  have old: "stored_ok (known_or_new (message_at buf ?o ?m) ?o ?m) \<or>
      known_or_new (message_at buf ?o ?m) ?o ?m = new_msl ?o ?m"
    using buf by (auto simp: buffer_ok_def known_or_new_def split: option.splits)
  obtain as where "insert_into_msl (known_or_new (message_at buf ?o ?m) ?o ?m) (ucast num)
      (uint (the (f_last (header seg)))) (of_nat (length (payload seg))) (payload seg) (Some os) [] = (r, m, as)"
    using ins f(1,3) by (auto simp: inserted_def Let_def split: prod.splits)
  from insert_stored_ok[OF old payload_size_word(2,3)[OF seg(1)] num f(4) this] show ?thesis by blast
qed

definition outputs_deliverable :: "parser_thread_input \<Rightarrow> bool" where
  "outputs_deliverable w \<longleftrightarrow> list_all (\<lambda>x. \<exists>msg. x = Some msg \<and> deliverable msg) (q_list (p_output w))"

lemma passed_on_deliverable:
  "passed_on w msg w' \<Longrightarrow> outputs_deliverable w \<Longrightarrow> deliverable msg \<Longrightarrow> outputs_deliverable w'"
  by (auto simp: passed_on_def outputs_deliverable_def)

lemma parser_step_delivers_legacy:
  assumes w: "worker_ok w" "p_legacy_proto w" "outputs_deliverable w" and q: "q_list (p_input w) = Some um # xs"
    and run: "parser_step now w [] = Some (Inr (v, w', as))"
  shows "worker_ok w' \<and> outputs_deliverable w' \<and> as = []"
proof -
  obtain inp where inp: "unyte_udp_queue_read (p_input w) = Some (Inr (Some um, inp))" "queue_inv inp"
    "q_list inp = xs" "datagram_ok (Some um)" "list_all datagram_ok xs"
    by (rule worker_ok_input[OF w(1) q])
  let ?w1 = "w\<lparr>p_input := inp\<rparr>"
  have ok1: "worker_ok ?w1" "outputs_deliverable ?w1"
    using w(1,3) inp by (simp_all add: worker_ok_def outputs_deliverable_def)
  obtain r as1 where p: "parse_with_metadata_legacy (um_buffer um) um [] = Inr (r, as1)"
    using run inp(1) w(2)
    by (auto simp: parser_step_def parse_datagram_def Let_def bind_run_def split: option.splits sum.splits)
  show ?thesis
  proof (cases r)
    case None
    have "as1 = []"
      using p None
      by (auto simp: parse_with_metadata_legacy_def finish_segment_def malloc_signed_def malloc3_def Let_def
          case_prod_beta bind_fault_eq_Inr split: if_splits)
    then show ?thesis using run inp(1) w(2) p None ok1 by (auto simp: parser_step_def parse_datagram_def Let_def)
  next
    case (Some seg)
    have src: "um_src um \<noteq> None" using inp(4) by (simp add: datagram_ok_def)
    note l = legacy_parsed[OF p[unfolded Some] src]
    obtain out c where o: "push_output ?w1 seg (observation_domain_id (header seg)) (message_id (header seg)) [] =
        Some (Inr (?w1\<lparr>p_output := out, p_counters := c\<rparr>, []))"
      "passed_on ?w1 seg (?w1\<lparr>p_output := out, p_counters := c\<rparr>)" "counters_ok c"
      using push_output_run[of ?w1 "observation_domain_id (header seg)" seg "message_id (header seg)"] ok1(1)
      by (auto simp: worker_ok_def)
    have "w' = ?w1\<lparr>p_output := out, p_counters := c\<rparr>" "as = []"
      using run inp(1) w(2) p Some l(2-4) o(1)
      by (auto simp: parser_step_def parse_datagram_def Let_def options_total_bytes_def is_segmented_def)
    then show ?thesis
      using o(2,3) ok1 passed_on_deliverable[OF o(2) ok1(2) l(1)] by (auto simp: worker_ok_def passed_on_def)
  qed
qed

lemma parsed_packet_delivers:
  assumes w: "worker_ok w" "outputs_deliverable w" and modern: "\<not> p_legacy_proto w"
    and q: "q_list (p_input w) = Some um # xs" and src: "um_src um \<noteq> None"
    and p: "parse_with_metadata (um_buffer um) um [] = Some (Inr (Some seg, []))"
    and run: "parser_step now w [] = Some (Inr (v, w', as))"
  shows "outputs_deliverable w'"
proof -
  note seg = parsed_deliverable[OF p src] parsed_segment_ok[OF p src]
  obtain n where n: "options_total_bytes (options (header seg)) = Inr n"
    using seg(2) by (auto simp: segment_ok_def options_total_bytes_def)
  obtain r m where rm: "inserted (p_segment_buff w) seg = (r, m)" by (metis prod.exhaust)
  show ?thesis
  proof (cases "is_segmented (header seg) n")
    case False
    then show ?thesis
      using parser_step_plain[OF w(1) modern q p n False, of now] run seg(1) passed_on_deliverable[OF _ w(2)] by auto
  next
    case True
    have "stored_ok m"
      using inserted_stored_ok[OF _ seg(2) _ rm] w(1) segmented_fields_set[OF p n True] by (simp add: worker_ok_def)
    then have "deliverable (assembled seg m)"
      using seg(2) by (intro assembled_deliverable) (simp_all add: segment_ok_def)
    then show ?thesis
      using parser_step_segment[OF w(1) modern q p n True rm, of now] run passed_on_deliverable[OF _ w(2)] w(2)
      by (auto simp: outputs_deliverable_def split: if_splits)
  qed
qed

lemma parser_step_delivers:
  assumes w: "worker_ok w" "outputs_deliverable w"
    and run: "parser_step now w [] = Some (Inr (v, w', as))"
  shows "worker_ok w' \<and> outputs_deliverable w' \<and> as = []"
proof (cases "q_list (p_input w)")
  case Nil
  then have "unyte_udp_queue_read (p_input w) = None"
    using ring.dequeue_blocks[of "p_input w"] w(1) by (simp add: worker_ok_def)
  then show ?thesis using run by (simp add: parser_step_def)
next
  case (Cons x xs)
  obtain inp where inp: "unyte_udp_queue_read (p_input w) = Some (Inr (x, inp))" "queue_inv inp"
    "q_list inp = xs" "datagram_ok x" "list_all datagram_ok xs"
    by (rule worker_ok_input[OF w(1) Cons])
  consider "x = None" | um where "x = Some um" "p_legacy_proto w" | um where "x = Some um" "\<not> p_legacy_proto w"
    by (cases x) auto
  then show ?thesis
  proof cases
    case 1
    then show ?thesis
      using run inp w by (auto simp: parser_step_def Let_def worker_ok_def outputs_deliverable_def)
  next
    case 2
    then show ?thesis using parser_step_delivers_legacy[OF w(1) _ w(2) _ run] Cons by blast
  next
    case (3 um)
    note q = Cons[unfolded 3(1)] and modern = 3(2)
    have ok: "worker_ok w'" "as = []"
      using parser_step_outcome[OF w(1) modern q, of now] run by auto
    have src: "um_src um \<noteq> None" using inp(4) 3(1) by (simp add: datagram_ok_def)
    show ?thesis
    proof (cases "\<exists>seg. parse_with_metadata (um_buffer um) um [] = Some (Inr (Some seg, []))")
      case True
      then have "outputs_deliverable w'" using parsed_packet_delivers[OF w modern q src _ run] by blast
      with ok show ?thesis by simp
    next
      case False
      then have "p_output w' = p_output w"
        using run inp(1) modern 3(1) parse_with_metadata_clean[of "um_buffer um" um]
        by (auto simp: parser_step_def parse_datagram_def Let_def bind_run_def split: option.splits sum.splits)
      with ok w(2) show ?thesis by (simp add: outputs_deliverable_def)
    qed
  qed
qed

lemma parser_steps_deliver:
  "worker_ok w \<Longrightarrow> outputs_deliverable w \<Longrightarrow>
    parser_steps nows w [] = Some (Inr (v, w', as)) \<Longrightarrow> outputs_deliverable w'"
proof (induction nows arbitrary: w)
  case (Cons now nows)
  obtain r w1 as1 where s: "parser_step now w [] = Some (Inr (r, w1, as1))"
    using Cons.prems(3) by (auto simp: bind_run_def split: option.splits sum.splits)
  note ok = parser_step_delivers[OF Cons.prems(1,2) s]
  show ?case
  proof (cases r)
    case None
    then show ?thesis using Cons.IH[of w1] Cons.prems(3) s ok by simp
  next
    case (Some x)
    then show ?thesis using Cons.prems(3) s ok by simp
  qed
qed simp



end
