(* ===== verification/Clients.thy ===== *)
theory Clients
  imports Printing Collector
begin

text \<open>
  The example clients: \<^verbatim>\<open>examples/client_sample.c\<close>, \<^verbatim>\<open>client_socket.c\<close>, \<^verbatim>\<open>client_legacy_proto.c\<close> and
  \<^verbatim>\<open>client_monitoring.c\<close>. Each reads a number of messages or counters from a queue of the collector, prints and
  frees them, and then frees the collector. \<^verbatim>\<open>client_interface_bind_socket.c\<close> and \<^verbatim>\<open>eBPF/client_ebpf_user.c\<close> have
  the loop of \<^verbatim>\<open>client_socket.c\<close>. The result of a client is the text that it prints. The programs around the loops are in
  \<open>Client_Programs\<close>.

  \<^verbatim>\<open>inet_ntop\<close> is an argument: the text of an address of a family, \<open>None\<close> for the \<^verbatim>\<open>NULL\<close> that it returns for a
  family it does not know, which the clients pass on to \<^verbatim>\<open>printf\<close>.
\<close>

type_synonym inet_ntop = "u16 \<Rightarrow> bytes \<Rightarrow> string option"

section \<open>One message\<close>

definition print_address :: "inet_ntop \<Rightarrow> string \<Rightarrow> sockaddr_storage \<Rightarrow> fault + string" where
  "print_address ntop which a =
     (case ntop (ss_family a) (ss_addr a) of
        None \<Rightarrow> Inl Null_Deref
      | Some s \<Rightarrow>
          Inr (field (which @ (if ss_family a = AF_INET then '' IPv4: '' else '' IPv6: '')) s @
               field (which @ '' port: '') (fmt_u (ntohs (ss_port a)))))"

definition print_dest :: "inet_ntop \<Rightarrow> unyte_seg_met \<Rightarrow> fault + string" where
  "print_dest ntop seg =
     (case unyte_udp_get_dest_addr seg of None \<Rightarrow> Inr [] | Some a \<Rightarrow> print_address ntop ''dest'' a)"

definition dest_family :: "unyte_seg_met \<Rightarrow> string" where
  "dest_family seg = field ''unyte_udp_get_dest_addr[family]: ''
     (case unyte_udp_get_dest_addr seg of None \<Rightarrow> ''0'' | Some a \<Rightarrow> fmt_u (ss_family a))"

definition client_sample_step :: "inet_ntop \<Rightarrow> unyte_seg_met \<Rightarrow> fault + string" where
  "client_sample_step ntop seg =
     bind_fault (print_dest ntop seg) (\<lambda>d.
     bind_fault (print_udp_notif_header (header seg)) (\<lambda>h.
     bind_fault (unyte_udp_free_all (Some seg)) (\<lambda>_.
     Inr (dest_family seg @ d @ h))))"

definition client_socket_step :: "inet_ntop \<Rightarrow> unyte_seg_met \<Rightarrow> fault + string" where
  "client_socket_step ntop seg =
     (case unyte_udp_get_src seg of
        None \<Rightarrow> Inl Null_Deref
      | Some a \<Rightarrow>
          bind_fault (print_address ntop ''src'' a) (\<lambda>s.
          bind_fault (print_dest ntop seg) (\<lambda>d.
          bind_fault (print_udp_notif_header (header seg)) (\<lambda>h.
          bind_fault (unyte_udp_free_all (Some seg)) (\<lambda>_.
          Inr (s @ d @ h))))))"

definition client_legacy_step :: "unyte_seg_met \<Rightarrow> fault + string" where
  "client_legacy_step seg =
     bind_fault (fmt_prec_s (uint (unyte_udp_get_payload_length seg)) (unyte_udp_get_payload seg)) (\<lambda>p.
     bind_fault (unyte_udp_free_all (Some seg)) (\<lambda>_.
     Inr (field ''unyte_udp_get_version: '' (fmt_u (unyte_udp_get_version seg)) @
       field ''unyte_udp_get_space: '' (fmt_u (unyte_udp_get_space seg)) @
       field ''unyte_udp_get_media_type: '' (fmt_u (unyte_udp_get_media_type seg)) @
       field ''unyte_udp_get_header_length: '' (fmt_u (unyte_udp_get_header_length seg)) @
       field ''unyte_udp_get_message_length: '' (fmt_u (unyte_udp_get_message_length seg)) @
       field ''unyte_udp_get_observation_domain_id: '' (fmt_u (unyte_udp_get_observation_domain_id seg)) @
       field ''unyte_udp_get_message_id: '' (fmt_u (unyte_udp_get_message_id seg)) @
       dest_family seg @ field ''unyte_udp_get_payload: '' p)))"

section \<open>The clients\<close>

text \<open>A \<^verbatim>\<open>NULL\<close> from the queue is reported and then dereferenced.\<close>

fun client_loop ::
  "('a \<Rightarrow> fault + string) \<Rightarrow> nat \<Rightarrow> 'a unyte_udp_queue \<Rightarrow> (fault + (string \<times> 'a unyte_udp_queue)) option" where
  "client_loop step 0 q = Some (Inr ([], q))"
| "client_loop step (Suc n) q =
     bind_run (unyte_udp_queue_read q) (\<lambda>(seg, q1).
     case seg of
       None \<Rightarrow> Some (Inl Null_Deref)
     | Some s \<Rightarrow>
         bind_run (Some (step s)) (\<lambda>txt.
         bind_run (client_loop step n q1) (\<lambda>(txts, q2). Some (Inr (txt @ txts, q2)))))"

abbreviation shutdown_text :: string where
  "shutdown_text \<equiv> ''Shutdown the socket'' @ [newline]"

definition shutdown :: "string \<Rightarrow> unyte_udp_collector \<Rightarrow>
    (fault + (string \<times> unyte_seg_met option list \<times> sum_counter option list)) option" where
  "shutdown txt c =
     bind_run (unyte_udp_free_collector c) (\<lambda>(msgs, sums). Some (Inr (txt @ shutdown_text, msgs, sums)))"

text \<open>From the start of the loop to the end of \<^verbatim>\<open>main\<close>.\<close>

definition client_main :: "(unyte_seg_met \<Rightarrow> fault + string) \<Rightarrow> nat \<Rightarrow> unyte_udp_collector \<Rightarrow>
    (fault + (string \<times> unyte_seg_met option list \<times> sum_counter option list)) option" where
  "client_main step n c =
     bind_run (client_loop step n (c_queue c)) (\<lambda>(txt, q). shutdown txt (c\<lparr>c_queue := q\<rparr>))"

definition client_sample where "client_sample ntop = client_main (client_sample_step ntop) 10"
definition client_socket where "client_socket ntop = client_main (client_socket_step ntop) 20"
definition client_legacy_proto where "client_legacy_proto = client_main client_legacy_step 10"

text \<open>
  The loop of \<^verbatim>\<open>client_monitoring.c\<close>. A second thread of that client reads and frees the messages meanwhile.
\<close>

definition client_monitoring :: "unyte_udp_collector \<Rightarrow> (fault + (string \<times> sum_counter unyte_udp_queue)) option" where
  "client_monitoring c = client_loop unyte_udp_print_counters 20 (c_monitoring_queue c)"

text \<open>The socket that \<^verbatim>\<open>client_socket.c\<close> makes for itself.\<close>

abbreviation DEFAULT_SK_BUFF_SIZE :: "64 word" where "DEFAULT_SK_BUFF_SIZE \<equiv> 20971520"

definition create_custom_socket :: "system \<Rightarrow> string \<Rightarrow> string \<Rightarrow> int sys_run" where
  "create_custom_socket sys address port =
     bind_sys (resolve sys address port) (\<lambda>info.
     bind_sys (new_socket sys info []) (\<lambda>sockfd.
     bind_sys (must_set sys sockfd SO_REUSEPORT []) (\<lambda>_.
     bind_sys (must_set sys sockfd (SO_RCVBUF DEFAULT_SK_BUFF_SIZE) []) (\<lambda>_.
     bind_sys (sys_call (Bind sockfd (ai_addr info)) (sys_bind sys sockfd (ai_addr info))) (\<lambda>r.
     if r = -1 then (None, [Close sockfd])
     else bind_sys (sys_call Freeaddrinfo ()) (\<lambda>_. sys_return sockfd))))))"

lemma create_custom_socket_agrees:
  "create_custom_socket sys address port = unyte_udp_create_socket sys (Some address) (Some port) DEFAULT_SK_BUFF_SIZE"
  by (simp add: create_custom_socket_def unyte_udp_create_socket_def)

section \<open>What the clients print\<close>

lemma client_loop_run:
  assumes "queue_inv q" "n \<le> length (q_list q)" "\<forall>x\<in>set (take n (q_list q)). \<exists>s t. x = Some s \<and> step s = Inr t"
  shows "\<exists>q'. client_loop step n q = Some (Inr (concat (map (\<lambda>x. projr (step (the x))) (take n (q_list q))), q')) \<and>
    queue_inv q' \<and> q_list q' = drop n (q_list q)"
  using assms
proof (induction n arbitrary: q)
  case (Suc n)
  obtain x xs where x: "q_list q = x # xs" using Suc.prems(2) by (cases "q_list q") auto
  obtain q1 where q1: "unyte_udp_queue_read q = Some (Inr (x, q1))" "queue_inv q1" "q_list q1 = xs"
    using ring.dequeue_law[of q x xs] Suc.prems(1) x by auto
  obtain s t where s: "x = Some s" "step s = Inr t" using Suc.prems(3) x by auto
  have "n \<le> length (q_list q1)" using Suc.prems(2) arg_cong[OF x, of length] q1(3) by (simp del: length_q_list)
  then obtain q' where "client_loop step n q1 =
      Some (Inr (concat (map (\<lambda>x. projr (step (the x))) (take n xs)), q'))" "queue_inv q'" "q_list q' = drop n xs"
    using Suc.IH[OF q1(2)] Suc.prems(3) x q1(3) by auto
  then show ?case using q1(1) s x by simp
qed auto

text \<open>The families that \<^verbatim>\<open>inet_ntop\<close> is documented for, and messages that come from them.\<close>

definition ntop_ok :: "inet_ntop \<Rightarrow> bool" where
  "ntop_ok ntop \<longleftrightarrow> (\<forall>a. ntop AF_INET a \<noteq> None \<and> ntop AF_INET6 a \<noteq> None)"

definition from_inet :: "unyte_seg_met \<Rightarrow> bool" where
  "from_inet msg \<longleftrightarrow> (\<forall>a. src (metadata msg) = Some a \<or> dest (metadata msg) = Some a \<longrightarrow>
     ss_family a \<in> {AF_INET, AF_INET6})"

lemma print_address_ok:
  "ntop_ok ntop \<Longrightarrow> ss_family a \<in> {AF_INET, AF_INET6} \<Longrightarrow> \<exists>s. print_address ntop which a = Inr s"
  by (auto simp: print_address_def ntop_ok_def split: option.splits) (metis option.distinct(1))+

lemma print_dest_ok: "ntop_ok ntop \<Longrightarrow> from_inet msg \<Longrightarrow> \<exists>s. print_dest ntop msg = Inr s"
  using print_address_ok[of ntop]
  by (auto simp: print_dest_def unyte_udp_get_dest_addr_def from_inet_def split: option.split)

lemma free_deliverable: "deliverable msg \<Longrightarrow> unyte_udp_free_all (Some msg) = Inr 0"
  by (auto simp: deliverable_def printable_def unyte_udp_free_all_def unyte_udp_free_options_def)

lemma client_steps_ok:
  assumes "deliverable msg" "from_inet msg" "ntop_ok ntop"
  shows "\<exists>t. client_sample_step ntop msg = Inr t" "\<exists>t. client_socket_step ntop msg = Inr t"
    "opts_size (the (options (header msg))) < 244 \<Longrightarrow> \<exists>t. client_legacy_step msg = Inr t"
proof -
  obtain d where d: "print_dest ntop msg = Inr d" using print_dest_ok[OF assms(3,2)] by blast
  obtain h where h: "print_udp_notif_header (header msg) = Inr h"
    using assms(1) print_header_ok by (auto simp: deliverable_def)
  obtain a where a: "src (metadata msg) = Some a" using assms(1) by (auto simp: deliverable_def)
  obtain s where s: "print_address ntop ''src'' a = Inr s"
    using print_address_ok[OF assms(3), of a] assms(2) a by (auto simp: from_inet_def)
  note f = free_deliverable[OF assms(1)]
  show "\<exists>t. client_sample_step ntop msg = Inr t" using d h f by (simp add: client_sample_step_def)
  show "\<exists>t. client_socket_step ntop msg = Inr t"
    using d h f a s by (simp add: client_socket_step_def unyte_udp_get_src_def)
  assume "opts_size (the (options (header msg))) < 244"
  then have "unat (unyte_udp_get_payload_length msg) \<le> length (payload msg)" using assms(1) by (simp add: deliverable_def)
  then obtain p where "c_string_upto (unat (unyte_udp_get_payload_length msg)) (payload msg) = Inr p"
    using c_string_upto_ok by blast
  then show "\<exists>t. client_legacy_step msg = Inr t"
    using f by (simp add: client_legacy_step_def fmt_prec_s_def unyte_udp_get_payload_def)
qed

text \<open>
  A client that dealt with the first \<open>n\<close> entries of a queue: it printed what \<open>step\<close> prints for each, in
  order, and what was left in the queues was freed.
\<close>

definition printed :: "('a \<Rightarrow> fault + string) \<Rightarrow> 'a option list \<Rightarrow> string \<Rightarrow> bool" where
  "printed step xs txt \<longleftrightarrow> (\<exists>txts. map (\<lambda>x. Inr x) txts = map (\<lambda>x. step (the x)) xs \<and>
     txt = concat txts)"

lemma printedI:
  assumes "\<forall>x\<in>set xs. \<exists>s t. x = Some s \<and> step s = Inr t"
  shows "printed step xs (concat (map (\<lambda>x. projr (step (the x))) xs))"
  using assms unfolding printed_def
  by (intro exI[of _ "map (\<lambda>x. projr (step (the x))) xs"]) (auto intro!: map_cong)

abbreviation messages_ok :: "unyte_seg_met option list \<Rightarrow> bool" where
  "messages_ok \<equiv> list_all (\<lambda>x. \<exists>msg. x = Some msg \<and> deliverable msg \<and> from_inet msg)"

lemma messages_freed: "messages_ok xs \<Longrightarrow> list_all (\<lambda>x. \<exists>s. x = Some s \<and> options (header s) \<noteq> None) xs"
  by (fastforce simp: list_all_iff deliverable_def printable_def)

lemma client_main_run:
  assumes "queue_inv (c_queue c)" "queue_inv (c_monitoring_queue c) \<or>
      q_full (c_monitoring_queue c) = 0 \<and> q_list (c_monitoring_queue c) = []" "n \<le> length (q_list (c_queue c))"
    and "messages_ok (q_list (c_queue c))" and "\<And>msg. deliverable msg \<Longrightarrow> from_inet msg \<Longrightarrow>
      Some msg \<in> set (q_list (c_queue c)) \<Longrightarrow> \<exists>t. step msg = Inr t"
  shows "\<exists>txt. client_main step n c = Some (Inr (txt @ shutdown_text, drop n (q_list (c_queue c)), q_list (c_monitoring_queue c))) \<and>
    printed step (take n (q_list (c_queue c))) txt"
proof -
  let ?xs = "q_list (c_queue c)"
  have ok: "\<forall>x\<in>set (take n ?xs). \<exists>s t. x = Some s \<and> step s = Inr t"
    using assms(4,5) by (fastforce simp: list_all_iff dest!: in_set_takeD)
  then obtain q where q: "client_loop step n (c_queue c) =
      Some (Inr (concat (map (\<lambda>x. projr (step (the x))) (take n ?xs)), q))" "queue_inv q" "q_list q = drop n ?xs"
    using client_loop_run[OF assms(1,3)] by blast
  have "messages_ok (q_list q)" using assms(4) q(3) by (auto simp: list_all_iff dest: in_set_dropD)
  then have "unyte_udp_free_collector (c\<lparr>c_queue := q\<rparr>) = Some (Inr (q_list q, q_list (c_monitoring_queue c)))"
    using free_collector_frees_all[of "c\<lparr>c_queue := q\<rparr>"] messages_freed q(2) assms(2) by simp
  then show ?thesis using q printedI[OF ok] by (simp add: client_main_def shutdown_def)
qed

text \<open>
  The clients on a collector. On a collector at rest whose queues hold messages as the parsing workers deliver them, from
  IPv4 or IPv6 peers, and typed counter summaries, each example client with enough entries to read
  runs through without a fault: it prints exactly what its loop prints for the first entries of its queue, in the
  order of the queue, and then (the one that reads counters apart) frees every message and summary that is left, each once. For the
  client of the legacy protocol, which prints payloads with the length of the getter, the options of a
  message must take less than 244 bytes.
\<close>

theorem clients_consume_messages:
  assumes "queue_inv (c_queue c)" and "queue_inv (c_monitoring_queue c)" and "ntop_ok ntop"
    and "messages_ok (q_list (c_queue c))"
    and "list_all (\<lambda>x. \<exists>s. x = Some s \<and> sum_type s \<noteq> None) (q_list (c_monitoring_queue c))"
  shows "(10 \<le> length (q_list (c_queue c)) \<longrightarrow>
      (\<exists>txt. client_sample ntop c = Some (Inr (txt @ shutdown_text, drop 10 (q_list (c_queue c)), q_list (c_monitoring_queue c))) \<and>
        printed (client_sample_step ntop) (take 10 (q_list (c_queue c))) txt)) \<and>
    (20 \<le> length (q_list (c_queue c)) \<longrightarrow>
      (\<exists>txt. client_socket ntop c = Some (Inr (txt @ shutdown_text, drop 20 (q_list (c_queue c)), q_list (c_monitoring_queue c))) \<and>
        printed (client_socket_step ntop) (take 20 (q_list (c_queue c))) txt)) \<and>
    (10 \<le> length (q_list (c_queue c)) \<longrightarrow>
      (\<forall>msg. Some msg \<in> set (q_list (c_queue c)) \<longrightarrow> opts_size (the (options (header msg))) < 244) \<longrightarrow>
      (\<exists>txt. client_legacy_proto c = Some (Inr (txt @ shutdown_text, drop 10 (q_list (c_queue c)), q_list (c_monitoring_queue c))) \<and>
        printed client_legacy_step (take 10 (q_list (c_queue c))) txt)) \<and>
    (20 \<le> length (q_list (c_monitoring_queue c)) \<longrightarrow>
      (\<exists>txt q. client_monitoring c = Some (Inr (txt, q)) \<and> q_list q = drop 20 (q_list (c_monitoring_queue c)) \<and>
        printed unyte_udp_print_counters (take 20 (q_list (c_monitoring_queue c))) txt))"
proof (intro conjI impI)
  let ?xs = "q_list (c_queue c)" and ?ys = "q_list (c_monitoring_queue c)"
  note run = client_main_run[OF assms(1) disjI1[OF assms(2)] _ assms(4)]
  show "\<exists>txt. client_sample ntop c = Some (Inr (txt @ shutdown_text, drop 10 ?xs, ?ys)) \<and> printed (client_sample_step ntop) (take 10 ?xs) txt"
    if "10 \<le> length ?xs"
    unfolding client_sample_def using that client_steps_ok(1)[OF _ _ assms(3)] by (intro run)
  show "\<exists>txt. client_socket ntop c = Some (Inr (txt @ shutdown_text, drop 20 ?xs, ?ys)) \<and> printed (client_socket_step ntop) (take 20 ?xs) txt"
    if "20 \<le> length ?xs"
    unfolding client_socket_def using that client_steps_ok(2)[OF _ _ assms(3)] by (intro run)
  show "\<exists>txt. client_legacy_proto c = Some (Inr (txt @ shutdown_text, drop 10 ?xs, ?ys)) \<and> printed client_legacy_step (take 10 ?xs) txt"
    if "10 \<le> length ?xs" "\<forall>msg. Some msg \<in> set ?xs \<longrightarrow> opts_size (the (options (header msg))) < 244"
    unfolding client_legacy_proto_def using that client_steps_ok(3)[OF _ _ assms(3)] by (intro run) blast+
  assume len: "20 \<le> length ?ys"
  have ok: "\<forall>x\<in>set (take 20 ?ys). \<exists>s t. x = Some s \<and> unyte_udp_print_counters s = Inr t"
    using assms(5) by (fastforce simp: list_all_iff unyte_udp_print_counters_def read_set_def dest!: in_set_takeD)
  then obtain q where q: "client_loop unyte_udp_print_counters 20 (c_monitoring_queue c) =
      Some (Inr (concat (map (\<lambda>x. projr (unyte_udp_print_counters (the x))) (take 20 ?ys)), q))" "queue_inv q" "q_list q = drop 20 ?ys"
    using client_loop_run[OF assms(2) len] by blast
  then show "\<exists>txt q. client_monitoring c = Some (Inr (txt, q)) \<and> q_list q = drop 20 ?ys \<and>
      printed unyte_udp_print_counters (take 20 ?ys) txt"
    using printedI[OF ok] by (auto simp: client_monitoring_def)
qed

theorem clients_consume_messages_witness:
  "\<exists>txt. client_sample (\<lambda>_ _. Some ''10.0.0.1'') \<lparr>c_queue = loaded_queue (replicate 12 (Some sample_segment)),
      c_monitoring_queue = loaded_queue [], c_sockfd = 3\<rparr> =
    Some (Inr (txt @ shutdown_text, [Some sample_segment, Some sample_segment], []))"
proof -
  let ?c = "\<lparr>c_queue = loaded_queue (replicate 12 (Some sample_segment)), c_monitoring_queue = loaded_queue [], c_sockfd = 3\<rparr>"
  have "deliverable sample_segment"
    using parsed_deliverable[OF parse_sample] by (simp add: sample_min_def)
  moreover have "from_inet sample_segment"
    by (simp add: from_inet_def sample_segment_def sample_min_def)
  ultimately have "messages_ok (q_list (c_queue ?c))" by (simp add: loaded_queue_ok list_all_iff)
  moreover have "ntop_ok (\<lambda>_ _. Some ''10.0.0.1'')" by (simp add: ntop_ok_def)
  moreover have "queue_inv (c_queue ?c)" "queue_inv (c_monitoring_queue ?c)"
    "list_all (\<lambda>x. \<exists>s. x = Some s \<and> sum_type s \<noteq> None) (q_list (c_monitoring_queue ?c))"
    by (simp_all add: loaded_queue_ok)
  moreover have "10 \<le> length (q_list (c_queue ?c))"
    "drop 10 (q_list (c_queue ?c)) = [Some sample_segment, Some sample_segment]" "q_list (c_monitoring_queue ?c) = []"
    by (simp_all add: loaded_queue_ok numeral_2_eq_2 del: length_q_list)
  ultimately show ?thesis using clients_consume_messages[of ?c "\<lambda>_ _. Some ''10.0.0.1''"] by auto
qed

end
