(* ===== verification/Load_Balancer.thy ===== *)
theory Load_Balancer
  imports Prelude
begin

unbundle bit_operations_syntax

text \<open>
  The eBPF load balancer of \<^verbatim>\<open>examples/eBPF\<close>: several collectors listen on one address and port,
  and a program in the kernel (\<^verbatim>\<open>reuseport_udp_kern.c\<close>) chooses for each packet the socket of one of
  them by the source address. \<^verbatim>\<open>client_ebpf_user.c\<close> loads the program and enters its socket.

  The maps of the program are pinned, so all instances share them. What the kernel and
  \<^verbatim>\<open>libbpf\<close> answer is an argument: for a packet its protocol, the source address that
  \<^verbatim>\<open>bpf_skb_load_bytes_relative\<close> stored, and the value of \<^verbatim>\<open>bpf_get_prandom_u32\<close>; whether a
  socket matches the packet; which calls of the loader succeed. The lookup of index 0 in an
  array map always succeeds. The trace output is left out.
\<close>

section \<open>The program in the kernel\<close>

abbreviation MAX_BALANCER_COUNT :: u32 where "MAX_BALANCER_COUNT \<equiv> 128"
abbreviation IPPROTO_TCP :: u32 where "IPPROTO_TCP \<equiv> 6"
abbreviation IPPROTO_UDP :: u32 where "IPPROTO_UDP \<equiv> 17"
abbreviation JHASH_INITVAL :: u32 where "JHASH_INITVAL \<equiv> 0xdeadbeef"

datatype sk_action = SK_DROP | SK_PASS

record bpf_maps =
  nonce :: u32
  balancer_size :: u32
  tcp_balancing_targets :: "u32 \<Rightarrow> int option"
  udp_balancing_targets :: "u32 \<Rightarrow> int option"

record sk_reuseport_md =
  ip_protocol :: u32
  ip_saddr :: u32
  prandom :: u32

definition rol32 :: "u32 \<Rightarrow> u32 \<Rightarrow> u32" where
  "rol32 word shift = push_bit (unat (shift AND 31)) word OR drop_bit (unat ((- shift) AND 31)) word"

definition jhash_final :: "u32 \<times> u32 \<times> u32 \<Rightarrow> u32 \<times> u32 \<times> u32" where
  "jhash_final abc =
     (let (a, b, c) = abc;
          c = c XOR b; c = c - rol32 b 14;
          a = a XOR c; a = a - rol32 c 11;
          b = b XOR a; b = b - rol32 a 25;
          c = c XOR b; c = c - rol32 b 16;
          a = a XOR c; a = a - rol32 c 4;
          b = b XOR a; b = b - rol32 a 14;
          c = c XOR b; c = c - rol32 b 24 in
      (a, b, c))"

definition hash :: "u32 \<Rightarrow> u32 \<Rightarrow> bpf_maps \<Rightarrow> u32 \<times> bpf_maps" where
  "hash ip rnd m =
     (let m1 = (if nonce m = 0 then m\<lparr>nonce := rnd\<rparr> else m);
          initval = nonce m1 + (JHASH_INITVAL + push_bit 2 3);
          (a, b, c) = jhash_final (ip + initval, initval, initval) in
      (c, m1))"

text \<open>
  \<^verbatim>\<open>bpf_sk_select_reuseport\<close> finds the socket at an index of the array, if there is one and it
  matches the packet; it returns 0 exactly then.
\<close>

definition bpf_sk_select_reuseport :: "(int \<Rightarrow> bool) \<Rightarrow> (u32 \<Rightarrow> int option) \<Rightarrow> u32 \<Rightarrow> int option" where
  "bpf_sk_select_reuseport matching targets key =
     (if key < MAX_BALANCER_COUNT
      then (case targets key of None \<Rightarrow> None | Some sk \<Rightarrow> if matching sk then Some sk else None)
      else None)"

text \<open>
  The result is the action, the chosen socket and the maps. \<^verbatim>\<open>__builtin_bswap32\<close> reverses the
  bytes of the source address, as \<open>ntohl\<close> does.
\<close>

definition selector ::
  "(int \<Rightarrow> bool) \<Rightarrow> sk_reuseport_md \<Rightarrow> bpf_maps \<Rightarrow> fault + (sk_action \<times> int option \<times> bpf_maps)" where
  "selector matching reuse m =
     (let targets =
        (if ip_protocol reuse = IPPROTO_TCP then Some (tcp_balancing_targets m)
         else if ip_protocol reuse = IPPROTO_UDP then Some (udp_balancing_targets m)
         else None) in
      case targets of
        None \<Rightarrow> Inr (SK_DROP, None, m)
      | Some ts \<Rightarrow>
          (let m1 = (if balancer_size m = 0 then m\<lparr>balancer_size := MAX_BALANCER_COUNT\<rparr> else m);
               balancer_count = balancer_size m1;
               (h, m2) = hash (ntohl (ip_saddr reuse)) (prandom reuse) m1 in
           if balancer_count = 0 then Inl Div_By_Zero
           else
             (case bpf_sk_select_reuseport matching ts (h mod balancer_count) of
                Some sk \<Rightarrow> Inr (SK_PASS, Some sk, m2)
              | None \<Rightarrow> Inr (SK_DROP, None, m2))))"

text \<open>A sequence of packets.\<close>

fun selections ::
  "(int \<Rightarrow> bool) \<Rightarrow> sk_reuseport_md list \<Rightarrow> bpf_maps \<Rightarrow> fault + ((sk_action \<times> int option) list \<times> bpf_maps)"
where
  "selections matching [] m = Inr ([], m)"
| "selections matching (p # ps) m =
     bind_fault (selector matching p m) (\<lambda>(a, sk, m1).
     bind_fault (selections matching ps m1) (\<lambda>(rs, m2). Inr ((a, sk) # rs, m2)))"

section \<open>The loader\<close>

text \<open>Which calls succeed, and the file descriptors they return.\<close>

record libbpf =
  bpf_open :: bool
  find_udpmap :: bool
  bpf_load :: bool
  find_prog :: bool
  prog_fd :: int
  umap_fd :: int
  attach_prog :: bool
  update_targets :: bool
  find_size_map :: bool
  size_map_fd :: int
  update_size :: bool

text \<open>
  \<open>None\<close> is a failed assertion, which ends the process. An update of the array of sockets fails for an
  index that the array does not have.
\<close>

definition set_size :: "libbpf \<Rightarrow> u32 \<Rightarrow> int \<Rightarrow> bpf_maps \<Rightarrow> (int \<times> bpf_maps) option" where
  "set_size lib balancer_count usock m =
     Some (if update_size lib then (usock, m\<lparr>balancer_size := balancer_count\<rparr>) else (1, m))"

definition attach_ebpf_to_socket ::
  "libbpf \<Rightarrow> int \<Rightarrow> u32 \<Rightarrow> u32 \<Rightarrow> bpf_maps \<Rightarrow> (int \<times> bpf_maps) option" where
  "attach_ebpf_to_socket lib socketfd key balancer_count m =
     (if \<not> (balancer_count = 0 \<or> key < balancer_count) then None
      else if \<not> balancer_count \<le> MAX_BALANCER_COUNT then None
      else if \<not> 0 \<le> socketfd then None
      else if \<not> bpf_open lib then Some (1, m)
      else if \<not> find_udpmap lib then None
      else if \<not> bpf_load lib then Some (1, m)
      else if \<not> find_prog lib then Some (1, m)
      else if prog_fd lib = 0 \<or> umap_fd lib = 0 then None
      else if \<not> attach_prog lib then Some (1, m)
      else if \<not> (update_targets lib \<and> key < MAX_BALANCER_COUNT) then Some (1, m)
      else
        (let m1 = m\<lparr>udp_balancing_targets := (udp_balancing_targets m)(key := Some socketfd)\<rparr> in
         if \<not> find_size_map lib \<or> size_map_fd lib = 0 then None
         else if balancer_count = 0 then
           (if balancer_size m1 = 0 then set_size lib MAX_BALANCER_COUNT socketfd m1
            else Some (socketfd, m1))
         else set_size lib balancer_count socketfd m1))"

text \<open>Several instances, one after the other, each with its index and its socket.\<close>

fun attach_instances ::
  "libbpf \<Rightarrow> u32 \<Rightarrow> (u32 \<times> int) list \<Rightarrow> bpf_maps \<Rightarrow> (int list \<times> bpf_maps) option"
where
  "attach_instances lib n [] m = Some ([], m)"
| "attach_instances lib n ((key, fd) # is) m =
     (case attach_ebpf_to_socket lib fd key n m of
        None \<Rightarrow> None
      | Some (r, m1) \<Rightarrow> map_option (\<lambda>(rs, m2). (r # rs, m2)) (attach_instances lib n is m1))"

section \<open>The hash\<close>

text \<open>The shift by \<^verbatim>\<open>-shift & 31\<close> makes \<^verbatim>\<open>rol32\<close> the rotation, a shift by 0 included.\<close>

lemma rol32_rotl:
  assumes "n < 32"
  shows "rol32 w (of_nat n) = word_rotl n w"
proof -
  have m: "unat (x AND 31) = unat x mod 32" for x :: u32
  proof -
    have "x AND 31 = take_bit 5 x" by (simp add: take_bit_eq_mask mask_eq_exp_minus_1)
    then show ?thesis by (simp add: unsigned_take_bit_eq take_bit_nat_def)
  qed
  have l: "unat (of_nat n AND (31 :: u32)) = n"
    using assms by (simp add: m unat_of_nat_small)
  have r: "unat (- of_nat n AND (31 :: u32)) = (32 - n) mod 32"
  proof (cases "n = 0")
    case False
    have neg: "(- of_nat n :: u32) = of_nat (2 ^ 32 - n)"
      using assms by (subst of_nat_diff) simp_all
    have "unat (- of_nat n :: u32) = 2 ^ 32 - n"
      unfolding neg using False by (intro unat_of_nat_small) simp
    also have "\<dots> = 32 * (2 ^ 27 - 1) + (32 - n)" using assms by simp
    finally have "unat (- of_nat n :: u32) mod 32 = (32 - n) mod 32" by (simp only: mod_mult_self4)
    then show ?thesis unfolding m .
  qed simp
  show ?thesis
  proof (rule bit_word_eqI)
    fix k assume k: "k < LENGTH(32)"
    show "bit (rol32 w (of_nat n)) k = bit (word_rotl n w) k"
    proof (cases "k < n")
      case True
      then have "(k + (32 - n)) mod 32 = k + (32 - n)" "(32 - n) mod 32 = 32 - n" using assms by simp_all
      then show ?thesis
        using True k assms by (simp add: rol32_def l r bit_simps Groups.add_ac(2)[of "32 - n" k])
    next
      case False
      then have "(k + (32 - n)) mod 32 = k - n" using assms k by (simp add: le_mod_geq)
      then show ?thesis
        using False k assms
        by (cases "n = 0") (auto simp: rol32_def l r bit_simps dest: bit_imp_le_length)
    qed
  qed
qed

text \<open>The mixing steps can be undone, so that no two states are mixed to the same one.\<close>

definition jhash_unmix :: "u32 \<times> u32 \<times> u32 \<Rightarrow> u32 \<times> u32 \<times> u32" where
  "jhash_unmix abc =
     (let (a, b, c) = abc;
          c = (c + rol32 b 24) XOR b;
          b = (b + rol32 a 14) XOR a;
          a = (a + rol32 c 4) XOR c;
          c = (c + rol32 b 16) XOR b;
          b = (b + rol32 a 25) XOR a;
          a = (a + rol32 c 11) XOR c;
          c = (c + rol32 b 14) XOR b in
      (a, b, c))"

lemma xor_undo: "(x XOR y) XOR y = (x :: u32)"
  by (simp add: xor.assoc)

lemma jhash_unmix: "jhash_unmix (jhash_final abc) = abc"
  by (cases abc) (simp add: jhash_unmix_def jhash_final_def Let_def xor_undo)

lemma jhash_final_inj: "inj jhash_final"
  by (rule inj_on_inverseI) (rule jhash_unmix)

section \<open>Where packets go\<close>

definition ports :: "sk_reuseport_md \<Rightarrow> bool" where
  "ports p \<longleftrightarrow> ip_protocol p = IPPROTO_TCP \<or> ip_protocol p = IPPROTO_UDP"

definition balancer_count :: "bpf_maps \<Rightarrow> u32" where
  "balancer_count m = (if balancer_size m = 0 then MAX_BALANCER_COUNT else balancer_size m)"

definition targets_for :: "sk_reuseport_md \<Rightarrow> bpf_maps \<Rightarrow> u32 \<Rightarrow> int option" where
  "targets_for p m = (if ip_protocol p = IPPROTO_TCP then tcp_balancing_targets m else udp_balancing_targets m)"

text \<open>The choice for a packet, as a function of its protocol and source address.\<close>

definition choice :: "(int \<Rightarrow> bool) \<Rightarrow> bpf_maps \<Rightarrow> sk_reuseport_md \<Rightarrow> sk_action \<times> int option" where
  "choice matching m p =
     (if ports p then
        (case bpf_sk_select_reuseport matching (targets_for p m)
            (fst (hash (ntohl (ip_saddr p)) (prandom p) m) mod balancer_count m) of
           Some sk \<Rightarrow> (SK_PASS, Some sk) | None \<Rightarrow> (SK_DROP, None))
      else (SK_DROP, None))"

lemma fst_hash: "nonce m \<noteq> 0 \<Longrightarrow> hash ip rnd m = (fst (hash ip 1 m), m)"
  by (simp add: hash_def Let_def case_prod_beta)

lemma hash_nonce: "nonce m = 0 \<Longrightarrow> rnd \<noteq> 0 \<Longrightarrow> hash ip rnd m = hash ip rnd (m\<lparr>nonce := rnd\<rparr>)"
  by (simp add: hash_def Let_def case_prod_beta)

lemma hash_size: "fst (hash ip rnd (m\<lparr>balancer_size := n\<rparr>)) = fst (hash ip rnd m)"
  by (simp add: hash_def Let_def case_prod_beta)

lemma selector_run:
  assumes "nonce m \<noteq> 0 \<or> prandom p \<noteq> 0"
  defines "m0 \<equiv> (if nonce m = 0 then m\<lparr>nonce := prandom p\<rparr> else m)"
  shows "selector matching p m =
    Inr (fst (choice matching m0 p), snd (choice matching m0 p),
      if ports p then m0\<lparr>balancer_size := balancer_count m\<rparr> else m)"
proof (cases "ports p")
  case True
  let ?m1 = "if balancer_size m = 0 then m\<lparr>balancer_size := MAX_BALANCER_COUNT\<rparr> else m"
  let ?m2 = "m0\<lparr>balancer_size := balancer_count m\<rparr>"
  have h: "hash ip (prandom p) ?m1 = (fst (hash ip (prandom p) m0), ?m2)" for ip
    using assms(1) by (simp add: hash_def m0_def balancer_count_def Let_def case_prod_beta)
  have c: "balancer_size ?m1 = balancer_count m" "balancer_count m0 = balancer_count m" "balancer_count m \<noteq> 0"
    "targets_for p m0 = targets_for p m"
    by (simp_all add: balancer_count_def m0_def targets_for_def)
  have t: "(if ip_protocol p = IPPROTO_TCP then Some (tcp_balancing_targets m)
      else if ip_protocol p = IPPROTO_UDP then Some (udp_balancing_targets m) else None) = Some (targets_for p m)"
    using True by (auto simp: ports_def targets_for_def)
  show ?thesis
    unfolding selector_def t Let_def h c choice_def
    using True c(3) by (simp split: option.splits)
next
  case False
  then show ?thesis by (simp add: selector_def choice_def ports_def)
qed

text \<open>All packets of a sequence are treated with one nonce.\<close>

lemma choice_cong:
  assumes "nonce m = nonce m'" "nonce m \<noteq> 0" "balancer_count m = balancer_count m'" "\<And>p. targets_for p m = targets_for p m'"
    and "ip_protocol p = ip_protocol p'" "ip_saddr p = ip_saddr p'"
  shows "choice matching m p = choice matching m' p'"
proof -
  have h: "fst (hash (ntohl (ip_saddr p)) (prandom p) m) = fst (hash (ntohl (ip_saddr p')) (prandom p') m')"
    using assms(1,2,6) by (simp add: hash_def Let_def case_prod_beta)
  have t: "targets_for p m = targets_for p' m'" "ports p = ports p'"
    using assms(4)[of p] assms(5) by (simp_all add: targets_for_def ports_def)
  show ?thesis unfolding choice_def h t assms(3) ..
qed

lemma selections_run:
  assumes "nonce m \<noteq> 0 \<or> (\<forall>p\<in>set ps. prandom p \<noteq> 0)"
  shows "\<exists>N m'. N \<noteq> 0 \<and> (nonce m \<noteq> 0 \<longrightarrow> N = nonce m) \<and>
    selections matching ps m = Inr (map (choice matching (m\<lparr>nonce := N\<rparr>)) ps, m')"
  using assms
proof (induction ps arbitrary: m)
  case Nil
  then show ?case by (cases "nonce m = 0") (auto intro: exI[of _ 1])
next
  case (Cons p ps)
  define m0 where "m0 = (if nonce m = 0 then m\<lparr>nonce := prandom p\<rparr> else m)"
  let ?m1 = "if ports p then m0\<lparr>balancer_size := balancer_count m\<rparr> else m"
  have rnd: "nonce m \<noteq> 0 \<or> prandom p \<noteq> 0" using Cons.prems by auto
  have sel: "selector matching p m = Inr (fst (choice matching m0 p), snd (choice matching m0 p), ?m1)"
    using selector_run[OF rnd] by (simp add: m0_def)
  have "nonce ?m1 \<noteq> 0 \<or> (\<forall>p\<in>set ps. prandom p \<noteq> 0)" using Cons.prems by (auto simp: m0_def)
  then obtain N m' where N: "N \<noteq> 0" "nonce ?m1 \<noteq> 0 \<longrightarrow> N = nonce ?m1"
    "selections matching ps ?m1 = Inr (map (choice matching (?m1\<lparr>nonce := N\<rparr>)) ps, m')"
    using Cons.IH by blast
  have "choice matching (?m1\<lparr>nonce := N\<rparr>) q = choice matching (m\<lparr>nonce := N\<rparr>) q" for q
    using N(1) by (intro choice_cong) (auto simp: m0_def balancer_count_def targets_for_def)
  moreover have "choice matching m0 p = choice matching (m\<lparr>nonce := N\<rparr>) p"
  proof (cases "ports p")
    case True
    then have "N = nonce m0" using N(2) rnd by (auto simp: m0_def split: if_splits)
    moreover have "nonce m0 \<noteq> 0" using rnd by (simp add: m0_def)
    ultimately show ?thesis by (intro choice_cong) (auto simp: m0_def balancer_count_def targets_for_def)
  qed (simp add: choice_def)
  moreover have "nonce m \<noteq> 0 \<longrightarrow> N = nonce m" using N(2) by (auto simp: m0_def split: if_splits)
  ultimately show ?case using sel N(1,3) by auto
qed


text \<open>
  C34. Packets of one source stay together. Whatever packets arrive, on maps that the loader
  does not touch meanwhile, the program never divides by zero, and any two packets with the same
  protocol and source address are given to the same socket, or both dropped, as long as the nonce
  is set or the random value it is set to is not 0. The number of hash buckets may still be unset.
\<close>

theorem source_stays_with_socket:
  assumes "nonce m \<noteq> 0 \<or> (\<forall>p\<in>set ps. prandom p \<noteq> 0)"
  shows "\<exists>rs m'. selections matching ps m = Inr (rs, m') \<and> length rs = length ps \<and>
    (\<forall>i<length ps. \<forall>j<length ps. ip_protocol (ps ! i) = ip_protocol (ps ! j) \<longrightarrow>
      ip_saddr (ps ! i) = ip_saddr (ps ! j) \<longrightarrow> rs ! i = rs ! j)"
proof -
  obtain N m' where N: "N \<noteq> 0"
    "selections matching ps m = Inr (map (choice matching (m\<lparr>nonce := N\<rparr>)) ps, m')"
    using selections_run[OF assms] by blast
  let ?c = "choice matching (m\<lparr>nonce := N\<rparr>)"
  have "map ?c ps ! i = map ?c ps ! j"
    if "i < length ps" "j < length ps" "ip_protocol (ps ! i) = ip_protocol (ps ! j)" "ip_saddr (ps ! i) = ip_saddr (ps ! j)" for i j
  proof -
    have "?c (ps ! i) = ?c (ps ! j)" using that(3,4) N(1) by (intro choice_cong) simp_all
    then show ?thesis using that(1,2) by simp
  qed
  then show ?thesis
    by (intro exI[of _ "map ?c ps"] exI[of _ m'] conjI N(2)) (simp, blast)
qed

text \<open>With a random value of 0 the nonce stays unset, and the next packet draws it again.\<close>

lemma zero_nonce_stays_unset:
  assumes "nonce m = 0" "prandom p = 0" "selector matching p m = Inr (a, sk, m')"
  shows "nonce m' = 0"
  using assms
  by (auto simp: selector_def hash_def Let_def case_prod_beta split: if_splits option.splits)

definition sample_maps :: bpf_maps where
  "sample_maps = \<lparr>nonce = 0, balancer_size = 2, tcp_balancing_targets = (\<lambda>_. None),
     udp_balancing_targets = (\<lambda>_. None)(0 := Some 5, 1 := Some 6)\<rparr>"

definition sample_skb :: "u32 \<Rightarrow> sk_reuseport_md" where
  "sample_skb rnd = \<lparr>ip_protocol = IPPROTO_UDP, ip_saddr = 0x0100000a, prandom = rnd\<rparr>"

theorem source_stays_with_socket_witness:
  "\<exists>rs m'. selections (\<lambda>_. True) [sample_skb 7, sample_skb 8] sample_maps = Inr (rs, m') \<and> rs ! 0 = rs ! 1"
proof -
  have "nonce sample_maps \<noteq> 0 \<or> (\<forall>p\<in>set [sample_skb 7, sample_skb 8]. prandom p \<noteq> 0)"
    by (simp add: sample_skb_def)
  from source_stays_with_socket[OF this, of "\<lambda>_. True"] show ?thesis
    by (auto simp: sample_skb_def)
qed

section \<open>All instances together\<close>

text \<open>A system on which loading works.\<close>

definition loads :: "libbpf \<Rightarrow> bool" where
  "loads lib \<longleftrightarrow> bpf_open lib \<and> find_udpmap lib \<and> bpf_load lib \<and> find_prog lib \<and> prog_fd lib \<noteq> 0 \<and>
     umap_fd lib \<noteq> 0 \<and> attach_prog lib \<and> update_targets lib \<and> find_size_map lib \<and> size_map_fd lib \<noteq> 0 \<and>
     update_size lib"

lemma attach_run:
  assumes "loads lib" "0 < n" "n \<le> MAX_BALANCER_COUNT" "key < n" "0 \<le> fd"
  shows "attach_ebpf_to_socket lib fd key n m =
    Some (fd, m\<lparr>udp_balancing_targets := (udp_balancing_targets m)(key := Some fd), balancer_size := n\<rparr>)"
proof -
  have "n \<noteq> 0" "key < MAX_BALANCER_COUNT" using assms(2-4) by (auto intro: less_le_trans)
  with assms show ?thesis by (simp add: attach_ebpf_to_socket_def loads_def set_size_def)
qed

lemma attach_instances_run:
  assumes "loads lib" "0 < n" "n \<le> MAX_BALANCER_COUNT" "\<forall>(k, fd)\<in>set insts. k < n \<and> 0 \<le> fd" "distinct (map fst insts)"
  shows "\<exists>m'. attach_instances lib n insts m = Some (map snd insts, m') \<and> nonce m' = nonce m \<and>
    (insts \<noteq> [] \<longrightarrow> balancer_size m' = n) \<and>
    udp_balancing_targets m' = (\<lambda>k. case map_of insts k of None \<Rightarrow> udp_balancing_targets m k | Some fd \<Rightarrow> Some fd)"
  using assms(4,5)
proof (induction insts arbitrary: m)
  case (Cons x insts)
  obtain k fd where x: "x = (k, fd)" by (cases x)
  let ?m1 = "m\<lparr>udp_balancing_targets := (udp_balancing_targets m)(k := Some fd), balancer_size := n\<rparr>"
  have a: "attach_ebpf_to_socket lib fd k n m = Some (fd, ?m1)"
    using attach_run[OF assms(1-3)] Cons.prems(1) x by auto
  obtain m' where m': "attach_instances lib n insts ?m1 = Some (map snd insts, m')" "nonce m' = nonce ?m1"
    "insts \<noteq> [] \<longrightarrow> balancer_size m' = n"
    "udp_balancing_targets m' = (\<lambda>j. case map_of insts j of None \<Rightarrow> udp_balancing_targets ?m1 j | Some fd \<Rightarrow> Some fd)"
    using Cons.IH[of ?m1] Cons.prems by auto
  have "map_of insts k = None" using Cons.prems(2) x by (simp add: map_of_eq_None_iff)
  then have "udp_balancing_targets m' = (\<lambda>j. case map_of (x # insts) j of None \<Rightarrow> udp_balancing_targets m j | Some fd \<Rightarrow> Some fd)"
    using m'(4) x by (auto simp: fun_eq_iff split: option.splits)
  moreover have "balancer_size m' = n"
  proof (cases insts)
    case Nil
    with m'(1) show ?thesis by auto
  qed (use m'(3) in simp)
  ultimately show ?case using a m'(1,2) x by simp
qed simp

text \<open>
  C35. Instances that cover all buckets lose nothing. When \<open>n\<close> collectors, at most 128, attach their
  sockets with the indices from 0 to \<open>n - 1\<close> in any order, each attachment succeeds and returns its
  socket, and from then on every UDP packet whose sockets match is passed to one of
  these sockets: the one whose index is the hash of its source address modulo \<open>n\<close>.
\<close>

theorem attached_instances_receive_all:
  assumes "loads lib" and "0 < n" and "n \<le> MAX_BALANCER_COUNT" and "distinct (map fst insts)"
    and "fst ` set insts = {k. k < n}" and "\<forall>(k, fd)\<in>set insts. 0 \<le> fd \<and> matching fd"
  shows "\<exists>m'. attach_instances lib n insts m = Some (map snd insts, m') \<and>
    (\<forall>p. ip_protocol p = IPPROTO_UDP \<longrightarrow>
      (\<exists>h m2 fd m3. hash (ntohl (ip_saddr p)) (prandom p) m' = (h, m2) \<and> (h mod n, fd) \<in> set insts \<and>
        selector matching p m' = Inr (SK_PASS, Some fd, m3)))"
proof -
  have "\<forall>(k, fd)\<in>set insts. k < n \<and> 0 \<le> fd" using assms(5,6) by force
  then obtain m' where m': "attach_instances lib n insts m = Some (map snd insts, m')" "insts \<noteq> [] \<longrightarrow> balancer_size m' = n"
    "udp_balancing_targets m' = (\<lambda>k. case map_of insts k of None \<Rightarrow> udp_balancing_targets m k | Some fd \<Rightarrow> Some fd)"
    using attach_instances_run[OF assms(1-3) _ assms(4), of m] by blast
  have "insts \<noteq> []" using assms(2,5) by auto
  with m'(2) have size: "balancer_size m' = n" "n \<noteq> 0" using assms(2) by auto
  have "\<exists>fd m3. (fst (hash (ntohl (ip_saddr p)) (prandom p) m') mod n, fd) \<in> set insts \<and>
      selector matching p m' = Inr (SK_PASS, Some fd, m3)" if udp: "ip_protocol p = IPPROTO_UDP" for p
  proof -
    let ?k = "fst (hash (ntohl (ip_saddr p)) (prandom p) m') mod n"
    have k: "?k < n" using size(2) by (simp add: word_mod_less_divisor word_neq_0_conv)
    then have "?k \<in> fst ` set insts" using assms(5) by simp
    then obtain fd where fd: "map_of insts ?k = Some fd" "(?k, fd) \<in> set insts"
      by (metis map_of_eq_None_iff map_of_SomeD not_None_eq)
    then have "matching fd" using assms(6) by blast
    moreover have "?k < MAX_BALANCER_COUNT" using k assms(3) by (rule less_le_trans)
    ultimately have "bpf_sk_select_reuseport matching (udp_balancing_targets m') ?k = Some fd"
      using m'(3) fd(1) by (simp add: bpf_sk_select_reuseport_def)
    then show ?thesis
      using udp size fd(2) by (simp add: selector_def Let_def case_prod_beta)
  qed
  then show ?thesis using m'(1) by (metis prod.collapse)
qed

definition sample_lib :: libbpf where
  "sample_lib = \<lparr>bpf_open = True, find_udpmap = True, bpf_load = True, find_prog = True, prog_fd = 8,
     umap_fd = 9, attach_prog = True, update_targets = True, find_size_map = True, size_map_fd = 10,
     update_size = True\<rparr>"

theorem attached_instances_receive_all_witness:
  "\<exists>m' fd m3. attach_instances sample_lib 2 [(1, 6), (0, 5)] (sample_maps\<lparr>udp_balancing_targets := (\<lambda>_. None)\<rparr>) =
      Some ([6, 5], m') \<and>
    selector (\<lambda>_. True) (sample_skb 7) m' = Inr (SK_PASS, Some fd, m3) \<and> fd \<in> {5, 6}"
proof -
  have "{k. k < (2 :: u32)} = {0, 1}"
  proof -
    have "k < 2 \<longleftrightarrow> k = 0 \<or> k = 1" for k :: u32
      by (auto simp: word_less_nat_alt word_unat_eq_iff less_2_cases_iff)
    then show ?thesis by auto
  qed
  then have s: "fst ` set [(1, 6), (0, 5 :: int)] = {k. k < (2 :: u32)}" by auto
  have l: "loads sample_lib" by (simp add: loads_def sample_lib_def)
  have d: "distinct (map fst [(1, 6), (0 :: u32, 5 :: int)])" "\<forall>(k, fd)\<in>set [(1 :: u32, 6), (0, 5 :: int)]. 0 \<le> fd \<and> True"
    by simp_all
  have n: "0 < (2 :: u32)" "2 \<le> MAX_BALANCER_COUNT" "ip_protocol (sample_skb 7) = IPPROTO_UDP"
    by (simp_all add: sample_skb_def)
  obtain m' where m': "attach_instances sample_lib 2 [(1, 6), (0, 5)] (sample_maps\<lparr>udp_balancing_targets := (\<lambda>_. None)\<rparr>) =
      Some (map snd [(1 :: u32, 6), (0, 5)], m')"
    "\<forall>p. ip_protocol p = IPPROTO_UDP \<longrightarrow> (\<exists>h m2 fd m3. hash (ntohl (ip_saddr p)) (prandom p) m' = (h, m2) \<and>
      (h mod 2, fd) \<in> set [(1, 6), (0, 5)] \<and> selector (\<lambda>_. True) p m' = Inr (SK_PASS, Some fd, m3))"
    using attached_instances_receive_all[OF l n(1,2) d(1) s d(2), of "sample_maps\<lparr>udp_balancing_targets := (\<lambda>_. None)\<rparr>"]
    by blast
  obtain h fd m3 where "(h mod 2, fd) \<in> set [(1 :: u32, 6), (0, 5)]" "selector (\<lambda>_. True) (sample_skb 7) m' = Inr (SK_PASS, Some fd, m3)"
    using m'(2) n(3) by blast
  moreover from this(1) have "fd \<in> {5, 6}" by auto
  ultimately show ?thesis using m'(1) by auto
qed

end
