(* ===== verification/Example_Senders.thy ===== *)
theory Example_Senders
  imports Sockets Printing
begin

text \<open>
  The example senders: \<^verbatim>\<open>examples/sender_sample.c\<close>, \<^verbatim>\<open>sender_json.c\<close>, \<^verbatim>\<open>sender_json_bind_interface.c\<close>,
  \<^verbatim>\<open>sender_cbor.c\<close> and \<^verbatim>\<open>sender_custom_encoding.c\<close>, from their arguments to the end of \<^verbatim>\<open>main\<close>. The files are
  an argument, a partial function from names to contents, and so is what a new buffer contains before it is
  written to. A run is the value the process ends with, what \<^verbatim>\<open>main\<close> prints, the system calls, and the datagrams.
\<close>

section \<open>Data\<close>

abbreviation MTU :: u32 where "MTU \<equiv> 1500"
abbreviation UNYTE_SPACE_STANDARD :: "1 word" where "UNYTE_SPACE_STANDARD \<equiv> 0"
abbreviation UNYTE_SPACE_NON_STANDARD :: "1 word" where "UNYTE_SPACE_NON_STANDARD \<equiv> 1"
abbreviation UNYTE_TYPE_PRIVATE_ENCODING :: u8 where "UNYTE_TYPE_PRIVATE_ENCODING \<equiv> 2"

record program_run =
  exit_code :: int
  out_text :: string
  out_calls :: "syscall list"
  out_datagrams :: "bytes list"

record buffer_to_send =
  bts_buffer :: bytes
  bts_len :: u32

type_synonym files = "string \<Rightarrow> bytes option"

definition to_bytes :: "string \<Rightarrow> bytes" where
  "to_bytes s = map (\<lambda>c. of_nat (of_char c)) s"

section \<open>Reading a file\<close>

text \<open>
  \<^verbatim>\<open>fread(buffer, n, 1, fptr)\<close> fills the buffer as far as the file goes. What it returns is not looked at, so that a
  shorter file leaves the rest of the buffer as \<^verbatim>\<open>malloc\<close> made it.
\<close>

definition fread :: "nat \<Rightarrow> bytes \<Rightarrow> bytes \<Rightarrow> bytes" where
  "fread n contents junk = take n contents @ drop (length contents) (take n junk)"

text \<open>\<^verbatim>\<open>snprintf\<close> writes at most one character less than the size of the name.\<close>

definition json_file_name :: "u32 \<Rightarrow> string" where
  "json_file_name n =
     (let filename_size = (if n > 999 then 25 else 24) in
      take (filename_size - 1) (''resources/json-'' @ fmt_d n @ ''.json''))"

definition load_file ::
  "files \<Rightarrow> bytes \<Rightarrow> string \<Rightarrow> u32 \<Rightarrow> bool \<Rightarrow> fault + buffer_to_send option" where
  "load_file files junk filename n have_buffer =
     (case files filename of
        None \<Rightarrow> Inr None
      | Some contents \<Rightarrow>
          if \<not> have_buffer then Inl Null_Deref
          else Inr (Some \<lparr>bts_buffer = fread (unat n) contents junk, bts_len = n\<rparr>))"

text \<open>None of the allocations is checked. \<open>Inr (None, _)\<close> is the end of the process when the file cannot be opened.\<close>

definition read_json_file ::
  "files \<Rightarrow> bytes \<Rightarrow> u32 \<Rightarrow> allocs \<Rightarrow> fault + (buffer_to_send option \<times> allocs)" where
  "read_json_file files junk n as =
     (let (ok1, as1) = malloc as; (ok2, as2) = malloc as1; (ok3, as3) = malloc as2 in
      if \<not> ok1 \<or> \<not> ok3 then Inl Null_Deref
      else bind_fault (load_file files junk (json_file_name n) n ok2) (\<lambda>bf. Inr (bf, as3)))"

definition read_cbor_file :: "files \<Rightarrow> bytes \<Rightarrow> allocs \<Rightarrow> fault + (buffer_to_send option \<times> allocs)" where
  "read_cbor_file files junk as =
     (let (ok1, as1) = malloc as; (ok2, as2) = malloc as1 in
      if \<not> ok1 then Inl Null_Deref
      else bind_fault (load_file files junk ''resources/cbor-example.cbor'' 754 ok2) (\<lambda>bf. Inr (bf, as2)))"

section \<open>Messages\<close>

definition plain_message :: "4 word \<Rightarrow> buffer_to_send \<Rightarrow> unyte_message" where
  "plain_message media b = \<lparr>used_mtu = 0, msg_buffer = bts_buffer b, buffer_len = bts_len b, msg_version = 0,
     msg_space = UNYTE_SPACE_STANDARD, msg_media_type = media, msg_observation_domain_id = 1000,
     msg_message_id = 2147483669, msg_options = [], options_len = 0\<rparr>"

definition json_message :: "buffer_to_send \<Rightarrow> unyte_message" where
  "json_message = plain_message 1"

definition cbor_message :: "buffer_to_send \<Rightarrow> unyte_message" where
  "cbor_message = plain_message 3"

definition custom_encoding_message :: "buffer_to_send \<Rightarrow> unyte_message" where
  "custom_encoding_message b = \<lparr>used_mtu = 0, msg_buffer = bts_buffer b, buffer_len = bts_len b, msg_version = 0,
     msg_space = UNYTE_SPACE_NON_STANDARD, msg_media_type = 4, msg_observation_domain_id = 1000,
     msg_message_id = 2147483669,
     msg_options = [\<lparr>so_type = UNYTE_TYPE_PRIVATE_ENCODING, so_data_length = 3, so_data = to_bytes ''CSV''\<rparr>,
                    \<lparr>so_type = 3, so_data_length = 6, so_data = to_bytes ''Custom''\<rparr>],
     options_len = 2\<rparr>"

text \<open>The message of \<^verbatim>\<open>sender_sample.c\<close> is a string of the program.\<close>

definition sender_sample_message :: unyte_message where
  "sender_sample_message = \<lparr>used_mtu = 200,
     msg_buffer = to_bytes (''Hello world1! Hello world2! Hello world3! Hello world4! '' @
       ''Hello world5! Hello world6! Hello world7!''),
     buffer_len = 97, msg_version = 0, msg_space = 0, msg_media_type = 1, msg_observation_domain_id = 1000,
     msg_message_id = 2147483669, msg_options = [], options_len = 0\<rparr>"

section \<open>The programs\<close>

definition usage :: "string \<Rightarrow> program_run" where
  "usage s = \<lparr>exit_code = 1, out_text = ''Error: arguments not valid'' @ [newline] @ ''Usage: ./'' @ s @ [newline],
     out_calls = [], out_datagrams = []\<rparr>"

definition sender_options :: "string option \<Rightarrow> string \<Rightarrow> string \<Rightarrow> unyte_sender_options" where
  "sender_options interface address port = \<lparr>so_address = address, so_port = port, so_default_mtu = MTU,
     so_interface = interface, so_socket_buff_size = 0\<rparr>"

definition init_text :: "unyte_sender_options \<Rightarrow> string" where
  "init_text opts = ''Init sender on '' @ so_address opts @ '':'' @ so_port opts @ '' | mtu: '' @ fmt_d MTU @ [newline]"

text \<open>
  From the options on: start the sender, get the bytes, fill in the message (\<open>blocks\<close> allocations that are not
  checked), send it, and free everything.
\<close>

definition send_buffer ::
  "system \<Rightarrow> unyte_sender_options \<Rightarrow> (allocs \<Rightarrow> fault + (buffer_to_send option \<times> allocs)) \<Rightarrow>
    (buffer_to_send \<Rightarrow> unyte_message) \<Rightarrow> nat \<Rightarrow> allocs \<Rightarrow> fault + program_run" where
  "send_buffer sys opts get_bytes message blocks as =
     (let (ok, as1) = mallocs 2 as in
      case unyte_start_sender sys opts ok of
        (None, calls) \<Rightarrow>
          Inr \<lparr>exit_code = 1, out_text = init_text opts, out_calls = calls, out_datagrams = []\<rparr>
      | (Some sender_sk, calls) \<Rightarrow>
          bind_fault (get_bytes as1) (\<lambda>(bf, as2).
          case bf of
            None \<Rightarrow> Inr \<lparr>exit_code = 1, out_text = init_text opts @ ''Error! opening file'', out_calls = calls,
                           out_datagrams = []\<rparr>
          | Some b \<Rightarrow>
              (let (ok2, as3) = mallocs blocks as2 in
               if \<not> ok2 then Inl Null_Deref
               else
                 bind_fault (unyte_send sender_sk (message b) as3) (\<lambda>(_, sent, _).
                 Inr \<lparr>exit_code = 0, out_text = init_text opts, out_calls = calls, out_datagrams = sent\<rparr>))))"

definition sender_sample :: "system \<Rightarrow> string list \<Rightarrow> allocs \<Rightarrow> fault + program_run" where
  "sender_sample sys argv as =
     (case argv of
        [_, ip, port] \<Rightarrow>
          send_buffer sys (sender_options None ip port) (\<lambda>as1. Inr (Some \<lparr>bts_buffer = [], bts_len = 0\<rparr>, as1))
            (\<lambda>_. sender_sample_message) 1 as
      | _ \<Rightarrow> Inr (usage ''sender_sample <ip> <port>''))"

definition sender_json :: "system \<Rightarrow> files \<Rightarrow> bytes \<Rightarrow> string list \<Rightarrow> allocs \<Rightarrow> fault + program_run" where
  "sender_json sys files junk argv as =
     (case argv of
        [_, ip, port] \<Rightarrow> send_buffer sys (sender_options None ip port) (read_json_file files junk 8950) json_message 1 as
      | _ \<Rightarrow> Inr (usage ''sender_json <ip> <port>''))"

definition sender_json_bind_interface :: "system \<Rightarrow> files \<Rightarrow> bytes \<Rightarrow> string list \<Rightarrow> allocs \<Rightarrow> fault + program_run" where
  "sender_json_bind_interface sys files junk argv as =
     (case argv of
        [_, interface, ip, port] \<Rightarrow>
          send_buffer sys (sender_options (Some interface) ip port) (read_json_file files junk 200) json_message 1 as
      | _ \<Rightarrow> Inr (usage ''sender_json_bind_interface <interface_name> <ip> <port>''))"

definition sender_cbor :: "system \<Rightarrow> files \<Rightarrow> bytes \<Rightarrow> string list \<Rightarrow> allocs \<Rightarrow> fault + program_run" where
  "sender_cbor sys files junk argv as =
     (case argv of
        [_, ip, port] \<Rightarrow> send_buffer sys (sender_options None ip port) (read_cbor_file files junk) cbor_message 1 as
      | _ \<Rightarrow> Inr (usage ''sender_cbor <ip> <port>''))"

definition sender_custom_encoding :: "system \<Rightarrow> files \<Rightarrow> bytes \<Rightarrow> string list \<Rightarrow> allocs \<Rightarrow> fault + program_run" where
  "sender_custom_encoding sys files junk argv as =
     (case argv of
        [_, ip, port] \<Rightarrow>
          send_buffer sys (sender_options None ip port) (read_json_file files junk 200) custom_encoding_message 2 as
      | _ \<Rightarrow> Inr (usage ''sender_custom_encoding <ip> <port>''))"

section \<open>What is sent\<close>

lemma fread_simps [simp]:
  "n \<le> length contents \<Longrightarrow> fread n contents junk = take n contents"
  "n \<le> length junk \<Longrightarrow> length (fread n contents junk) = n"
  by (simp_all add: fread_def)

lemma json_file_names:
  "json_file_name 200 = ''resources/json-200.json''" "json_file_name 8950 = ''resources/json-8950.json''"
  by (simp_all add: json_file_name_def fmt_d_def fmt_int_def num_str.simps[of 10] digit_char_def char_of_def bit_Suc_0_iff)

text \<open>A started sender has the default MTU of its options.\<close>

lemma start_sender_mtu:
  "fst (unyte_start_sender sys opts ok) = Some sk \<Longrightarrow> ss_default_mtu sk = so_default_mtu opts"
  by (auto simp: unyte_start_sender_def bind_to_interface_def sys_defs Let_def split: option.splits if_splits)

text \<open>
  The program ended well, and its datagrams fit the MTU and parse, whatever follows them in the receive buffer, to the
  segments of one message with the given identifiers and kind whose payloads together are \<open>bs\<close>.
\<close>

definition delivers :: "unyte_message \<Rightarrow> bytes \<Rightarrow> program_run \<Rightarrow> bool" where
  "delivers msg bs run \<longleftrightarrow> exit_code run = 0 \<and> list_all (\<lambda>d. length d \<le> 1500) (out_datagrams run) \<and>
     (\<exists>segs. list_all2 (\<lambda>d seg. \<forall>junk um. parse_with_metadata (d @ junk) um [] = Some (Inr (Some (received um seg), [])))
         (out_datagrams run) segs \<and>
       concat (map payload segs) = bs \<and>
       list_all (\<lambda>seg. observation_domain_id (header seg) = msg_observation_domain_id msg \<and>
         message_id (header seg) = msg_message_id msg) segs)"

lemma send_buffer_run:
  assumes start: "fst (unyte_start_sender sys opts True) = Some sk" and mtu: "so_default_mtu opts = MTU"
    and get: "get_bytes [] = Inr (Some b, [])"
    and good: "good_message (message b) (chosen_mtu sk (message b))" "packet_count (message b) (chosen_mtu sk (message b)) \<le> 128"
      "unat (chosen_mtu sk (message b)) \<le> 1500"
  shows "\<exists>run. send_buffer sys opts get_bytes message n [] = Inr run \<and>
    out_calls run = snd (unyte_start_sender sys opts True) \<and>
    length (out_datagrams run) = packet_count (message b) (chosen_mtu sk (message b)) \<and>
    delivers (message b) (take (unat (buffer_len (message b))) (msg_buffer (message b))) run"
proof -
  obtain calls where st: "unyte_start_sender sys opts True = (Some sk, calls)"
    using start by (cases "unyte_start_sender sys opts True") simp
  obtain sent segs where u: "unyte_send sk (message b) [] = Inr (0, sent, [])"
    "length sent = packet_count (message b) (chosen_mtu sk (message b))"
    "list_all (\<lambda>d. length d \<le> unat (chosen_mtu sk (message b))) sent"
    "list_all2 (\<lambda>d seg. \<forall>junk um. parse_with_metadata (d @ junk) um [] = Some (Inr (Some (received um seg), []))) sent segs"
    "concat (map payload segs) = take (unat (buffer_len (message b))) (msg_buffer (message b))"
    "list_all (\<lambda>seg. observation_domain_id (header seg) = msg_observation_domain_id (message b) \<and>
      message_id (header seg) = msg_message_id (message b)) segs"
    using unyte_send_datagrams[OF good(1,2)] by blast
  have "list_all (\<lambda>d. length d \<le> 1500) sent" using u(3) good(3) by (auto simp: list_all_iff)
  with st u get show ?thesis by (auto simp: send_buffer_def delivers_def)
qed

text \<open>The messages of the examples can be sent.\<close>

lemma chosen_mtu_default [simp]:
  "ss_default_mtu sk = MTU \<Longrightarrow> used_mtu msg = 0 \<Longrightarrow> chosen_mtu sk msg = MTU"
  by (simp add: chosen_mtu_def)

lemma plain_message_good:
  assumes "unat n \<le> 8950" and "unat n \<le> length bs"
  shows "good_message (plain_message media \<lparr>bts_buffer = bs, bts_len = n\<rparr>) MTU"
    "packet_count (plain_message media \<lparr>bts_buffer = bs, bts_len = n\<rparr>) MTU \<le> 128"
  using assms by (auto simp: good_message_def plain_message_def sent_options_def packet_count_def segments_needed_def)

lemma custom_message_good:
  assumes "length bs = 200"
  shows "good_message (custom_encoding_message \<lparr>bts_buffer = bs, bts_len = 200\<rparr>) MTU"
    "packet_count (custom_encoding_message \<lparr>bts_buffer = bs, bts_len = 200\<rparr>) MTU \<le> 128"
  using assms
  by (simp_all add: good_message_def custom_encoding_message_def sent_options_def packet_count_def good_send_option_def
      built_option_def to_bytes_def)


lemma sample_message_good:
  "good_message sender_sample_message (chosen_mtu sk sender_sample_message)"
  "packet_count sender_sample_message (chosen_mtu sk sender_sample_message) \<le> 128"
  "unat (chosen_mtu sk sender_sample_message) \<le> 1500"
  by (simp_all add: good_message_def packet_count_def chosen_mtu_def sender_sample_message_def sent_options_def to_bytes_def)

lemma send_plain_run:
  assumes start: "fst (unyte_start_sender sys (sender_options itf ip port) True) = Some sk"
    and get: "get_bytes [] = Inr (Some \<lparr>bts_buffer = bs, bts_len = n\<rparr>, [])"
    and n: "unat n \<le> 8950" "length bs = unat n"
  shows "\<exists>run. send_buffer sys (sender_options itf ip port) get_bytes (plain_message media) k [] = Inr run \<and>
    delivers (plain_message media \<lparr>bts_buffer = bs, bts_len = n\<rparr>) bs run"
proof -
  let ?m = "plain_message media \<lparr>bts_buffer = bs, bts_len = n\<rparr>"
  have mtu: "chosen_mtu sk ?m = MTU"
    using start_sender_mtu[OF start] by (simp add: sender_options_def plain_message_def)
  have "so_default_mtu (sender_options itf ip port) = MTU" by (simp add: sender_options_def)
  from send_buffer_run[where get_bytes = get_bytes and message = "plain_message media", OF start this get, of k] show ?thesis
    unfolding mtu using plain_message_good[of n bs media] n by (auto simp: plain_message_def)
qed

text \<open>The bytes that the senders read.\<close>

lemma read_files:
  assumes "files ''resources/json-200.json'' = Some j200" "files ''resources/json-8950.json'' = Some j8950"
    "files ''resources/cbor-example.cbor'' = Some cbor"
  shows "read_json_file files junk 200 [] = Inr (Some \<lparr>bts_buffer = fread 200 j200 junk, bts_len = 200\<rparr>, [])"
    "read_json_file files junk 8950 [] = Inr (Some \<lparr>bts_buffer = fread 8950 j8950 junk, bts_len = 8950\<rparr>, [])"
    "read_cbor_file files junk [] = Inr (Some \<lparr>bts_buffer = fread 754 cbor junk, bts_len = 754\<rparr>, [])"
  using assms by (simp_all add: read_json_file_def read_cbor_file_def load_file_def json_file_names)

text \<open>
  C39. The example senders. Given a system on which the sender starts and the files they read, each sender
  ends with 0 after it has sent datagrams of at most 1500 bytes that a collector parses to the segments of one
  message, and the payloads together are the text of the program or what was read from the file. When the file is
  shorter than the sender assumes, the end of the message is what \<^verbatim>\<open>malloc\<close> left in the buffer.
\<close>

theorem example_senders_deliver:
  assumes "fst (unyte_start_sender sys (sender_options None ip port) True) \<noteq> None"
    and "fst (unyte_start_sender sys (sender_options (Some interface) ip port) True) \<noteq> None"
    and "files ''resources/json-200.json'' = Some j200" and "files ''resources/json-8950.json'' = Some j8950"
    and "files ''resources/cbor-example.cbor'' = Some cbor" and "8950 \<le> length junk"
  shows "(\<exists>run. sender_sample sys [prog, ip, port] [] = Inr run \<and>
      delivers sender_sample_message (take 97 (msg_buffer sender_sample_message)) run) \<and>
    (\<exists>run. sender_json sys files junk [prog, ip, port] [] = Inr run \<and>
      delivers (json_message \<lparr>bts_buffer = fread 8950 j8950 junk, bts_len = 8950\<rparr>) (fread 8950 j8950 junk) run) \<and>
    (\<exists>run. sender_json_bind_interface sys files junk [prog, interface, ip, port] [] = Inr run \<and>
      delivers (json_message \<lparr>bts_buffer = fread 200 j200 junk, bts_len = 200\<rparr>) (fread 200 j200 junk) run) \<and>
    (\<exists>run. sender_cbor sys files junk [prog, ip, port] [] = Inr run \<and>
      delivers (cbor_message \<lparr>bts_buffer = fread 754 cbor junk, bts_len = 754\<rparr>) (fread 754 cbor junk) run) \<and>
    (\<exists>run. sender_custom_encoding sys files junk [prog, ip, port] [] = Inr run \<and>
      delivers (custom_encoding_message \<lparr>bts_buffer = fread 200 j200 junk, bts_len = 200\<rparr>) (fread 200 j200 junk) run)"
proof -
  obtain sk where sk: "fst (unyte_start_sender sys (sender_options None ip port) True) = Some sk" using assms(1) by blast
  obtain sk' where sk': "fst (unyte_start_sender sys (sender_options (Some interface) ip port) True) = Some sk'"
    using assms(2) by blast
  have mtu: "so_default_mtu (sender_options itf ip port) = MTU" for itf by (simp add: sender_options_def)
  note files = read_files[OF assms(3-5), of junk]
  have len: "length (fread 200 j200 junk) = 200" "length (fread 8950 j8950 junk) = 8950" "length (fread 754 cbor junk) = 754"
    using assms(6) by simp_all
  let ?c = "custom_encoding_message \<lparr>bts_buffer = fread 200 j200 junk, bts_len = 200\<rparr>"
  have "ss_default_mtu sk = MTU" "used_mtu ?c = 0"
    using start_sender_mtu[OF sk] mtu by (simp_all add: custom_encoding_message_def)
  then have c: "chosen_mtu sk ?c = MTU" by simp
  let ?nothing = "\<lambda>as1 :: allocs. Inr (Some \<lparr>bts_buffer = [], bts_len = 0\<rparr>, as1) :: fault + (buffer_to_send option \<times> allocs)"
  have "\<exists>run. sender_sample sys [prog, ip, port] [] = Inr run \<and>
      delivers sender_sample_message (take 97 (msg_buffer sender_sample_message)) run"
    using send_buffer_run[where get_bytes = ?nothing and message = "\<lambda>_. sender_sample_message" and n = 1, OF sk mtu]
      sample_message_good[of sk] by (auto simp: sender_sample_def sender_sample_message_def)
  moreover have "\<exists>run. sender_json sys files junk [prog, ip, port] [] = Inr run \<and>
      delivers (json_message \<lparr>bts_buffer = fread 8950 j8950 junk, bts_len = 8950\<rparr>) (fread 8950 j8950 junk) run"
    using send_plain_run[where get_bytes = "read_json_file files junk 8950", OF sk files(2), of 1 1] len
    by (simp add: sender_json_def json_message_def)
  moreover have "\<exists>run. sender_json_bind_interface sys files junk [prog, interface, ip, port] [] = Inr run \<and>
      delivers (json_message \<lparr>bts_buffer = fread 200 j200 junk, bts_len = 200\<rparr>) (fread 200 j200 junk) run"
    using send_plain_run[where get_bytes = "read_json_file files junk 200", OF sk' files(1), of 1 1] len
    by (simp add: sender_json_bind_interface_def json_message_def)
  moreover have "\<exists>run. sender_cbor sys files junk [prog, ip, port] [] = Inr run \<and>
      delivers (cbor_message \<lparr>bts_buffer = fread 754 cbor junk, bts_len = 754\<rparr>) (fread 754 cbor junk) run"
    using send_plain_run[where get_bytes = "read_cbor_file files junk", OF sk files(3), of 3 1] len
    by (simp add: sender_cbor_def cbor_message_def)
  moreover have "take (unat (buffer_len ?c)) (msg_buffer ?c) = fread 200 j200 junk"
    using len(1) by (simp add: custom_encoding_message_def)
  then have "\<exists>run. sender_custom_encoding sys files junk [prog, ip, port] [] = Inr run \<and> delivers ?c (fread 200 j200 junk) run"
    using send_buffer_run[where get_bytes = "read_json_file files junk 200" and message = custom_encoding_message and n = 2,
        OF sk mtu files(1), unfolded c] custom_message_good[OF len(1)]
    by (auto simp: sender_custom_encoding_def)
  ultimately show ?thesis by blast
qed

text \<open>A system that answers, and files with the same byte throughout; one of them is too short.\<close>

definition answering_system :: system where
  "answering_system = \<lparr>sys_getaddrinfo =
       (\<lambda>_ _. Some \<lparr>ai_inet6 = False, ai_addr = \<lparr>ss_family = 2, ss_port = 10001, ss_addr = [10, 0, 0, 1]\<rparr>\<rparr>),
     sys_socket = (\<lambda>_. 3), sys_setsockopt = (\<lambda>_ _. 0), sys_bind = (\<lambda>_ _. 0), sys_connect = (\<lambda>_ _. 0),
     sys_getsockname = (\<lambda>_. Some \<lparr>ss_family = 2, ss_port = 10001, ss_addr = [10, 0, 0, 1]\<rparr>)\<rparr>"

theorem example_senders_deliver_witness:
  "\<exists>run. sender_custom_encoding answering_system (\<lambda>_. Some (replicate 3 65)) (replicate 8950 255)
      [''sender'', ''10.0.0.1'', ''10001''] [] = Inr run \<and> exit_code run = 0 \<and>
    delivers (custom_encoding_message \<lparr>bts_buffer = replicate 3 65 @ replicate 197 255, bts_len = 200\<rparr>)
      (replicate 3 65 @ replicate 197 255) run"
proof -
  have f: "fread 200 (replicate 3 65) (replicate 8950 255) = replicate 3 65 @ replicate 197 255"
    by (simp add: fread_def)
  have start: "fst (unyte_start_sender answering_system (sender_options None ''10.0.0.1'' ''10001'') True) \<noteq> None"
    "fst (unyte_start_sender answering_system (sender_options (Some ''eth0'') ''10.0.0.1'' ''10001'') True) \<noteq> None"
    by (simp_all add: unyte_start_sender_def bind_to_interface_def sys_defs Let_def answering_system_def sender_options_def)
  from example_senders_deliver[OF start, of "\<lambda>_. Some (replicate 3 65)" "replicate 3 65" "replicate 3 65" "replicate 3 65"
      "replicate 8950 255" "''sender''"]
  show ?thesis unfolding f by (auto simp: delivers_def)
qed

end
