(* ===== verification/Client_Programs.thy ===== *)
theory Client_Programs
  imports Clients Load_Balancer Example_Senders
begin

text \<open>
  The example clients as programs, from their arguments to the end of \<^verbatim>\<open>main\<close>:
  \<^verbatim>\<open>client_sample.c\<close>, \<^verbatim>\<open>client_socket.c\<close>, \<^verbatim>\<open>client_legacy_proto.c\<close>, \<^verbatim>\<open>client_interface_bind_socket.c\<close>,
  \<^verbatim>\<open>client_monitoring.c\<close> with its reading thread, and \<^verbatim>\<open>eBPF/client_ebpf_user.c\<close>. What the threads of the collector
  put on its queues is an argument. A run is the value the process ends with, what \<^verbatim>\<open>main\<close> prints, the system calls, and what was
  freed with the collector; no value means that the client waits for ever.
\<close>

section \<open>Runs\<close>

record client_run =
  cr_exit :: int
  cr_text :: string
  cr_calls :: "syscall list"
  cr_freed :: "unyte_seg_met option list"
  cr_summaries :: "sum_counter option list"

definition stopped :: "string \<Rightarrow> syscall list \<Rightarrow> client_run" where
  "stopped txt calls = \<lparr>cr_exit = 1, cr_text = txt, cr_calls = calls, cr_freed = [], cr_summaries = []\<rparr>"

definition client_usage :: "string list \<Rightarrow> (fault + client_run) option" where
  "client_usage lines = Some (Inr (stopped (''Error: arguments not valid'' @ [newline] @ concat (map (\<lambda>l. l @ [newline]) lines)) []))"

definition client_options :: "u16 \<Rightarrow> int \<Rightarrow> unyte_udp_options" where
  "client_options vlen fd = \<lparr>o_socket_fd = fd, o_recvmmsg_vlen = vlen, o_msg_dst_ip = False, o_nb_parsers = 0,
     o_output_queue_size = 0, o_parsers_queue_size = 0, o_monitoring_queue_size = 0, o_monitoring_delay = 0,
     o_legacy = False\<rparr>"

definition listening_on :: "string \<Rightarrow> string \<Rightarrow> string" where
  "listening_on ip port = ''Listening on '' @ ip @ '':'' @ port @ [newline]"

definition listening_socket :: "int \<Rightarrow> string" where
  "listening_socket fd = ''Listening on socket '' @ fmt_int fd @ [newline]"

text \<open>Creating the socket ends the process when it fails.\<close>

definition with_socket ::
  "int sys_run \<Rightarrow> string \<Rightarrow> (int \<Rightarrow> syscall list \<Rightarrow> (fault + client_run) option) \<Rightarrow> (fault + client_run) option" where
  "with_socket sock txt k =
     (case sock of
        (None, calls) \<Rightarrow> Some (Inr (stopped txt calls))
      | (Some fd, calls) \<Rightarrow> k fd calls)"

text \<open>The messages that the workers write to the output queue, as long as it has room.\<close>

definition with_traffic :: "unyte_seg_met list \<Rightarrow> unyte_udp_collector \<Rightarrow> (fault + unyte_udp_collector) option" where
  "with_traffic traffic c =
     bind_run (offer_all unyte_udp_queue_write (c_queue c) (map Some traffic)) (\<lambda>(_, q).
     Some (Inr (c\<lparr>c_queue := q\<rparr>)))"

definition collect_messages ::
  "system \<Rightarrow> unyte_udp_options \<Rightarrow> (unyte_seg_met \<Rightarrow> fault + string) \<Rightarrow> nat \<Rightarrow> unyte_seg_met list \<Rightarrow> string \<Rightarrow>
    syscall list \<Rightarrow> allocs \<Rightarrow> (fault + client_run) option" where
  "collect_messages sys opts step n traffic txt calls as =
     (case unyte_udp_start_collector sys (Some opts) as of
        (None, calls1) \<Rightarrow> Some (Inr (stopped txt (calls @ calls1)))
      | (Some (c, _, _), calls1) \<Rightarrow>
          bind_run (with_traffic traffic c) (\<lambda>c1.
          bind_run (client_main step n c1) (\<lambda>(txt1, msgs, sums).
          Some (Inr \<lparr>cr_exit = 0, cr_text = txt @ txt1, cr_calls = calls @ calls1 @ [Close (c_sockfd c)],
                     cr_freed = msgs, cr_summaries = sums\<rparr>))))"

section \<open>The programs\<close>

definition client_sample_main ::
  "system \<Rightarrow> inet_ntop \<Rightarrow> unyte_seg_met list \<Rightarrow> string list \<Rightarrow> allocs \<Rightarrow> (fault + client_run) option" where
  "client_sample_main sys ntop traffic argv as =
     (case argv of
        [_, ip, port] \<Rightarrow>
          with_socket (unyte_udp_create_socket sys (Some ip) (Some port) DEFAULT_SK_BUFF_SIZE) [] (\<lambda>fd calls.
          collect_messages sys (client_options 1 fd) (client_sample_step ntop) 10 traffic (listening_on ip port) calls as)
      | _ \<Rightarrow> client_usage [''Usage: ./client_sample <ip> <port>''])"

definition client_legacy_proto_main ::
  "system \<Rightarrow> unyte_seg_met list \<Rightarrow> string list \<Rightarrow> allocs \<Rightarrow> (fault + client_run) option" where
  "client_legacy_proto_main sys traffic argv as =
     (case argv of
        [_, ip, port] \<Rightarrow>
          with_socket (unyte_udp_create_socket sys (Some ip) (Some port) DEFAULT_SK_BUFF_SIZE) [] (\<lambda>fd calls.
          collect_messages sys ((client_options 1 fd)\<lparr>o_legacy := True\<rparr>) client_legacy_step 10 traffic
            (listening_on ip port) calls as)
      | _ \<Rightarrow> client_usage [''Usage: ./client_legacy_proto <ip> <port>''])"

definition client_socket_main ::
  "system \<Rightarrow> inet_ntop \<Rightarrow> unyte_seg_met list \<Rightarrow> string list \<Rightarrow> allocs \<Rightarrow> (fault + client_run) option" where
  "client_socket_main sys ntop traffic argv as =
     (case argv of
        [_, ip, port] \<Rightarrow>
          with_socket (create_custom_socket sys ip port) [] (\<lambda>fd calls.
          collect_messages sys (client_options 1 fd) (client_socket_step ntop) 20 traffic (listening_socket fd) calls as)
      | _ \<Rightarrow> client_usage [''Usage: ./client_socket <ip> <port>''])"

definition client_interface_bind_socket ::
  "system \<Rightarrow> inet_ntop \<Rightarrow> unyte_seg_met list \<Rightarrow> string list \<Rightarrow> allocs \<Rightarrow> (fault + client_run) option" where
  "client_interface_bind_socket sys ntop traffic argv as =
     (case argv of
        [_, interface, ip, port] \<Rightarrow>
          with_socket (unyte_udp_create_interface_bound_socket sys (Some interface) (Some ip) (Some port) False
              DEFAULT_SK_BUFF_SIZE) [] (\<lambda>fd calls.
          collect_messages sys (client_options 1 fd) (client_socket_step ntop) 20 traffic (listening_socket fd) calls as)
      | _ \<Rightarrow> client_usage [''Usage: ./client_bind_socket <interface_name> <ip> <port>''])"

text \<open>\<^verbatim>\<open>atoi\<close> reads the digits behind blanks and a sign; a value that does not fit an \<^verbatim>\<open>int\<close> is undefined and not covered.\<close>

definition atoi :: "string \<Rightarrow> int" where
  "atoi s =
     (let t = dropWhile (\<lambda>c. c = CHR '' '' \<or> 9 \<le> (of_char c :: nat) \<and> (of_char c :: nat) \<le> 13) s;
          u = (if t \<noteq> [] \<and> hd t \<in> {CHR ''-'', CHR ''+''} then tl t else t);
          n = int (num_val 10 (takeWhile (\<lambda>c. 48 \<le> (of_char c :: nat) \<and> (of_char c :: nat) \<le> 57) u)) in
      if t \<noteq> [] \<and> hd t = CHR ''-'' then - n else n)"

text \<open>
  The instance is attached to the load balancer, whose maps are in the kernel: what the call returns is ignored. A failed
  assertion (\<open>None\<close>) aborts the process, with the status 134 of a shell; the entry of its socket goes with it. The result has
  the maps next to the run.
\<close>

definition client_ebpf_user ::
  "system \<Rightarrow> libbpf \<Rightarrow> bpf_maps \<Rightarrow> inet_ntop \<Rightarrow> unyte_seg_met list \<Rightarrow> string list \<Rightarrow> allocs \<Rightarrow>
    (fault + client_run) option \<times> bpf_maps" where
  "client_ebpf_user sys lib maps ntop traffic argv as =
     (case argv of
        [_, ip, port, index, loadbalance_max] \<Rightarrow>
          (case unyte_udp_create_socket sys (Some ip) (Some port) DEFAULT_SK_BUFF_SIZE of
             (None, calls) \<Rightarrow> (Some (Inr (stopped (listening_on ip port) calls)), maps)
           | (Some fd, calls) \<Rightarrow>
               (case attach_ebpf_to_socket lib fd (word_of_int (atoi index)) (word_of_int (atoi loadbalance_max)) maps of
                  None \<Rightarrow> (Some (Inr ((stopped (listening_on ip port) calls)\<lparr>cr_exit := 134\<rparr>)), maps)
                | Some (_, maps1) \<Rightarrow>
                    (collect_messages sys (client_options 1 fd) (client_socket_step ntop) 20 traffic
                       (listening_on ip port @ listening_socket fd) calls as, maps1)))
      | _ \<Rightarrow> (client_usage [''Usage: ./client_ebpf_user <ip> <port> <index> <loadbalance_max>'',
                             ''Example: ./client_ebpf_user 10.0.2.15 10001 0 5''], maps))"

text \<open>
  The reading thread of \<^verbatim>\<open>client_monitoring.c\<close>, which finds the flag \<^verbatim>\<open>stop\<close> set after \<open>n\<close> reads. With nothing
  left in the queue a read does not return, and then neither does the \<^verbatim>\<open>pthread_join\<close> that waits for the thread.
\<close>

fun t_read :: "nat \<Rightarrow> unyte_seg_met unyte_udp_queue \<Rightarrow> (fault + unyte_seg_met unyte_udp_queue) option" where
  "t_read 0 q = Some (Inr q)"
| "t_read (Suc n) q =
     bind_run (unyte_udp_queue_read q) (\<lambda>(seg, q1).
     bind_run (Some (unyte_udp_free_all seg)) (\<lambda>_. t_read n q1))"

definition with_summaries :: "sum_counter list \<Rightarrow> unyte_udp_collector \<Rightarrow> (fault + unyte_udp_collector) option" where
  "with_summaries sums c =
     bind_run (offer_all unyte_udp_queue_destructive_write (c_monitoring_queue c) (map Some sums)) (\<lambda>(_, q).
     Some (Inr (c\<lparr>c_monitoring_queue := q\<rparr>)))"

definition client_monitoring_main ::
  "system \<Rightarrow> unyte_seg_met list \<Rightarrow> sum_counter list \<Rightarrow> nat \<Rightarrow> string list \<Rightarrow> allocs \<Rightarrow> (fault + client_run) option" where
  "client_monitoring_main sys traffic sums reads argv as =
     (case argv of
        [_, ip, port] \<Rightarrow>
          with_socket (unyte_udp_create_socket sys (Some ip) (Some port) DEFAULT_SK_BUFF_SIZE) [] (\<lambda>fd calls.
          case unyte_udp_start_collector sys
              (Some ((client_options 10 fd)\<lparr>o_monitoring_delay := 2, o_monitoring_queue_size := 500\<rparr>)) as of
            (None, calls1) \<Rightarrow> Some (Inr (stopped (listening_on ip port) (calls @ calls1)))
          | (Some (c, _, _), calls1) \<Rightarrow>
              bind_run (with_traffic traffic c) (\<lambda>c1.
              bind_run (with_summaries sums c1) (\<lambda>c2.
              bind_run (client_monitoring c2) (\<lambda>(txt, mq).
              bind_run (t_read reads (c_queue c2)) (\<lambda>q.
              bind_run (unyte_udp_free_collector (c2\<lparr>c_queue := q, c_monitoring_queue := mq\<rparr>)) (\<lambda>(msgs, left).
              Some (Inr \<lparr>cr_exit = 0, cr_text = listening_on ip port @ txt @ shutdown_text,
                         cr_calls = calls @ calls1 @ [Close (c_sockfd c)], cr_freed = msgs, cr_summaries = left\<rparr>)))))))
      | _ \<Rightarrow> client_usage [''Usage: ./client_monitoring <ip> <port>''])"

section \<open>Runs to the end\<close>

lemma with_traffic_run:
  assumes "queue_inv (c_queue c)" "q_list (c_queue c) = []"
  shows "\<exists>q. with_traffic traffic c = Some (Inr (c\<lparr>c_queue := q\<rparr>)) \<and> queue_inv q \<and>
    q_list q = map Some (take (q_size (c_queue c) - 1) traffic)"
proof -
  obtain rs q where "offer_all unyte_udp_queue_write (c_queue c) (map Some traffic) = Some (Inr (rs, q))"
    "queue_inv q" "q_list q = take (q_capacity (c_queue c)) (map Some traffic)"
    using ring.offer_all_run[OF assms(1), of "map Some traffic"] assms(2) by (auto simp del: length_q_list)
  then show ?thesis by (auto simp: with_traffic_def take_map q_capacity_def)
qed

lemma offer_destructive_run:
  assumes "queue_inv q" "2 \<le> q_size q" "length (q_list q) + length xs < q_size q"
  shows "\<exists>rs q'. offer_all unyte_udp_queue_destructive_write q xs = Some (Inr (rs, q')) \<and> queue_inv q' \<and>
    q_list q' = q_list q @ xs"
  using assms
proof (induction xs arbitrary: q)
  case (Cons x xs)
  have "q_used q < q_capacity q" using Cons.prems(3) by (simp add: q_capacity_def)
  then obtain q1 where q1: "unyte_udp_queue_destructive_write q x = Some (Inr (0, q1))" "queue_inv q1"
    "q_list q1 = q_list q @ [x]" "q_size q1 = q_size q"
    by (rule write_ops_room[OF Cons.prems(1)])
  have "length (q_list q1) + length xs < q_size q1" unfolding q1(3,4) using Cons.prems(3) by simp
  then obtain rs q' where "offer_all unyte_udp_queue_destructive_write q1 xs = Some (Inr (rs, q'))" "queue_inv q'"
    "q_list q' = q_list q1 @ xs"
    using Cons.IH[OF q1(2)] Cons.prems(2) q1(4) by auto
  with q1 show ?case by simp
qed simp

lemma t_read_run:
  assumes "queue_inv q" "\<forall>x\<in>set (q_list q). unyte_udp_free_all x = Inr 0"
  shows "if n \<le> length (q_list q)
    then \<exists>q'. t_read n q = Some (Inr q') \<and> queue_inv q' \<and> q_list q' = drop n (q_list q)
    else t_read n q = None"
  using assms
proof (induction n arbitrary: q)
  case (Suc n)
  show ?case
  proof (cases "q_list q")
    case Nil
    then show ?thesis using ring.dequeue_blocks[OF Suc.prems(1)] by (simp del: length_q_list)
  next
    case (Cons x xs)
    then obtain q1 where "unyte_udp_queue_read q = Some (Inr (x, q1))" "queue_inv q1" "q_list q1 = xs"
      using ring.dequeue_law[OF Suc.prems(1)] by blast
    then show ?thesis using Suc.IH[of q1] Suc.prems(2) Cons by (auto simp del: length_q_list split: if_splits)
  qed
qed simp

text \<open>A program that ended well: what it printed after its first lines, and what was freed with the collector.\<close>

definition ran :: "string \<Rightarrow> ('a \<Rightarrow> fault + string) \<Rightarrow> 'a list \<Rightarrow> unyte_seg_met list \<Rightarrow> sum_counter list \<Rightarrow> int \<Rightarrow>
    (fault + client_run) option \<Rightarrow> bool" where
  "ran lines step shown msgs sums fd result \<longleftrightarrow> (\<exists>run txt. result = Some (Inr run) \<and> cr_exit run = 0 \<and>
     cr_text run = lines @ txt @ shutdown_text \<and> printed step (map Some shown) txt \<and>
     cr_freed run = map Some msgs \<and> cr_summaries run = map Some sums \<and> last (cr_calls run) = Close fd)"

definition system_works :: "system \<Rightarrow> int \<Rightarrow> bool" where
  "system_works sys fd \<longleftrightarrow> sys_getsockname sys fd \<noteq> None \<and> (\<forall>opt. 0 \<le> sys_setsockopt sys fd opt)"

lemma client_options_default:
  "\<exists>o1. set_default_options (Some (client_options v fd\<lparr>o_legacy := b\<rparr>)) = Some o1 \<and> o_output_queue_size o1 = 1000"
  "\<exists>o1. set_default_options (Some (client_options v fd\<lparr>o_monitoring_delay := d, o_monitoring_queue_size := n\<rparr>)) = Some o1 \<and>
     o_output_queue_size o1 = 1000"
  by (simp_all add: default_options_eq client_options_def)

lemma collect_messages_run:
  assumes works: "system_works sys fd" and traffic: "messages_ok (map Some traffic)" "n \<le> length traffic" "n \<le> 999"
    and step: "\<And>msg. deliverable msg \<Longrightarrow> from_inet msg \<Longrightarrow> msg \<in> set traffic \<Longrightarrow> \<exists>t. step msg = Inr t"
  shows "ran lines step (take n traffic) (drop n (take 999 traffic)) [] fd
    (collect_messages sys (client_options v fd\<lparr>o_legacy := b\<rparr>) step n traffic lines calls [])"
proof -
  let ?o = "client_options v fd\<lparr>o_legacy := b\<rparr>"
  obtain o1 where o1: "set_default_options (Some ?o) = Some o1" "o_output_queue_size o1 = 1000"
    using client_options_default(1) by blast
  obtain a where "sys_getsockname sys (o_socket_fd ?o) = Some a" "\<And>opt. 0 \<le> sys_setsockopt sys (o_socket_fd ?o) opt"
    using works by (auto simp: system_works_def client_options_def)
  from start_collector_run[OF this o1(1)] obtain c l where c:
    "fst (unyte_udp_start_collector sys (Some ?o) []) = Some (c, l, [])"
    "queue_inv (c_queue c)" "q_list (c_queue c) = []" "q_size (c_queue c) = 1000" "q_list (c_monitoring_queue c) = []"
    "q_full (c_monitoring_queue c) = 0" "c_sockfd c = fd"
    using o1(2) by (auto simp: client_options_def)
  obtain q where q: "with_traffic traffic c = Some (Inr (c\<lparr>c_queue := q\<rparr>))" "queue_inv q"
    "q_list q = map Some (take 999 traffic)"
    using with_traffic_run[OF c(2,3), of traffic] c(4) by auto
  have "n \<le> length (q_list q)" "take n (q_list q) = map Some (take n traffic)"
    "drop n (q_list q) = map Some (drop n (take 999 traffic))"
    using traffic(2,3) by (simp_all add: q(3) take_map drop_map del: length_q_list)
  moreover have "messages_ok (q_list q)"
    using traffic(1) by (auto simp: q(3) list_all_iff dest!: in_set_takeD)
  moreover have "\<exists>t. step msg = Inr t" if "deliverable msg" "from_inet msg" "Some msg \<in> set (q_list q)" for msg
    using step[OF that(1,2)] that(3) by (auto simp: q(3) dest: in_set_takeD)
  ultimately obtain t where
    "client_main step n (c\<lparr>c_queue := q\<rparr>) = Some (Inr (t @ shutdown_text, map Some (drop n (take 999 traffic)), []))"
    "printed step (map Some (take n traffic)) t"
    using client_main_run[of "c\<lparr>c_queue := q\<rparr>" n step] q(2) c(5,6) by (auto simp del: length_q_list)
  then show ?thesis using c(1,7) q(1)
    by (cases "unyte_udp_start_collector sys (Some ?o) []") (simp add: collect_messages_def ran_def)
qed

lemma client_monitoring_run:
  assumes "queue_inv (c_monitoring_queue c)" "q_list (c_monitoring_queue c) = map Some sums" "20 \<le> length sums"
    and "list_all (\<lambda>s. sum_type s \<noteq> None) sums"
  shows "\<exists>t q. client_monitoring c = Some (Inr (t, q)) \<and> queue_inv q \<and> q_list q = map Some (drop 20 sums) \<and>
    printed unyte_udp_print_counters (map Some (take 20 sums)) t"
proof -
  have ok: "\<forall>x\<in>set (take 20 (map Some sums)). \<exists>s t. x = Some s \<and> unyte_udp_print_counters s = Inr t"
    using assms(4)
    by (fastforce simp: list_all_iff unyte_udp_print_counters_def read_set_def dest!: in_set_takeD)
  have len: "20 \<le> length (q_list (c_monitoring_queue c))" using assms(2,3) by (simp del: length_q_list)
  obtain q where "client_loop unyte_udp_print_counters 20 (c_monitoring_queue c) =
      Some (Inr (concat (map (\<lambda>x. projr (unyte_udp_print_counters (the x))) (take 20 (map Some sums))), q))"
    "queue_inv q" "q_list q = drop 20 (map Some sums)"
    using client_loop_run[OF assms(1) len] ok unfolding assms(2) by blast
  then show ?thesis using printedI[OF ok] by (simp add: client_monitoring_def take_map drop_map)
qed

lemma client_monitoring_main_run:
  assumes sock: "unyte_udp_create_socket sys (Some ip) (Some port) DEFAULT_SK_BUFF_SIZE = (Some fd, calls)"
    and works: "system_works sys fd" and traffic: "messages_ok (map Some traffic)" "length traffic \<le> 999"
    and sums: "20 \<le> length sums" "length sums \<le> 499" "list_all (\<lambda>s. sum_type s \<noteq> None) sums"
  shows "if reads \<le> length traffic
    then ran (listening_on ip port) unyte_udp_print_counters (take 20 sums) (drop reads traffic) (drop 20 sums) fd
      (client_monitoring_main sys traffic sums reads [prog, ip, port] [])
    else client_monitoring_main sys traffic sums reads [prog, ip, port] [] = None"
proof -
  let ?o = "client_options 10 fd\<lparr>o_monitoring_delay := 2, o_monitoring_queue_size := 500\<rparr>"
  obtain o1 where o1: "set_default_options (Some ?o) = Some o1" "o_output_queue_size o1 = 1000"
    using client_options_default(2) by blast
  obtain a where "sys_getsockname sys (o_socket_fd ?o) = Some a" "\<And>opt. 0 \<le> sys_setsockopt sys (o_socket_fd ?o) opt"
    using works by (auto simp: system_works_def client_options_def)
  from start_collector_run[OF this o1(1)] obtain c l calls1 where c:
    "unyte_udp_start_collector sys (Some ?o) [] = (Some (c, l, []), calls1)"
    "queue_inv (c_queue c)" "q_list (c_queue c) = []" "q_size (c_queue c) = 1000" "queue_inv (c_monitoring_queue c)"
    "q_list (c_monitoring_queue c) = []" "q_size (c_monitoring_queue c) = 500" "c_sockfd c = fd"
    using o1(2) by (cases "unyte_udp_start_collector sys (Some ?o) []") (auto simp: client_options_def)
  obtain q where q: "with_traffic traffic c = Some (Inr (c\<lparr>c_queue := q\<rparr>))" "queue_inv q" "q_list q = map Some traffic"
    using with_traffic_run[OF c(2,3), of traffic] c(4) traffic(2) by auto
  obtain mq where mq: "with_summaries sums (c\<lparr>c_queue := q\<rparr>) = Some (Inr (c\<lparr>c_queue := q, c_monitoring_queue := mq\<rparr>))"
    "queue_inv mq" "q_list mq = map Some sums"
    using offer_destructive_run[OF c(5), of "map Some sums"] c(6,7) sums(2)
    by (auto simp: with_summaries_def simp del: length_q_list)
  let ?c = "c\<lparr>c_queue := q, c_monitoring_queue := mq\<rparr>"
  obtain t mq1 where m: "client_monitoring ?c = Some (Inr (t, mq1))" "queue_inv mq1" "q_list mq1 = map Some (drop 20 sums)"
    "printed unyte_udp_print_counters (map Some (take 20 sums)) t"
    using client_monitoring_run[of ?c sums] mq(2,3) sums(1,3) by auto
  have free: "\<forall>x\<in>set (q_list q). unyte_udp_free_all x = Inr 0"
    using traffic(1) free_deliverable by (auto simp: q(3) list_all_iff)
  note run = sock c(1,8) q(1) mq(1) m(1,4)
  show ?thesis
  proof (cases "reads \<le> length traffic")
    case True
    then obtain q1 where q1: "t_read reads q = Some (Inr q1)" "queue_inv q1" "q_list q1 = map Some (drop reads traffic)"
      using t_read_run[OF q(2) free, of reads] by (auto simp: q(3) drop_map simp del: length_q_list)
    have "messages_ok (q_list q1)" using traffic(1) by (auto simp: q1(3) list_all_iff dest: in_set_dropD)
    then have "unyte_udp_free_collector (c\<lparr>c_queue := q1, c_monitoring_queue := mq1\<rparr>) = Some (Inr (q_list q1, q_list mq1))"
      using free_collector_frees_all[of "c\<lparr>c_queue := q1, c_monitoring_queue := mq1\<rparr>"] messages_freed q1(2) m(2) by simp
    then show ?thesis using True run q1 m(3)
      by (simp add: client_monitoring_main_def with_socket_def ran_def)
  next
    case False
    then have "t_read reads q = None" using t_read_run[OF q(2) free, of reads] by (simp add: q(3) del: length_q_list)
    then show ?thesis using False run by (simp add: client_monitoring_main_def with_socket_def)
  qed
qed


definition sample_summary :: sum_counter where
  "sample_summary = \<lparr>sum_thread_id = 7, sum_odid = 1, sum_last_message_id = 5, sum_received = 5, sum_dropped = 0,
     sum_reordered = 0, sum_type = Some PARSER_WORKER\<rparr>"


end
