(* ===== verification/Hexdump.thy ===== *)
theory Hexdump
  imports Printf
begin

text \<open>
  The hex dump of \<^verbatim>\<open>src/hexdump.c\<close>: rows of 32 bytes with their offset, the bytes in hexadecimal and
  the printable characters. The result is the text that is printed. \<^verbatim>\<open>isprint\<close> is that of the \<^verbatim>\<open>C\<close> locale;
  it is given a \<^verbatim>\<open>char\<close>, which is signed, and takes negative values as not printable.
\<close>

abbreviation (input) HEXDUMP_COLS :: nat where "HEXDUMP_COLS \<equiv> 32"

text \<open>The bound of the loop is computed in 32 bits.\<close>

definition hexdump_end :: "u32 \<Rightarrow> u32" where
  "hexdump_end len =
     len + (if len mod of_nat HEXDUMP_COLS \<noteq> 0 then of_nat HEXDUMP_COLS - len mod of_nat HEXDUMP_COLS else 0)"

definition isprint :: "int \<Rightarrow> bool" where
  "isprint c \<longleftrightarrow> 32 \<le> c \<and> c \<le> 126"

definition hex_cell :: "bytes \<Rightarrow> nat \<Rightarrow> nat \<Rightarrow> fault + string" where
  "hex_cell mem len i =
     (if i < len then bind_fault (read_byte mem i) (\<lambda>b. Inr (fmt_0x 2 (unat b) @ '' ''))
      else Inr ''   '')"

definition ascii_cell :: "bytes \<Rightarrow> nat \<Rightarrow> nat \<Rightarrow> fault + string" where
  "ascii_cell mem len j =
     (if j \<ge> len then Inr '' ''
      else bind_fault (read_byte mem j) (\<lambda>b. Inr [if isprint (sint b) then byte_char b else CHR ''.'']))"

text \<open>The body of the loop.\<close>

definition hexdump_step :: "bytes \<Rightarrow> nat \<Rightarrow> nat \<Rightarrow> fault + string" where
  "hexdump_step mem len i =
     (let off = (if i mod HEXDUMP_COLS = 0 then ''0x'' @ fmt_0x 6 i @ '': '' else []) in
      bind_fault (hex_cell mem len i) (\<lambda>hex.
      if i mod HEXDUMP_COLS = HEXDUMP_COLS - 1 then
        bind_fault (each (ascii_cell mem len) [i - (HEXDUMP_COLS - 1)..<Suc i]) (\<lambda>txt.
        Inr (off @ hex @ txt @ [CHR 0x0A]))
      else Inr (off @ hex)))"

definition hexdump :: "bytes \<Rightarrow> u32 \<Rightarrow> fault + string" where
  "hexdump mem len = each (hexdump_step mem (unat len)) [0..<unat (hexdump_end len)]"

section \<open>What is printed\<close>

text \<open>The reference: one line for each row of at most 32 bytes.\<close>

definition dump_line :: "nat \<Rightarrow> bytes \<Rightarrow> string" where
  "dump_line off bs =
     ''0x'' @ fmt_0x 6 off @ '': '' @
     concat (map (\<lambda>b. fmt_0x 2 (unat b) @ '' '') bs) @ replicate (3 * (32 - length bs)) (CHR '' '') @
     map (\<lambda>b. if isprint (sint b) then byte_char b else CHR ''.'') bs @ replicate (32 - length bs) (CHR '' '') @
     [CHR 0x0A]"

definition row :: "bytes \<Rightarrow> nat \<Rightarrow> bytes" where
  "row bs k = take 32 (drop (32 * k) bs)"

definition dump_lines :: "bytes \<Rightarrow> string" where
  "dump_lines bs = concat (map (\<lambda>k. dump_line (32 * k) (row bs k)) [0..<(length bs + 31) div 32])"

text \<open>Each line gives the offset and the bytes of its row back.\<close>

lemma hex_cells_read_back:
  "i < length bs \<Longrightarrow>
    num_val 16 (take 2 (drop (3 * i) (concat (map (\<lambda>b :: u8. fmt_0x 2 (unat b) @ '' '') bs) @ rest))) = unat (bs ! i)"
proof (induction bs arbitrary: i)
  case (Cons b bs)
  have len: "length (fmt_0x 2 (unat b)) = 2" using u8_less[of b] by (intro length_0x) simp_all
  show ?case
  proof (cases i)
    case 0
    then show ?thesis using len num_val_0x[of 2 "unat b"] by simp
  next
    case (Suc j)
    then show ?thesis using len Cons.IH[of j] Cons.prems by (simp add: numeral_3_eq_3)
  qed
qed simp

lemma dump_line_read_back:
  assumes "off < 16 ^ 6"
  shows "num_val 16 (take 6 (drop 2 (dump_line off bs))) = off"
    and "i < length bs \<Longrightarrow> num_val 16 (take 2 (drop (10 + 3 * i) (dump_line off bs))) = unat (bs ! i)"
proof -
  have len: "length (fmt_0x 6 off) = 6" using assms by (intro length_0x) simp_all
  then show "num_val 16 (take 6 (drop 2 (dump_line off bs))) = off"
    using num_val_0x[of 6 off] by (simp add: dump_line_def)
  have "drop (10 + 3 * i) (dump_line off bs) = drop (3 * i) (drop 10 (dump_line off bs))" by (simp add: add.commute)
  moreover obtain rest where "drop 10 (dump_line off bs) = concat (map (\<lambda>b. fmt_0x 2 (unat b) @ '' '') bs) @ rest"
    using len by (simp add: dump_line_def)
  ultimately show "i < length bs \<Longrightarrow> num_val 16 (take 2 (drop (10 + 3 * i) (dump_line off bs))) = unat (bs ! i)"
    using hex_cells_read_back by simp
qed

lemma concat_rows:
  "concat (map f [0..<n * q]) = concat (map (\<lambda>k. concat (map f [n * k..<n * k + n])) [0..<q])"
proof (induction q)
  case (Suc q)
  have "[0..<n * Suc q] = [0..<n * q] @ [n * q..<n * q + n]"
    by (metis le0 mult_Suc_right upt_add_eq_append add.commute)
  then show ?case using Suc by simp
qed simp

lemma row_steps:
  assumes "\<And>i. step i = (if i mod 32 = 0 then A i else []) @ H i @ (if i mod 32 = 31 then B i else [])"
  shows "concat (map step [32 * k..<32 * k + 32]) = A (32 * k) @ concat (map H [32 * k..<32 * k + 32]) @ B (32 * k + 31)"
proof -
  define mid where "mid = [32 * k + 1..<32 * k + 31]"
  have l: "[32 * k..<32 * k + 32] = 32 * k # mid @ [32 * k + 31]"
  proof -
    have "[32 * k..<32 * k + 32] = 32 * k # [32 * k + 1..<32 * k + 32]" by (simp add: upt_conv_Cons)
    moreover have "[32 * k + 1..<32 * k + 32] = mid @ [32 * k + 31]"
    proof -
      have "32 * k + 32 = Suc (32 * k + 31)" by simp
      then show ?thesis unfolding mid_def by (metis upt_Suc_append add_le_cancel_left one_le_numeral)
    qed
    ultimately show ?thesis by simp
  qed
  have "step i = H i" if "i \<in> set mid" for i
  proof -
    define j where "j = i - 32 * k"
    have "i = 32 * k + j" "1 \<le> j" "j < 31" using that by (auto simp: j_def mid_def)
    then have "i mod 32 = j" by simp
    then show ?thesis using assms[of i] \<open>1 \<le> j\<close> \<open>j < 31\<close> by simp
  qed
  then have "concat (map step mid) = concat (map H mid)" by (metis (no_types, lifting) map_eq_conv)
  then show ?thesis unfolding l using assms[of "32 * k"] assms[of "32 * k + 31"] by simp
qed

lemma row_cells:
  assumes bs: "bs = take L mem" "L \<le> length mem" and k: "32 * k \<le> L"
    and f: "\<And>i. i < L \<Longrightarrow> f i = g (mem ! i)" "\<And>i. L \<le> i \<Longrightarrow> f i = blank"
  shows "concat (map f [32 * k..<32 * k + 32]) =
    concat (map g (row bs k)) @ concat (replicate (32 - length (row bs k)) blank)"
proof -
  let ?m = "length (row bs k)"
  have m: "?m = min 32 (L - 32 * k)" using bs by (simp add: row_def)
  have "[32 * k..<32 * k + 32] = [32 * k..<32 * k + ?m] @ [32 * k + ?m..<32 * k + ?m + (32 - ?m)]"
    using upt_add_eq_append[of "32 * k" "32 * k + ?m" "32 - ?m"] m by simp
  moreover have "map f [32 * k..<32 * k + ?m] = map g (row bs k)"
  proof (rule nth_equalityI)
    fix i assume "i < length (map f [32 * k..<32 * k + ?m])"
    then have i: "i < ?m" "i < L - 32 * k" using m by simp_all
    then have iL: "32 * k + i < L" by linarith
    then have "row bs k ! i = mem ! (32 * k + i)" using bs m i iL by (simp add: row_def)
    then show "map f [32 * k..<32 * k + ?m] ! i = map g (row bs k) ! i" using i iL f(1) by simp
  qed simp
  moreover have "map f [32 * k + ?m..<32 * k + ?m + (32 - ?m)] = replicate (32 - ?m) blank"
  proof (rule nth_equalityI)
    fix i assume "i < length (map f [32 * k + ?m..<32 * k + ?m + (32 - ?m)])"
    then have i: "i < 32 - ?m" by simp
    then have "L \<le> 32 * k + ?m + i" using m k by simp
    then show "map f [32 * k + ?m..<32 * k + ?m + (32 - ?m)] ! i = replicate (32 - ?m) blank ! i" using i f(2) by simp
  qed simp
  ultimately show ?thesis by simp
qed

lemma concat_blanks: "concat (replicate n (replicate 3 x)) = replicate (3 * n) x" "concat (replicate n [x]) = replicate n x"
  by (induction n) (simp_all add: numeral_3_eq_3)

lemma round_up:
  fixes q r :: nat
  assumes "r < 32"
  shows "(32 * q + r + 31) div 32 = (if r = 0 then q else Suc q)"
proof (cases r)
  case (Suc p)
  have "(32 * q + r + 31) div 32 = (32 * Suc q + p) div 32" using Suc by simp
  also have "\<dots> = Suc q + p div 32" using div_mult_self2[of 32 p "Suc q"] by simp
  finally show ?thesis using Suc assms by simp
qed simp

lemma unat_hexdump_end:
  "unat (hexdump_end len) = (if unat len \<le> 4294967264 then 32 * ((unat len + 31) div 32) else 0)"
proof -
  define q r where "q = unat len div 32" and "r = unat len mod 32"
  have L: "unat len = 32 * q + r" "r < 32" by (simp_all add: q_def r_def)
  have m: "unat (len mod 32) = r" by (simp add: unat_mod_distrib r_def)
  have zero: "len mod 32 = 0 \<longleftrightarrow> r = 0" using m by (metis unat_eq_0)
  have sub: "unat (32 - len mod 32) = 32 - r" using m L(2) by (subst unat_sub) (simp_all add: word_le_nat_alt)
  have e: "unat (hexdump_end len) = (unat len + (if r = 0 then 0 else 32 - r)) mod 4294967296"
    using zero sub by (simp add: hexdump_end_def unat_word_ariths)
  have q: "q < 134217728" using u32_less[of len] L(1) by simp
  show ?thesis
  proof (cases "r = 0")
    case True
    then show ?thesis using e q round_up[OF L(2), of q] unfolding L(1) by simp
  next
    case False
    then have "unat (hexdump_end len) = (32 * q + 32) mod 4294967296" using e L by simp
    moreover have "unat len \<le> 4294967264 \<longleftrightarrow> Suc q < 134217728"
      using False L q by linarith
    moreover have "(32 * q + 32) mod 4294967296 = 0" if "\<not> Suc q < 134217728"
    proof -
      have "32 * q + 32 = 4294967296" using that q by linarith
      then show ?thesis by simp
    qed
    ultimately show ?thesis
      using q False round_up[OF L(2), of q] unfolding L(1) by (cases "Suc q < 134217728") auto
  qed
qed

lemma hexdump_step_ok:
  assumes "L \<le> length mem"
    and hex: "\<And>j. hex j = (if j < L then fmt_0x 2 (unat (mem ! j)) @ '' '' else replicate 3 (CHR '' ''))"
    and asc: "\<And>j. asc j = (if j < L then [if isprint (sint (mem ! j)) then byte_char (mem ! j) else CHR ''.''] else [CHR '' ''])"
  shows "hexdump_step mem L i = Inr
    ((if i mod 32 = 0 then ''0x'' @ fmt_0x 6 i @ '': '' else []) @ hex i @
     (if i mod 32 = 31 then concat (map asc [i - 31..<i + 1]) @ [CHR 0x0A] else []))"
proof -
  have h: "hex_cell mem L i = Inr (hex i)"
    using assms(1) by (simp add: hex_cell_def hex read_byte_def numeral_3_eq_3)
  have "each (ascii_cell mem L) [i - 31..<i + 1] = Inr (concat (map asc [i - 31..<i + 1]))"
    using assms(1) by (intro each_Inr) (simp add: ascii_cell_def asc read_byte_def)
  then show ?thesis by (simp add: hexdump_step_def h)
qed

lemma hexdump_rows:
  assumes L: "L \<le> length mem"
  shows "each (hexdump_step mem L) [0..<32 * ((L + 31) div 32)] = Inr (dump_lines (take L mem))"
proof -
  define hex where "hex j = (if j < L then fmt_0x 2 (unat (mem ! j)) @ '' '' else replicate 3 (CHR '' ''))" for j
  define asc where "asc j = (if j < L then [if isprint (sint (mem ! j)) then byte_char (mem ! j) else CHR ''.'']
    else [CHR '' ''])" for j
  define off where "off i = ''0x'' @ fmt_0x 6 i @ '': ''" for i
  define asciis where "asciis i = concat (map asc [i - 31..<i + 1]) @ [CHR 0x0A]" for i
  define step where "step i = (if i mod 32 = 0 then off i else []) @ hex i @ (if i mod 32 = 31 then asciis i else [])" for i
  let ?bs = "take L mem"
  have "hexdump_step mem L i = Inr (step i)" for i
    using hexdump_step_ok[OF L hex_def asc_def] by (simp add: step_def off_def asciis_def)
  then have e: "each (hexdump_step mem L) [0..<32 * ((L + 31) div 32)] =
      Inr (concat (map (\<lambda>k. concat (map step [32 * k..<32 * k + 32])) [0..<(L + 31) div 32]))"
    by (simp add: each_Inr[where g = step] concat_rows)
  have "concat (map step [32 * k..<32 * k + 32]) = dump_line (32 * k) (row ?bs k)" if "k < (L + 31) div 32" for k
  proof -
    have k: "32 * k \<le> L" using that by (simp add: less_eq_Suc_le less_eq_div_iff_mult_less_eq)
    have "concat (map hex [32 * k..<32 * k + 32]) =
        concat (map (\<lambda>b. fmt_0x 2 (unat b) @ '' '') (row ?bs k)) @ replicate (3 * (32 - length (row ?bs k))) (CHR '' '')"
      using row_cells[OF refl L k, of hex "\<lambda>b. fmt_0x 2 (unat b) @ '' ''" "replicate 3 (CHR '' '')"]
      by (simp add: hex_def concat_blanks)
    moreover have "concat (map asc [32 * k..<32 * k + 32]) =
        map (\<lambda>b. if isprint (sint b) then byte_char b else CHR ''.'') (row ?bs k) @
        replicate (32 - length (row ?bs k)) (CHR '' '')"
      using row_cells[OF refl L k, of asc "\<lambda>b. [if isprint (sint b) then byte_char b else CHR ''.'']" "[CHR '' '']"]
      by (simp add: asc_def concat_blanks concat_map_singleton)
    moreover have "asciis (32 * k + 31) = concat (map asc [32 * k..<32 * k + 32]) @ [CHR 0x0A]"
      by (simp add: asciis_def add.commute)
    ultimately show ?thesis
      using row_steps[of step off hex asciis k] by (simp add: step_def dump_line_def off_def)
  qed
  then have "concat (map (\<lambda>k. concat (map step [32 * k..<32 * k + 32])) [0..<(L + 31) div 32]) = dump_lines ?bs"
    using L by (auto simp: dump_lines_def intro!: arg_cong[of _ _ concat] map_cong)
  then show ?thesis using e by simp
qed

text \<open>
  C36. The hex dump of a block that is in memory never reads outside it, and prints one line for each row of
  32 bytes: the offset, the bytes in hexadecimal, and the bytes as characters, the last row filled up with
  blanks. The bound of the loop is rounded up in 32 bits: a block of more than \<open>2^32 - 32\<close> bytes prints
  nothing.\<close>

theorem hexdump_lines:
  assumes "unat len \<le> length mem"
  shows "hexdump mem len = Inr (if unat len \<le> 4294967264 then dump_lines (take (unat len) mem) else [])"
  using hexdump_rows[OF assms] by (simp add: hexdump_def unat_hexdump_end)

theorem hexdump_lines_witness:
  "unat (3 :: u32) \<le> length [0x41, 0x00, 0xE9 :: u8, 0x42] \<and>
   hexdump [0x41, 0x00, 0xE9, 0x42] 3 =
     Inr (''0x000000: 41 00 e9 '' @ replicate 87 (CHR '' '') @ ''A..'' @ replicate 29 (CHR '' '') @ [CHR 0x0A])"
proof -
  have "dump_lines [0x41, 0x00, 0xE9 :: u8] =
      ''0x000000: 41 00 e9 '' @ replicate 87 (CHR '' '') @ ''A..'' @ replicate 29 (CHR '' '') @ [CHR 0x0A]"
    by code_simp
  then show ?thesis using hexdump_lines[of 3 "[0x41, 0x00, 0xE9 :: u8, 0x42]"] by simp
qed

end
