(* ===== verification/Spec2Isabelle.thy ===== *)
theory Spec2Isabelle
  imports Memory_Parser Queue_Threads Many_Messages Client_Programs Hexdump
begin

text \<open>
  The UDP-notif collector and sender of \<^verbatim>\<open>udp-notif-c-collector\<close>: a library that receives
  UDP-notif datagrams, puts segmented messages together and hands them to a client, and that
  cuts and sends messages. This file holds the properties that span all components; the components
  are in the other theories.

  \<^bold>\<open>The program.\<close> A listener thread receives batches of datagrams, reads the identifiers of each and
  writes it to the input queue of one of several parsing threads, chosen by the observation
  domain. A parsing thread parses a datagram; an unsegmented message goes straight to the output queue, a
  segment into the thread's segmentation buffer, and the segment that completes a message
  sends the whole message to the output queue. A clean-up thread per parser raises a flag that makes the
  parser age and drop old messages. A monitoring thread sends the counters of all
  threads to a queue of its own. The client reads both queues. The sender cuts a message into
  packets, serialises them and sends them.

  \<^bold>\<open>Theories, in the order of the calls\<close> (sources under \<^verbatim>\<open>src/src/\<close>)
  \<^item> \<open>Prelude\<close>: faults as values of a sum type, runs that may not return as options, bytes and
    their reading with bounds, allocation outcomes, shared lemmas on words and lists.
  \<^item> \<open>Queue\<close>: \<^verbatim>\<open>unyte_udp_queue.c\<close>. The ring buffer with its two semaphores and its four operations,
    refined to a list; the locale \<open>fifo_queue\<close> states what the threads rely on and is interpreted on the ring.
  \<^item> \<open>Queue_Threads\<close>: the same operations in the hands of any number of threads, as steps between
    the semaphore calls and the critical sections: order, no loss, no deadlock.
  \<^item> \<open>Wire\<close>: \<^verbatim>\<open>minimal_parse\<close>, \<^verbatim>\<open>parse_with_metadata\<close> and its legacy variant from
    \<^verbatim>\<open>unyte_udp_utils.c\<close>: no read outside the buffer, exactly when the option loop does not end, what
    the parsed fields are.
  \<^item> \<open>Packet\<close>: \<^verbatim>\<open>build_message\<close> and \<^verbatim>\<open>serialize_message\<close>: the packets partition the message and fit
    the MTU, and a serialised packet is parsed back.
  \<^item> \<open>Segbuf\<close> and \<open>Cleanup\<close>: \<^verbatim>\<open>segmentation_buffer.c\<close>. The hash table of segment lists, refined to a map; reassembly
    for any order of arrival; the clean-up pass; clearing.
  \<^item> \<open>Monitoring\<close>: \<^verbatim>\<open>monitoring_worker.c\<close>. Counter tables and their index, counting, removal, and the rounds
    of the monitoring thread.
  \<^item> \<open>Parser\<close>: \<^verbatim>\<open>parsing_worker.c\<close>. One iteration of a parsing thread over all of the above.
  \<^item> \<open>Memory\<close>, \<open>Memory_Messages\<close>, \<open>Memory_Table\<close>, \<open>Memory_Clear\<close>, \<open>Memory_Segments\<close>, \<open>Memory_Parser\<close>: the
    segmentation buffer and the parsing worker once more, on a memory of blocks with addresses: every pointer
    that is followed, every \<^verbatim>\<open>malloc\<close> and every \<^verbatim>\<open>free\<close>. The predicate \<open>owns\<close> says which blocks the
    memory consists of; each operation is shown to do on the blocks what the definitions above do on
    values, to leave exactly the blocks of the resulting structures, never to read a freed block and never to free one twice. The
    locale \<open>reclaimable\<close> is the contract of a function that frees a structure, interpreted on option lists, segment lists and
    segments.
  \<^item> \<open>Listener\<close>: \<^verbatim>\<open>listening_worker.c\<close>. Creating the threads, dispatching, stopping.
  \<^item> \<open>Sender\<close> and \<open>Sockets\<close>: \<^verbatim>\<open>unyte_sender.c\<close> and the socket functions of \<^verbatim>\<open>unyte_udp_utils.c\<close>, as
    sequences of system calls whose answers are an argument.
  \<^item> \<open>Collector\<close>: \<^verbatim>\<open>unyte_udp_collector.c\<close> and \<^verbatim>\<open>cleanup_worker.c\<close>. Options, starting, freeing, the clean-up thread.
  \<^item> \<open>Pipeline\<close>: the components together: one segment of a sent message at a worker, and the
    relation \<open>collector_step\<close> of all threads of a running collector with its invariant \<open>run_ok\<close>.
  \<^item> \<open>Many_Messages\<close>: any number of messages at the same time. The abstract collector \<open>completions\<close> keeps a set of
    datagrams per message; listener and workers, under any schedule, refine it.
  \<^item> \<open>Printf\<close>, \<open>Printing\<close>, \<open>Hexdump\<close>: the getters and the functions that print headers, payloads, segment lists and
    counters, and \<^verbatim>\<open>hexdump.c\<close>, as functions to strings that fault on a bad read; what the workers deliver can be
    printed.
  \<^item> \<open>Clients\<close>: the loops of the example clients over the queues of a collector, what they print and free.
  \<^item> \<open>Client_Programs\<close> and \<open>Example_Senders\<close>: the programs of \<^verbatim>\<open>examples/\<close> from their arguments to the end of \<^verbatim>\<open>main\<close>: the
    clients on a collector that they start themselves, with the second thread of \<^verbatim>\<open>client_monitoring.c\<close>, and the senders with
    the files they read.
  \<^item> \<open>Load_Balancer\<close>: \<^verbatim>\<open>examples/eBPF/reuseport_udp_kern.c\<close> and the loader of \<^verbatim>\<open>client_ebpf_user.c\<close>: the
    selector that spreads sources over several collectors, its hash and its maps.

  \<^bold>\<open>How the model reads.\<close> Structures are records with the fields of the code, integers are words of their
  width where they can wrap, a \<^verbatim>\<open>NULL\<close> pointer is \<open>None\<close>. A function that can run into undefined
  behaviour returns a fault in a sum type; one that can block or loop returns an option, \<open>None\<close> when it does not
  return. The outcomes of \<^verbatim>\<open>malloc\<close> are a list that is consumed; the empty list means that all further
  allocations succeed. There is no fuel: the option loop of the parser is a partial function
  into options, so that not returning is visible; so are the loops over the pointers of the memory theories, which are proved
  to return on the structures the code builds; all other loops are structural.

  \<^bold>\<open>Bounds.\<close> A receive buffer has 65535 bytes. The wire format carries segment numbers below
  32768, but the serialiser keeps only those below 128, so what is proved of
  sent messages is for at most 128 packets. With segment numbers below 32768 and payloads of at
  most 65535 bytes the 32-bit sums of the segmentation buffer do not wrap.

  \<^bold>\<open>Not modelled.\<close> The blocks of datagrams, queues, counters and threads: memory is followed from the parsed segment to
  the freed message, and addresses are never used again; the test programs, which are drivers of the library; the constants for
  the version. The answers of the system (sockets, received batches, files, time,
  thread identifiers, the kernel's map operations) are arguments. The example clients find their messages in the queue: their
  reads do not interleave with the workers' writes. In \<open>collector_step\<close> the operations of the
  threads on counter tables are taken one after the other: the code does not synchronise the monitoring thread with
  the others. Printing to a stream is modelled by the text alone, not by what the stream does with it.

  \<^bold>\<open>Left for later.\<close> Failing allocations in the running collector, a progress property for the threads
  together, and the clean-up during the arrival of messages.
\<close>

section \<open>Messages from the senders to the client\<close>

text \<open>
  C1. End to end. Any number of senders put messages of at most 128 packets on the network, with different
  identifiers. Their datagrams arrive in receive buffers of a collector, interleaved in any way, in any order,
  with losses and repetitions. If the workers have empty queues with enough room, hold nothing of these
  messages and have no clean-up due, and the output queue has room, then the listener
  dispatches the whole batch, and the workers, taking turns in any order until their queues are empty, put
  on the output queue exactly the messages that the abstract collector \<open>completions\<close> delivers, in its
  order: each has the identifiers, version, media type and custom options of the message that was sent, and
  its payload is byte for byte the buffer that was sent. If of every message all datagrams arrive, with repetitions
  only before the last missing one, then each message is delivered exactly once.
\<close>

theorem messages_end_to_end:
  assumes "\<And>a. a < k \<Longrightarrow> sent_by (sk a) (msg a) (sent a)"
    and "inj_on (\<lambda>a. (msg_observation_domain_id (msg a), msg_message_id (msg a))) {..<k}"
    and "list_all2 (\<lambda>m (a, i). a < k \<and> holds_datagram (sent a) m i) ms es"
    and "listener_ok inp st"
    and "\<And>v. v < length (ls_parsers st) \<Longrightarrow> q_list (input_of st v) = [] \<and>
      length ms < q_size (input_of st v) \<and> \<not> p_legacy_proto (worker_at st v) \<and>
      cleanup (p_segment_buff (worker_at st v)) \<noteq> 1"
    and "\<And>a. a < k \<Longrightarrow> message_of (p_segment_buff (worker_at st (worker_of inp (msg a)))) (msg a) = None"
    and "\<And>v. count_list (map fst ts) v = length (events_for inp msg es v)"
    and "order = completions (\<lambda>a. length (sent a)) (\<lambda>_. {}) (scheduled (map fst ts) (events_for inp msg es))"
    and "length (q_list (ls_output st)) + length order < q_size (ls_output st)"
  shows "\<exists>st' st'' outs. listener_round inp (Some ms) st [] = Some (Inr (None, st', [])) \<and>
    workers_steps ts st' = Some (Inr (None, st'')) \<and> listener_ok inp st'' \<and>
    (\<forall>v<length (ls_parsers st''). q_list (input_of st'' v) = []) \<and>
    q_list (ls_output st'') = q_list (ls_output st) @ map Some outs \<and>
    list_all2 (\<lambda>a out. delivered (msg a) out) order outs \<and>
    ((\<forall>a<k. arrival (length (sent a)) (datagrams_of a es)) \<longrightarrow> distinct order \<and> set order = {..<k})"
proof -
  have "fst e < k" if "e \<in> set es" for e
    using assms(3) that by (auto simp: list_all2_conv_all_nth in_set_conv_nth case_prod_beta)
  then have "(\<forall>a<k. arrival (length (sent a)) (datagrams_of a es)) \<longrightarrow> distinct order \<and> set order = {..<k}"
    using each_message_once[OF assms(7) _ _ assms(8)] by blast
  with messages_run[OF assms] show ?thesis by blast
qed

text \<open>A collector with two workers, its listener's first state, and two messages, one for each worker.\<close>

definition sample_collector :: listener_thread_input where
  "sample_collector = sample_listener\<lparr>l_output_queue := fresh_queue 3, l_monitoring_queue := fresh_queue 3,
     l_parser_queue_size := 12\<rparr>"

definition sample_worker_waiting :: parse_worker where
  "sample_worker_waiting = sample_parse_worker\<lparr>pw_input := (pw_input sample_parse_worker)
     \<lparr>p_input := fresh_queue 12, p_output := fresh_queue 3\<rparr>\<rparr>"

definition sample_waiting :: listener_state where
  "sample_waiting = sample_listener_state\<lparr>ls_output := fresh_queue 3,
     ls_parsers := [sample_worker_waiting, sample_worker_waiting]\<rparr>"

definition sample_pair :: "nat \<Rightarrow> unyte_message" where
  "sample_pair a = (if a = 0 then sample_message else sample_message\<lparr>msg_observation_domain_id := 8\<rparr>)"

lemma sample_waiting_ok: "listener_ok sample_collector sample_waiting"
  using sample_listener_state_ok
  by (auto simp: listener_ok_def sample_waiting_def sample_worker_waiting_def sample_listener_state_def
      sample_collector_def sample_listener_def worker_ok_def fresh_queue_ok)

lemma sample_waiting_simps:
  "worker_of sample_collector (sample_pair a) = (if a = 0 then 1 else 0)"
  "length (ls_parsers sample_waiting) = 2" "ls_output sample_waiting = fresh_queue 3"
  "v < 2 \<Longrightarrow> input_of sample_waiting v = fresh_queue 12"
  "v < 2 \<Longrightarrow> \<not> p_legacy_proto (worker_at sample_waiting v)"
  "v < 2 \<Longrightarrow> p_segment_buff (worker_at sample_waiting v) = empty_buffer" "cleanup empty_buffer = 0"
  by (simp_all add: worker_of_def sample_collector_def sample_pair_def sample_message_def sample_listener_def
      sample_waiting_def empty_buffer_def)
    (auto simp: less_2_cases_iff worker_at_def input_of_def sample_waiting_def sample_worker_waiting_def
      sample_parse_worker_def sample_worker_def empty_buffer_def)

lemma sample_pair_sent:
  obtains sent where "sent_by sample_sender (sample_pair a) sent" "length sent = 4"
    "\<And>i. i < 4 \<Longrightarrow> holds_datagram sent (sample_mmsg (sent ! i)) i"
proof -
  let ?msg = "sample_pair a" and ?mtu = "chosen_mtu sample_sender (sample_pair a)"
  have mtu: "?mtu = 20" by (simp add: chosen_mtu_def sample_pair_def sample_message_def)
  have os: "sent_options ?msg = sent_options sample_message" "buffer_len ?msg = buffer_len sample_message"
    by (simp_all add: sample_pair_def sent_options_def)
  have g: "good_message ?msg ?mtu"
    unfolding mtu
    by (simp add: good_message_def sample_pair_def sample_message_def sent_options_def built_option_def good_send_option_def)
  have "packet_count sample_message 20 = 4" by code_simp
  then have n: "packet_count ?msg ?mtu = 4" unfolding mtu by (simp only: packet_count_def os)
  then have few: "packet_count ?msg ?mtu \<le> 128" by simp
  obtain segs where segs: "length segs = 4"
    "\<forall>i<length segs. packet_ok (segs ! i) (options_of_nth ?msg i)"
    "unyte_send sample_sender ?msg [] =
      Inr (0, map (\<lambda>i. packet_bytes (segs ! i) (options_of_nth ?msg i)) [0..<length segs], [])"
    by (rule unyte_send_packets[OF g few]) (use n in simp)
  define sent where "sent = map (\<lambda>i. packet_bytes (segs ! i) (options_of_nth ?msg i)) [0..<length segs]"
  have len: "length sent = 4" using segs(1) by (simp add: sent_def)
  have "holds_datagram sent (sample_mmsg (sent ! i)) i" if "i < 4" for i
  proof -
    have "length (sent ! i) \<le> UDP_SIZE"
      using parse_sent_datagram(2) segs(1,2) that by (auto simp: sent_def)
    then show ?thesis using that len by (simp add: holds_datagram_def sample_mmsg_def sample_min_def)
  qed
  moreover have "sent_by sample_sender ?msg sent" using g few segs(3) by (simp add: sent_by_def sent_def)
  ultimately show thesis using len that by blast
qed

theorem messages_end_to_end_witness:
  "\<exists>sent st' st'' o1 o2. sent_by sample_sender (sample_pair 0) (sent 0) \<and>
    sent_by sample_sender (sample_pair 1) (sent 1) \<and>
    listener_round sample_collector (Some (map (\<lambda>(a, i). sample_mmsg (sent a ! i))
      [(0 :: nat, 2), (1, 0), (0, 0), (1, 3), (0, 2), (1, 1), (0, 3), (0, 1), (1, 2)])) sample_waiting [] =
      Some (Inr (None, st', [])) \<and>
    workers_steps [(1, 0), (0, 0), (0, 0), (1, 0), (1, 0), (0, 0), (0, 0), (1, 0), (1, 0)] st' = Some (Inr (None, st'')) \<and>
    q_list (ls_output st'') = [Some o1, Some o2] \<and>
    delivered (sample_pair 1) o1 \<and> delivered (sample_pair 0) o2 \<and> payload o2 = [1, 2, 3, 4, 5, 6, 7, 8, 9, 10]"
proof -
  have "\<forall>a. \<exists>sent. sent_by sample_sender (sample_pair a) sent \<and> length sent = 4 \<and>
      (\<forall>i<4. holds_datagram sent (sample_mmsg (sent ! i)) i)"
    using sample_pair_sent by metis
  then obtain sent where sent: "\<And>a. sent_by sample_sender (sample_pair a) (sent a)" "\<And>a. length (sent a) = 4"
    "\<And>a i. i < 4 \<Longrightarrow> holds_datagram (sent a) (sample_mmsg (sent a ! i)) i"
    by metis
  let ?es = "[(0, 2), (1, 0), (0, 0), (1, 3), (0, 2), (1, 1), (0, 3), (0, 1), (1, 2)] :: (nat \<times> nat) list"
  let ?ms = "map (\<lambda>(a, i). sample_mmsg (sent a ! i)) ?es"
  let ?ts = "[(1, 0), (0, 0), (0, 0), (1, 0), (1, 0), (0, 0), (0, 0), (1, 0), (1, 0)] :: (nat \<times> int) list"
  have ids: "inj_on (\<lambda>a. (msg_observation_domain_id (sample_pair a), msg_message_id (sample_pair a))) {..<2}"
    by (auto simp: inj_on_def less_2_cases_iff sample_pair_def sample_message_def)
  have all: "list_all2 (\<lambda>m (a, i). a < 2 \<and> holds_datagram (sent a) m i) ?ms ?es" by (simp add: sent(3))
  have ev: "events_for sample_collector sample_pair ?es =
      (\<lambda>v. if v = 0 then [(1, 0), (1, 3), (1, 1), (1, 2)] else if v = 1 then [(0, 2), (0, 0), (0, 2), (0, 3), (0, 1)] else [])"
    by (intro ext) (simp add: events_for_def sample_waiting_simps)
  have sched: "count_list (map fst ?ts) v = length (events_for sample_collector sample_pair ?es v)" for v
    unfolding ev by simp
  have order: "[1, 0] = completions (\<lambda>a. length (sent a)) (\<lambda>_. {})
      (scheduled (map fst ?ts) (events_for sample_collector sample_pair ?es))"
    unfolding ev sent(2) by code_simp
  have idle: "q_list (input_of sample_waiting v) = [] \<and> length ?ms < q_size (input_of sample_waiting v) \<and>
      \<not> p_legacy_proto (worker_at sample_waiting v) \<and> cleanup (p_segment_buff (worker_at sample_waiting v)) \<noteq> 1"
    if "v < length (ls_parsers sample_waiting)" for v
    using that unfolding sample_waiting_simps(2) by (simp add: sample_waiting_simps fresh_queue_ok del: length_q_list)
  have new: "message_of (p_segment_buff (worker_at sample_waiting (worker_of sample_collector (sample_pair a))))
      (sample_pair a) = None" for a
    unfolding sample_waiting_simps(1) by (simp add: sample_waiting_simps message_of_def)
  have room: "length (q_list (ls_output sample_waiting)) + length [1 :: nat, 0] < q_size (ls_output sample_waiting)"
    by (simp add: sample_waiting_simps fresh_queue_ok del: length_q_list)
  obtain st' st'' outs where "listener_round sample_collector (Some ?ms) sample_waiting [] = Some (Inr (None, st', []))"
    "workers_steps ?ts st' = Some (Inr (None, st''))"
    "q_list (ls_output st'') = q_list (ls_output sample_waiting) @ map Some outs"
    "list_all2 (\<lambda>a out. delivered (sample_pair a) out) [1, 0] outs"
    using messages_end_to_end[OF sent(1) ids all sample_waiting_ok idle new sched order room] by blast
  moreover have "q_list (ls_output sample_waiting) = []" by (simp add: sample_waiting_simps fresh_queue_ok)
  moreover have "payload out = [1, 2, 3, 4, 5, 6, 7, 8, 9, 10]" if "delivered (sample_pair 0) out" for out
    using that by (simp add: delivered_def sample_pair_def sample_message_def)
  ultimately show ?thesis
    using sent(1) by (intro exI[of _ sent] exI[of _ st'] exI[of _ st'']) (auto simp: list_all2_Cons1)
qed

section \<open>The running collector\<close>



end
